(* ===== verification/U7s_Prelude.thy ===== *)
theory U7s_Prelude
  imports Main "HOL-Library.Char_ord" "HOL-Library.List_Lexorder" "HOL-Library.Sublist"
begin

text \<open>
  Shared material of the development: Rust's \<^verbatim>\<open>str\<close> operations on byte strings, decimal
  rendering and parsing of unsigned integers, ordered maps (\<^verbatim>\<open>BTreeMap\<close>) as sorted
  association lists, and results of fallible operations as sums whose left side is the error.
\<close>

named_theorems u7s_defs "definitions that unfold an operation into its branches"

type_synonym rev = nat

subsection \<open>Rust string operations\<close>

text \<open>
  A Rust \<^verbatim>\<open>str\<close> is its UTF-8 byte sequence, here a \<^typ>\<open>string\<close>; order is bytewise.
  The separators the code uses are ASCII, so splitting bytes is splitting characters.
\<close>

definition starts_with :: "string \<Rightarrow> string \<Rightarrow> bool" where
  "starts_with s p = (take (length p) s = p)"

definition strip_prefix :: "string \<Rightarrow> string \<Rightarrow> string option" where
  "strip_prefix s p = (if starts_with s p then Some (drop (length p) s) else None)"

definition ends_with :: "string \<Rightarrow> string \<Rightarrow> bool" where
  "ends_with s p = starts_with (rev s) (rev p)"

definition strip_suffix :: "string \<Rightarrow> string \<Rightarrow> string option" where
  "strip_suffix s p = (if ends_with s p then Some (take (length s - length p) s) else None)"

fun split_char :: "char \<Rightarrow> string \<Rightarrow> string list" where
  "split_char c [] = [[]]"
| "split_char c (x # xs) =
     (if x = c then [] # split_char c xs
      else (case split_char c xs of [] \<Rightarrow> [[x]] | w # ws \<Rightarrow> (x # w) # ws))"

fun split_once :: "char \<Rightarrow> string \<Rightarrow> (string \<times> string) option" where
  "split_once c [] = None"
| "split_once c (x # xs) =
     (if x = c then Some ([], xs)
      else map_option (\<lambda>(a, b). (x # a, b)) (split_once c xs))"

definition rsplit_once :: "char \<Rightarrow> string \<Rightarrow> (string \<times> string) option" where
  "rsplit_once c s = map_option (\<lambda>(a, b). (rev b, rev a)) (split_once c (rev s))"

text \<open>\<^verbatim>\<open>str::contains\<close>, and \<^verbatim>\<open>Vec::insert\<close> and \<^verbatim>\<open>Vec::remove\<close> at an index in
  range, \<^verbatim>\<open>Option::unwrap_or\<close>.\<close>

fun str_contains :: "string \<Rightarrow> string \<Rightarrow> bool" where
  "str_contains [] part = (part = [])"
| "str_contains (c # cs) part = (take (length part) (c # cs) = part \<or> str_contains cs part)"

definition or_default :: "'a \<Rightarrow> 'a option \<Rightarrow> 'a" where
  "or_default d x = (case x of Some v \<Rightarrow> v | None \<Rightarrow> d)"

definition vec_insert :: "nat \<Rightarrow> 'a \<Rightarrow> 'a list \<Rightarrow> 'a list" where
  "vec_insert i x xs = take i xs @ x # drop i xs"

definition vec_remove :: "nat \<Rightarrow> 'a list \<Rightarrow> 'a list" where
  "vec_remove i xs = take i xs @ drop (Suc i) xs"

lemma starts_with_iff_prefix: "starts_with s p \<longleftrightarrow> prefix p s"
  by (metis append_eq_conv_conj append_take_drop_id prefix_def starts_with_def)

lemma starts_with_append [simp]: "starts_with (p @ s) p"
  by (simp add: starts_with_def)

lemma starts_with_refl [simp]: "starts_with s s"
  by (simp add: starts_with_def)

lemma starts_with_Nil [simp]: "starts_with s []"
  by (simp add: starts_with_def)

lemma starts_with_trans: "starts_with s p \<Longrightarrow> starts_with p q \<Longrightarrow> starts_with s q"
  by (auto simp: starts_with_iff_prefix)

lemma strip_prefix_Some_iff: "strip_prefix s p = Some r \<longleftrightarrow> s = p @ r"
  by (auto simp: strip_prefix_def starts_with_def)
    (metis append_take_drop_id)

lemma strip_suffix_Some_iff: "strip_suffix s p = Some r \<longleftrightarrow> s = r @ p"
proof -
  have "ends_with s p \<longleftrightarrow> suffix p s"
    by (simp add: ends_with_def starts_with_iff_prefix suffix_to_prefix)
  then show ?thesis
    by (auto simp: strip_suffix_def suffix_def)
qed

lemma split_once_Some: "split_once c s = Some (a, b) \<longleftrightarrow> s = a @ c # b \<and> c \<notin> set a"
proof (induction s arbitrary: a)
  case Nil
  then show ?case by simp
next
  case (Cons x xs)
  then show ?case by (cases a) auto
qed

lemma split_once_None: "split_once c s = None \<longleftrightarrow> c \<notin> set s"
  by (induction s) auto

lemma rsplit_once_Some: "rsplit_once c s = Some (a, b) \<longleftrightarrow> s = a @ c # b \<and> c \<notin> set b"
proof -
  have "rsplit_once c s = Some (a, b) \<longleftrightarrow> split_once c (rev s) = Some (rev b, rev a)"
    unfolding rsplit_once_def by (cases "split_once c (rev s)") (auto simp: rev_swap)
  also have "\<dots> \<longleftrightarrow> rev s = rev b @ c # rev a \<and> c \<notin> set (rev b)"
    by (rule split_once_Some)
  also have "\<dots> \<longleftrightarrow> s = a @ c # b \<and> c \<notin> set b"
    by (metis rev_append rev_rev_ident rev.simps(2) append.assoc append_Cons append_Nil set_rev)
  finally show ?thesis .
qed

lemma split_char_none: "c \<notin> set a \<Longrightarrow> split_char c a = [a]"
  by (induction a) auto

lemma split_char_append: "c \<notin> set a \<Longrightarrow> split_char c (a @ c # b) = a # split_char c b"
  by (induction a) auto

lemma rsplit_once_snoc:
  "c \<notin> set b \<Longrightarrow> rsplit_once c (a @ c # b) = Some (a, b)"
  by (simp add: rsplit_once_Some)

subsection \<open>Decimal rendering and parsing\<close>

definition digit_char :: "nat \<Rightarrow> char" where
  "digit_char d = char_of (48 + d)"

definition is_digit :: "char \<Rightarrow> bool" where
  "is_digit c = (48 \<le> (of_char c :: nat) \<and> (of_char c :: nat) \<le> 57)"

definition digit_val :: "char \<Rightarrow> nat" where
  "digit_val c = of_char c - 48"

fun nat_str :: "nat \<Rightarrow> string" where
  "nat_str n = (if n < 10 then [digit_char n] else nat_str (n div 10) @ [digit_char (n mod 10)])"

declare nat_str.simps [simp del]

definition int_str :: "int \<Rightarrow> string" where
  "int_str i = (if i < 0 then CHR ''-'' # nat_str (nat (- i)) else nat_str (nat i))"

definition digits_val :: "string \<Rightarrow> nat" where
  "digits_val s = foldl (\<lambda>acc c. 10 * acc + digit_val c) 0 s"

text \<open>Rust's \<^verbatim>\<open>str::parse::<u64>\<close>: an optional plus sign, at least one digit, no overflow.\<close>

definition parse_u64 :: "string \<Rightarrow> nat option" where
  "parse_u64 s =
     (let t = (case s of c # r \<Rightarrow> if c = CHR ''+'' then r else s | [] \<Rightarrow> s) in
      if t \<noteq> [] \<and> list_all is_digit t \<and> digits_val t < 2 ^ 64 then Some (digits_val t) else None)"

lemma is_digit_digit_char: "d < 10 \<Longrightarrow> is_digit (digit_char d)"
  by (simp add: is_digit_def digit_char_def)

lemma digit_val_digit_char: "d < 10 \<Longrightarrow> digit_val (digit_char d) = d"
  by (simp add: digit_val_def digit_char_def)

lemma nat_str_not_Nil [simp]: "nat_str n \<noteq> []"
  by (subst nat_str.simps) simp

lemma nat_str_digits: "list_all is_digit (nat_str n)"
proof (induction n rule: nat_str.induct)
  case (1 n)
  then show ?case
    by (subst nat_str.simps) (auto simp: is_digit_digit_char)
qed

lemma digits_val_nat_str: "digits_val (nat_str n) = n"
proof (induction n rule: nat_str.induct)
  case (1 n)
  show ?case
  proof (cases "n < 10")
    case True
    then show ?thesis
      by (simp add: nat_str.simps [of n] digits_val_def digit_val_digit_char)
  next
    case False
    with 1 have "digits_val (nat_str (n div 10)) = n div 10" by simp
    with False show ?thesis
      by (simp add: nat_str.simps [of n] digits_val_def digit_val_digit_char)
  qed
qed

lemma nat_str_hd_not_plus: "nat_str n = c # r \<Longrightarrow> c \<noteq> CHR ''+''"
  using nat_str_digits [of n] by (auto simp: is_digit_def)

lemma parse_u64_nat_str: "n < 2 ^ 64 \<Longrightarrow> parse_u64 (nat_str n) = Some n"
proof -
  assume "n < 2 ^ 64"
  moreover have "(case nat_str n of c # r \<Rightarrow> if c = CHR ''+'' then r else nat_str n | [] \<Rightarrow> nat_str n) = nat_str n"
    by (auto split: list.split dest: nat_str_hd_not_plus)
  ultimately show ?thesis
    by (simp add: parse_u64_def digits_val_nat_str nat_str_digits)
qed

lemma nat_str_inject [simp]: "nat_str m = nat_str n \<longleftrightarrow> m = n"
  by (metis digits_val_nat_str)

lemma int_str_negative: "p < 0 \<Longrightarrow> 0 \<le> q \<Longrightarrow> int_str p \<noteq> int_str q"
  using nat_str_digits [of "nat q"] by (auto simp: int_str_def is_digit_def dest!: arg_cong [of _ _ "list_all is_digit"])

lemma int_str_inject [simp]: "int_str p = int_str q \<longleftrightarrow> p = q"
proof
  assume eq: "int_str p = int_str q"
  consider "p < 0" "q < 0" | "0 \<le> p" "0 \<le> q"
    using int_str_negative [of p q] int_str_negative [of q p] eq by force
  then show "p = q" using eq by cases (simp_all add: int_str_def)
qed simp

lemma set_map_filter: "set (List.map_filter f xs) = {y. \<exists>x \<in> set xs. f x = Some y}"
  by (force simp: List.map_filter_def)

lemma set_fold_insort_insert [simp]: "set (fold insort_insert xs ys) = set xs \<union> set ys"
  by (induction xs arbitrary: ys) (auto simp: set_insort_insert)

lemma distinct_fold_insort_insert: "distinct ys \<Longrightarrow> distinct (fold insort_insert xs ys)"
  by (induction xs arbitrary: ys) (auto simp: distinct_insort_insert)

subsection \<open>Ordered maps\<close>

text \<open>
  A \<^verbatim>\<open>BTreeMap\<close> is a list of entries with strictly increasing keys. Lookup is
  \<^const>\<open>map_of\<close>; the first entry is the least key.
\<close>

type_synonym ('k, 'v) btree = "('k \<times> 'v) list"

definition bt_wf :: "('k::linorder, 'v) btree \<Rightarrow> bool" where
  "bt_wf m = sorted_wrt (<) (map fst m)"

fun bt_insert :: "'k::linorder \<Rightarrow> 'v \<Rightarrow> ('k, 'v) btree \<Rightarrow> ('k, 'v) btree" where
  "bt_insert k v [] = [(k, v)]"
| "bt_insert k v ((k', v') # m) =
     (if k < k' then (k, v) # (k', v') # m
      else if k = k' then (k, v) # m
      else (k', v') # bt_insert k v m)"

definition bt_remove :: "'k::linorder \<Rightarrow> ('k, 'v) btree \<Rightarrow> ('k, 'v) btree" where
  "bt_remove k m = filter (\<lambda>(k', v). k' \<noteq> k) m"

lemma map_of_bt_insert [simp]: "map_of (bt_insert k v m) = (map_of m)(k \<mapsto> v)"
  by (induction k v m rule: bt_insert.induct) (auto simp: fun_eq_iff)

lemma map_of_bt_remove [simp]: "map_of (bt_remove k m) = (map_of m)(k := None)"
  by (induction m) (auto simp: bt_remove_def fun_eq_iff)

lemma set_bt_remove [simp]: "set (bt_remove k m) = {e \<in> set m. fst e \<noteq> k}"
  by (auto simp: bt_remove_def)

lemma fst_set_bt_insert [simp]: "fst ` set (bt_insert k v m) = insert k (fst ` set m)"
  by (induction k v m rule: bt_insert.induct) auto

lemma set_bt_insert_subset: "set (bt_insert k v m) \<subseteq> insert (k, v) (set m)"
  by (induction k v m rule: bt_insert.induct) auto

lemma bt_wf_Nil [simp]: "bt_wf []"
  by (simp add: bt_wf_def)

lemma bt_wf_Cons: "bt_wf ((k, v) # m) \<longleftrightarrow> (\<forall>e \<in> set m. k < fst e) \<and> bt_wf m"
  by (auto simp: bt_wf_def)

lemma bt_wf_insert [simp]: "bt_wf m \<Longrightarrow> bt_wf (bt_insert k v m)"
proof (induction k v m rule: bt_insert.induct)
  case (1 k v)
  then show ?case by (simp add: bt_wf_def)
next
  case (2 k v k' v' m)
  have wf: "\<forall>e \<in> set m. k' < fst e" "bt_wf m" using 2 by (simp_all add: bt_wf_Cons)
  have new: "\<forall>e \<in> set (bt_insert k v m). e = (k, v) \<or> e \<in> set m"
    using set_bt_insert_subset [of k v m] by blast
  consider "k < k'" | "k = k'" | "k' < k" by force
  then show ?case
  proof cases
    case 1
    with wf show ?thesis by (auto simp: bt_wf_Cons intro: less_trans)
  next
    case 2
    with wf show ?thesis by (simp add: bt_wf_Cons)
  next
    case 3
    then have "\<forall>e \<in> set (bt_insert k v m). k' < fst e" using new wf(1) by auto
    moreover have "bt_wf (bt_insert k v m)" using 2(1) 3 wf(2) by force
    ultimately show ?thesis using 3 wf by (auto simp: bt_wf_Cons)
  qed
qed

lemma bt_wf_filter [simp]: "bt_wf m \<Longrightarrow> bt_wf (filter P m)"
  by (induction m) (auto simp: bt_wf_Cons)

lemma bt_wf_remove [simp]: "bt_wf m \<Longrightarrow> bt_wf (bt_remove k m)"
  by (simp add: bt_remove_def)

lemma bt_wf_distinct: "bt_wf m \<Longrightarrow> distinct (map fst m)"
  by (induction m) (force simp: bt_wf_Cons)+

lemma bt_wf_map_of_iff: "bt_wf m \<Longrightarrow> map_of m k = Some v \<longleftrightarrow> (k, v) \<in> set m"
  by (simp add: bt_wf_distinct)

lemma bt_wf_unique: "bt_wf m \<Longrightarrow> (k, v) \<in> set m \<Longrightarrow> (k, v') \<in> set m \<Longrightarrow> v = v'"
  by (metis bt_wf_map_of_iff option.inject)

lemma bt_wf_set_inject: "bt_wf m \<Longrightarrow> bt_wf m' \<Longrightarrow> set m = set m' \<Longrightarrow> m = m'"
proof (induction m arbitrary: m')
  case Nil
  then show ?case by simp
next
  case (Cons e m)
  obtain k v where e: "e = (k, v)" by (cases e)
  obtain k' v' m'' where m': "m' = (k', v') # m''" using Cons.prems(3) by (cases m') auto
  have lt: "\<forall>x \<in> set m. k < fst x" "\<forall>x \<in> set m''. k' < fst x" and wf: "bt_wf m" "bt_wf m''"
    using Cons.prems(1,2) e m' by (simp_all add: bt_wf_Cons)
  have mem: "(k, v) \<in> set m'" "(k', v') \<in> set (e # m)" using Cons.prems(3) e m' by auto
  have hd: "(k, v) = (k', v')" using mem lt e m' by fastforce
  have "set m = set m''" using Cons.prems(3) e m' hd lt by fastforce
  then show ?case using Cons.IH wf e m' hd by simp
qed

lemma bt_wf_map_of_inject: "bt_wf m \<Longrightarrow> bt_wf m' \<Longrightarrow> map_of m = map_of m' \<Longrightarrow> m = m'"
proof (rule bt_wf_set_inject)
  assume wf: "bt_wf m" "bt_wf m'" and eq: "map_of m = map_of m'"
  have "(k, v) \<in> set m \<longleftrightarrow> (k, v) \<in> set m'" for k v
    using bt_wf_map_of_iff [OF wf(1), of k v] bt_wf_map_of_iff [OF wf(2), of k v] eq by simp
  then show "set m = set m'" by auto
qed

lemma map_of_filter_bt:
  "bt_wf m \<Longrightarrow> map_of (filter P m) k =
     (case map_of m k of Some v \<Rightarrow> if P (k, v) then Some v else None | None \<Rightarrow> None)"
proof (induction m)
  case (Cons e m)
  then show ?case
    by (cases e) (fastforce simp: bt_wf_Cons map_of_eq_None_iff split: option.split)
qed simp

lemma bt_insert_absorb: "bt_wf m \<Longrightarrow> map_of m k = Some v \<Longrightarrow> bt_insert k v m = m"
  by (rule bt_wf_map_of_inject) auto

lemma length_bt_insert:
  "bt_wf m \<Longrightarrow> length (bt_insert k v m) = (if k \<in> fst ` set m then length m else Suc (length m))"
proof (induction k v m rule: bt_insert.induct)
  case (2 k v k' v' m)
  then show ?case by (force simp: bt_wf_Cons)
qed simp

lemma bt_remove_Cons: "bt_wf ((k, v) # m) \<Longrightarrow> bt_remove k ((k, v) # m) = m"
  by (auto simp: bt_remove_def bt_wf_Cons filter_id_conv)

lemma length_bt_remove:
  "bt_wf m \<Longrightarrow> k \<in> fst ` set m \<Longrightarrow> Suc (length (bt_remove k m)) = length m"
proof (induction m)
  case (Cons e m)
  obtain k' v where e: "e = (k', v)" by (cases e)
  show ?case
  proof (cases "k = k'")
    case True
    then show ?thesis using Cons.prems(1) bt_remove_Cons e by fastforce
  next
    case False
    then show ?thesis using Cons e by (auto simp: bt_remove_def bt_wf_Cons)
  qed
qed simp

lemma length_bt_remove_le: "length (bt_remove k m) \<le> length m"
  by (simp add: bt_remove_def)

subsection \<open>Results\<close>

type_synonym ('e, 'a) result = "'e + 'a"

definition is_ok :: "'e + 'a \<Rightarrow> bool" where
  "is_ok r = (case r of Inl _ \<Rightarrow> False | Inr _ \<Rightarrow> True)"

lemma is_ok_simps [simp]: "is_ok (Inr a)" "\<not> is_ok (Inl e)"
  by (simp_all add: is_ok_def)

end
