(* ===== verification/Json_Value.thy ===== *)
theory Json_Value
  imports U7s_Prelude
begin

text \<open>
  JSON documents as the code handles them: \<^verbatim>\<open>serde_json::Value\<close> with its accessors
  (\<^verbatim>\<open>get\<close>, indexing by key, \<^verbatim>\<open>as_str\<close>, \<^verbatim>\<open>as_array\<close>, \<^verbatim>\<open>as_i64\<close>, assignment
  through an index), the byte codec as a parameter, and \<^verbatim>\<open>json_path_equals\<close> of
  \<^verbatim>\<open>crates/store/src/lib.rs\<close>. An object's members are a \<^verbatim>\<open>BTreeMap\<close>, so their keys are
  strictly increasing. A number that is not an integer is kept by its canonical text.
\<close>

datatype json =
    JNull
  | JBool bool
  | JInt int
  | JFloat string
  | JStr string
  | JArr "json list"
  | JObj "(string \<times> json) list"

fun json_wf :: "json \<Rightarrow> bool" where
  "json_wf (JArr xs) = (\<forall>x \<in> set xs. json_wf x)"
| "json_wf (JObj m) = (bt_wf m \<and> (\<forall>e \<in> set m. json_wf (snd e)))"
| "json_wf _ = True"

definition json_get :: "json \<Rightarrow> string \<Rightarrow> json option" where
  "json_get v k = (case v of JObj m \<Rightarrow> map_of m k | _ \<Rightarrow> None)"

definition json_idx :: "json \<Rightarrow> string \<Rightarrow> json" where
  "json_idx v k = (case json_get v k of Some x \<Rightarrow> x | None \<Rightarrow> JNull)"

definition as_str :: "json \<Rightarrow> string option" where
  "as_str v = (case v of JStr s \<Rightarrow> Some s | _ \<Rightarrow> None)"

definition as_bool :: "json \<Rightarrow> bool option" where
  "as_bool v = (case v of JBool b \<Rightarrow> Some b | _ \<Rightarrow> None)"

definition as_array :: "json \<Rightarrow> json list option" where
  "as_array v = (case v of JArr xs \<Rightarrow> Some xs | _ \<Rightarrow> None)"

definition as_object :: "json \<Rightarrow> (string \<times> json) list option" where
  "as_object v = (case v of JObj m \<Rightarrow> Some m | _ \<Rightarrow> None)"

definition as_i64 :: "json \<Rightarrow> int option" where
  "as_i64 v = (case v of JInt n \<Rightarrow> if - (2 ^ 63) \<le> n \<and> n < 2 ^ 63 then Some n else None | _ \<Rightarrow> None)"

text \<open>
  Assignment through an index: a missing member or \<^verbatim>\<open>null\<close> becomes an object on the way,
  any other non-object panics (\<^const>\<open>None\<close>).
\<close>

definition json_index_mut :: "json \<Rightarrow> string \<Rightarrow> (json \<Rightarrow> json option) \<Rightarrow> json option" where
  "json_index_mut v k f =
     (case v of
        JNull \<Rightarrow> map_option (\<lambda>x. JObj [(k, x)]) (f JNull)
      | JObj m \<Rightarrow> map_option (\<lambda>x. JObj (bt_insert k x m)) (f (json_idx v k))
      | _ \<Rightarrow> None)"

text \<open>
  The byte codec is a third-party crate and a parameter of the model. What the code relies on:
  rendering a value and parsing the bytes gives the value back, and a parsed value is
  well-formed.
\<close>

record 'b codec =
  from_slice :: "'b \<Rightarrow> json option"
  to_vec :: "json \<Rightarrow> 'b"

definition codec_ok :: "'b codec \<Rightarrow> bool" where
  "codec_ok c =
     ((\<forall>j. json_wf j \<longrightarrow> from_slice c (to_vec c j) = Some j) \<and>
      (\<forall>b j. from_slice c b = Some j \<longrightarrow> json_wf j))"

text \<open>\<^verbatim>\<open>json_path_equals\<close>: walk a dot-separated path; a missing member compares as its zero value.\<close>

definition scalar_equals :: "json \<Rightarrow> string \<Rightarrow> bool" where
  "scalar_equals v expected =
     (case v of
        JStr s \<Rightarrow> s = expected
      | JBool b \<Rightarrow> expected = (if b then ''true'' else ''false'')
      | JNull \<Rightarrow> expected = []
      | JInt n \<Rightarrow> expected = int_str n
      | JFloat t \<Rightarrow> expected = t
      | _ \<Rightarrow> False)"

fun path_equals :: "json \<Rightarrow> string list \<Rightarrow> string \<Rightarrow> bool" where
  "path_equals v [] expected = scalar_equals v expected"
| "path_equals v (p # ps) expected =
     (case json_get v p of
        Some next \<Rightarrow> path_equals next ps expected
      | None \<Rightarrow> expected = [] \<or> expected = ''false'')"

definition json_path_equals :: "json \<Rightarrow> string \<Rightarrow> string \<Rightarrow> bool" where
  "json_path_equals v field expected = path_equals v (split_char CHR ''.'' field) expected"

subsection \<open>Laws of the accessors\<close>

lemma json_get_simps [simp]:
  "json_get (JObj m) k = map_of m k" "json_get JNull k = None" "json_get (JArr xs) k = None"
  "json_get (JStr s) k = None" "json_get (JInt n) k = None" "json_get (JBool b) k = None"
  "json_get (JFloat t) k = None"
  by (simp_all add: json_get_def)

lemma as_str_simps [simp]:
  "as_str (JStr s) = Some s" "as_str JNull = None" "as_str (JArr xs) = None"
  "as_str (JObj m) = None" "as_str (JInt n) = None" "as_str (JBool b) = None"
  "as_str (JFloat t) = None"
  by (simp_all add: as_str_def)

lemma as_str_Some [simp]: "as_str v = Some s \<longleftrightarrow> v = JStr s"
  by (cases v) auto

lemma json_idx_simps [simp]:
  "json_idx (JObj m) k = (case map_of m k of Some x \<Rightarrow> x | None \<Rightarrow> JNull)"
  "json_idx JNull k = JNull"
  by (simp_all add: json_idx_def)

lemma json_wf_get: "json_wf v \<Longrightarrow> json_get v k = Some x \<Longrightarrow> json_wf x"
  by (cases v) (auto dest!: map_of_SomeD)

lemma json_wf_idx: "json_wf v \<Longrightarrow> json_wf (json_idx v k)"
  unfolding json_idx_def by (auto split: option.split dest: json_wf_get)

lemma json_index_mut_get:
  "json_index_mut v k f = Some v' \<Longrightarrow>
     \<exists>x. f (json_idx v k) = Some x \<and> json_get v' k = Some x \<and>
         (\<forall>k'. k' \<noteq> k \<longrightarrow> json_get v' k' = json_get v k')"
  unfolding json_index_mut_def by (auto split: json.splits)

lemma json_index_mut_wf:
  assumes "json_index_mut v k f = Some v'" and "json_wf v"
    and "\<And>x y. json_wf x \<Longrightarrow> f x = Some y \<Longrightarrow> json_wf y"
  shows "json_wf v'"
proof (cases v)
  case (JObj m)
  with assms(1) obtain x where fx: "f (json_idx v k) = Some x" and v': "v' = JObj (bt_insert k x m)"
    by (auto simp: json_index_mut_def)
  have "json_wf x" using fx assms(2,3) json_wf_idx by blast
  then show ?thesis
    using v' JObj assms(2) set_bt_insert_subset [of k x m] by auto
next
  case JNull
  with assms(1) obtain x where "f JNull = Some x" and v': "v' = JObj [(k, x)]"
    by (auto simp: json_index_mut_def)
  then have "json_wf x" using assms(3) [of JNull x] by simp
  with v' show ?thesis by (simp add: bt_wf_def)
qed (use assms in \<open>auto simp: json_index_mut_def\<close>)

end
