(* ===== verification/Store_Db.thy ===== *)
theory Store_Db
  imports Json_Value "HOL-Library.Multiset"
begin

text \<open>
  The transactional core of \<^verbatim>\<open>crates/store/src/sqlite.rs\<close>: the \<^verbatim>\<open>objects\<close> and
  \<^verbatim>\<open>meta\<close> tables and the blocking procedures that run inside one write transaction
  (\<^verbatim>\<open>put_sync\<close>, \<^verbatim>\<open>delete_sync\<close>, \<^verbatim>\<open>create_if_namespace_active_sync\<close>,
  \<^verbatim>\<open>delete_namespace_sync\<close>), the reads \<^verbatim>\<open>get_sync\<close> and the read-after-write guard of
  \<^verbatim>\<open>get\<close>. The write connection's mutex serialises writes, so a procedure is a function of
  the tables; an error returns no tables, because the transaction rolls back.
  A panic on the blocking thread reaches the caller as a join error.
\<close>

subsection \<open>Tables and errors\<close>

record 'b row =
  row_value :: 'b
  row_revision :: rev
  row_ns :: "string option"
  row_name :: "string option"

record 'b db =
  objects :: "(string \<times> 'b row) list"
  meta_revision :: rev
  last_written :: rev

record 'b store_object =
  so_key :: string
  so_value :: 'b
  so_revision :: rev

datatype store_error =
    NotFound string
  | RevisionMismatch rev rev
  | AlreadyExists string
  | Serialization
  | Join

datatype create_error =
    NamespaceTerminating
  | NamespaceNotFound
  | CreateStore store_error

definition empty_db :: "'b db" where
  "empty_db = \<lparr>objects = [], meta_revision = 0, last_written = 0\<rparr>"

definition row_at :: "'b db \<Rightarrow> string \<Rightarrow> 'b row option" where
  "row_at d k = map_of (objects d) k"

subsection \<open>Stamping and comparing documents\<close>

definition doc_meta_str :: "json \<Rightarrow> string \<Rightarrow> string option" where
  "doc_meta_str j f = as_str (json_idx (json_idx j ''metadata'') f)"

definition stamp_doc :: "json \<Rightarrow> rev \<Rightarrow> json option" where
  "stamp_doc j r =
     json_index_mut j ''metadata''
       (\<lambda>m. json_index_mut m ''resourceVersion'' (\<lambda>_. Some (JStr (nat_str r))))"

definition stamp_resource_version ::
    "'b codec \<Rightarrow> 'b \<Rightarrow> rev \<Rightarrow> store_error + ('b \<times> string option \<times> string option)" where
  "stamp_resource_version c value r =
     (case from_slice c value of
        None \<Rightarrow> Inl Serialization
      | Some obj \<Rightarrow>
          (case stamp_doc obj r of
             None \<Rightarrow> Inl Join
           | Some obj' \<Rightarrow>
               Inr (to_vec c obj', doc_meta_str obj ''namespace'', doc_meta_str obj ''name'')))"

definition strip_resource_version :: "json \<Rightarrow> json" where
  "strip_resource_version j =
     (case j of
        JObj m \<Rightarrow>
          (case map_of m ''metadata'' of
             Some (JObj mm) \<Rightarrow>
               JObj (bt_insert ''metadata'' (JObj (bt_remove ''resourceVersion'' mm)) m)
           | _ \<Rightarrow> j)
      | _ \<Rightarrow> j)"

definition semantically_equal_ignoring_resource_version :: "'b codec \<Rightarrow> 'b \<Rightarrow> 'b \<Rightarrow> bool" where
  "semantically_equal_ignoring_resource_version c new_value stored_value =
     (case (from_slice c new_value, from_slice c stored_value) of
        (Some new_json, Some stored_json) \<Rightarrow>
          strip_resource_version new_json = strip_resource_version stored_json
      | _ \<Rightarrow> False)"

subsection \<open>put\<close>

text \<open>The optimistic concurrency check: the error it raises, if any.\<close>

fun put_precondition :: "string \<Rightarrow> rev option \<Rightarrow> rev option \<Rightarrow> store_error option" where
  "put_precondition key _ None = None"
| "put_precondition key None (Some e) =
     (if e = 0 then None else Some (RevisionMismatch e 0))"
| "put_precondition key (Some s) (Some e) =
     (if e = 0 then Some (AlreadyExists key)
      else if s = e then None else Some (RevisionMismatch e s))"

record 'b put_result =
  pr_revision :: rev
  pr_body :: "'b option"
  pr_is_create :: bool
  pr_is_noop :: bool
  pr_ns :: "string option"

definition is_noop_write :: "'b codec \<Rightarrow> 'b row option \<Rightarrow> 'b \<Rightarrow> bool" where
  "is_noop_write c stored value =
     (case stored of
        Some r \<Rightarrow> semantically_equal_ignoring_resource_version c value (row_value r)
      | None \<Rightarrow> False)"

definition write_row :: "'b db \<Rightarrow> string \<Rightarrow> 'b \<Rightarrow> rev \<Rightarrow> string option \<Rightarrow> string option \<Rightarrow> 'b db" where
  "write_row d key stamped r ns name =
     d\<lparr>objects := bt_insert key
          \<lparr>row_value = stamped, row_revision = r, row_ns = ns, row_name = name\<rparr> (objects d),
        meta_revision := r,
        last_written := max (last_written d) r\<rparr>"

definition put_sync ::
    "'b codec \<Rightarrow> 'b db \<Rightarrow> string \<Rightarrow> 'b \<Rightarrow> rev option \<Rightarrow> store_error + ('b db \<times> 'b put_result)" where
  "put_sync c d key value expected =
     (let stored = row_at d key in
      case put_precondition key (map_option row_revision stored) expected of
        Some e \<Rightarrow> Inl e
      | None \<Rightarrow>
          (if is_noop_write c stored value then
             Inr (d, \<lparr>pr_revision = (case stored of Some r \<Rightarrow> row_revision r | None \<Rightarrow> 0),
                      pr_body = None, pr_is_create = False, pr_is_noop = True, pr_ns = None\<rparr>)
           else
             (let new_revision = Suc (meta_revision d) in
              case stamp_resource_version c value new_revision of
                Inl e \<Rightarrow> Inl e
              | Inr (stamped, ns, name) \<Rightarrow>
                  Inr (write_row d key stamped new_revision ns name,
                       \<lparr>pr_revision = new_revision, pr_body = Some stamped,
                        pr_is_create = (stored = None), pr_is_noop = False, pr_ns = ns\<rparr>))))"

subsection \<open>delete, namespaced create, namespace delete\<close>

definition delete_row :: "'b db \<Rightarrow> string \<Rightarrow> rev \<Rightarrow> 'b db" where
  "delete_row d key r =
     d\<lparr>objects := bt_remove key (objects d), meta_revision := r,
        last_written := max (last_written d) r\<rparr>"

fun delete_precondition :: "rev \<Rightarrow> rev option \<Rightarrow> store_error option" where
  "delete_precondition s None = None"
| "delete_precondition s (Some e) =
     (if e = 0 then None else if s \<noteq> e then Some (RevisionMismatch e s) else None)"

definition delete_sync ::
    "'b db \<Rightarrow> string \<Rightarrow> rev option \<Rightarrow> store_error + ('b db \<times> (rev \<times> 'b \<times> string option))" where
  "delete_sync d key expected =
     (case row_at d key of
        None \<Rightarrow> Inl (NotFound key)
      | Some r \<Rightarrow>
          (case delete_precondition (row_revision r) expected of
             Some e \<Rightarrow> Inl e
           | None \<Rightarrow>
               (let new_revision = Suc (meta_revision d) in
                Inr (delete_row d key new_revision, (new_revision, row_value r, row_ns r)))))"

text \<open>
  The namespace check of a namespaced create reads the namespace object in the same
  transaction; a namespace whose bytes do not parse is not Terminating.
\<close>

definition namespace_phase_error :: "'b codec \<Rightarrow> 'b db \<Rightarrow> string option \<Rightarrow> create_error option" where
  "namespace_phase_error c d ns_key =
     (case ns_key of
        None \<Rightarrow> None
      | Some nk \<Rightarrow>
          (case row_at d nk of
             None \<Rightarrow> Some NamespaceNotFound
           | Some r \<Rightarrow>
               (case from_slice c (row_value r) of
                  None \<Rightarrow> None
                | Some j \<Rightarrow>
                    if as_str (json_idx (json_idx j ''status'') ''phase'') = Some ''Terminating''
                    then Some NamespaceTerminating else None)))"

definition create_if_namespace_active_sync ::
    "'b codec \<Rightarrow> 'b db \<Rightarrow> string option \<Rightarrow> string \<Rightarrow> 'b \<Rightarrow>
       create_error + ('b db \<times> (rev \<times> 'b \<times> string option))" where
  "create_if_namespace_active_sync c d ns_key key value =
     (case namespace_phase_error c d ns_key of
        Some e \<Rightarrow> Inl e
      | None \<Rightarrow>
          (if row_at d key \<noteq> None then Inl (CreateStore (AlreadyExists key))
           else
             (let new_revision = Suc (meta_revision d) in
              case stamp_resource_version c value new_revision of
                Inl e \<Rightarrow> Inl (CreateStore e)
              | Inr (stamped, ns, name) \<Rightarrow>
                  Inr (write_row d key stamped new_revision ns name,
                       (new_revision, stamped, ns)))))"

text \<open>The trait's default: read the namespace, then a create-only put.\<close>

definition create_if_namespace_active_default ::
    "'b codec \<Rightarrow> 'b db \<Rightarrow> string option \<Rightarrow> string \<Rightarrow> 'b \<Rightarrow> create_error + ('b db \<times> rev)" where
  "create_if_namespace_active_default c d ns_key key value =
     (case namespace_phase_error c d ns_key of
        Some e \<Rightarrow> Inl e
      | None \<Rightarrow>
          (case put_sync c d key value (Some 0) of
             Inl e \<Rightarrow> Inl (CreateStore e)
           | Inr (d', res) \<Rightarrow> Inr (d', pr_revision res)))"

text \<open>
  The namespace delete runs over the rows the query returned (\<open>pairs\<close>), giving each its own
  revision. The query has no order clause: the order is a parameter.
\<close>

fun delete_pairs :: "'b db \<Rightarrow> (string \<times> 'b) list \<Rightarrow> 'b db \<times> (string \<times> 'b \<times> rev) list" where
  "delete_pairs d [] = (d, [])"
| "delete_pairs d ((key, body) # ps) =
     (let r = Suc (meta_revision d);
          (d', rest) = delete_pairs (d\<lparr>objects := bt_remove key (objects d), meta_revision := r\<rparr>) ps
      in (d', (key, body, r) # rest))"

definition rows_in_namespace :: "'b db \<Rightarrow> string \<Rightarrow> (string \<times> 'b) list" where
  "rows_in_namespace d namespace =
     map (\<lambda>(k, r). (k, row_value r)) (filter (\<lambda>(k, r). row_ns r = Some namespace) (objects d))"

definition delete_namespace_sync ::
    "((string \<times> 'b) list \<Rightarrow> (string \<times> 'b) list) \<Rightarrow> 'b db \<Rightarrow> string \<Rightarrow>
       'b db \<times> (string \<times> 'b \<times> rev) list" where
  "delete_namespace_sync scan_order d namespace =
     (let pairs = scan_order (rows_in_namespace d namespace) in
      if pairs = [] then (d, [])
      else
        (let (d', result) = delete_pairs d pairs;
             max_rev = (case result of [] \<Rightarrow> 0 | _ \<Rightarrow> snd (snd (last result)))
         in (d'\<lparr>last_written := max (last_written d') max_rev\<rparr>, result)))"

subsection \<open>Reads\<close>

definition get_sync :: "'b db \<Rightarrow> string \<Rightarrow> 'b store_object option" where
  "get_sync d key =
     map_option (\<lambda>r. \<lparr>so_key = key, so_value = row_value r, so_revision = row_revision r\<rparr>)
       (row_at d key)"

text \<open>
  \<^verbatim>\<open>get\<close> reads a pooled connection, whose snapshot may be older than the write connection's
  tables, and retries on the write connection when the answer could be stale.
\<close>

definition get_guarded :: "'b db \<Rightarrow> 'b db \<Rightarrow> string \<Rightarrow> 'b store_object option" where
  "get_guarded snapshot d key =
     (let obj = get_sync snapshot key;
          min_rev = last_written d
      in if (case obj of Some ob \<Rightarrow> so_revision ob < min_rev | None \<Rightarrow> min_rev > 0)
         then get_sync d key else obj)"

subsection \<open>The write procedures as steps\<close>

definition scan_ok :: "((string \<times> 'b) list \<Rightarrow> (string \<times> 'b) list) \<Rightarrow> bool" where
  "scan_ok f = (\<forall>xs. mset (f xs) = mset xs)"

inductive db_step :: "'b codec \<Rightarrow> 'b db \<Rightarrow> 'b db \<Rightarrow> bool" for c :: "'b codec" where
  step_put: "put_sync c d key value expected = Inr (d', res) \<Longrightarrow> db_step c d d'"
| step_delete: "delete_sync d key expected = Inr (d', out) \<Longrightarrow> db_step c d d'"
| step_create:
    "create_if_namespace_active_sync c d ns_key key value = Inr (d', out) \<Longrightarrow> db_step c d d'"
| step_delete_namespace:
    "scan_ok f \<Longrightarrow> delete_namespace_sync f d namespace = (d', out) \<Longrightarrow> db_step c d d'"

inductive db_steps :: "'b codec \<Rightarrow> 'b db \<Rightarrow> 'b db \<Rightarrow> bool" for c :: "'b codec" where
  steps_refl: "db_steps c d d"
| steps_trans: "db_steps c d d' \<Longrightarrow> db_step c d' d'' \<Longrightarrow> db_steps c d d''"

text \<open>
  The invariant: keys are unique and ordered, every row's revision is positive, unique and at
  most the global counter, and the indexed columns and the stamped resource version agree with
  the document.
\<close>

definition row_ok :: "'b codec \<Rightarrow> 'b row \<Rightarrow> bool" where
  "row_ok c r =
     (case from_slice c (row_value r) of
        None \<Rightarrow> False
      | Some j \<Rightarrow>
          doc_meta_str j ''resourceVersion'' = Some (nat_str (row_revision r)) \<and>
          row_ns r = doc_meta_str j ''namespace'' \<and>
          row_name r = doc_meta_str j ''name'')"

definition rows_bounded :: "'b codec \<Rightarrow> rev \<Rightarrow> (string \<times> 'b row) list \<Rightarrow> bool" where
  "rows_bounded c m rows =
     (\<forall>e \<in> set rows. 0 < row_revision (snd e) \<and> row_revision (snd e) \<le> m \<and> row_ok c (snd e))"

definition db_inv :: "'b codec \<Rightarrow> 'b db \<Rightarrow> bool" where
  "db_inv c d =
     (bt_wf (objects d) \<and> rows_bounded c (meta_revision d) (objects d) \<and>
      inj_on (\<lambda>e. row_revision (snd e)) (set (objects d)) \<and>
      last_written d \<le> meta_revision d)"

subsection \<open>Stamping\<close>

lemma stamp_doc_meta:
  assumes "stamp_doc j r = Some j'"
  shows "doc_meta_str j' f =
    (if f = ''resourceVersion'' then Some (nat_str r) else doc_meta_str j f)"
proof -
  from json_index_mut_get [OF assms [unfolded stamp_doc_def]] obtain m where
    m: "json_index_mut (json_idx j ''metadata'') ''resourceVersion'' (\<lambda>_. Some (JStr (nat_str r))) = Some m"
    and j': "json_get j' ''metadata'' = Some m"
    by auto
  from json_index_mut_get [OF m] j' show ?thesis
    by (auto simp: doc_meta_str_def json_idx_def)
qed

lemma stamp_doc_wf: "stamp_doc j r = Some j' \<Longrightarrow> json_wf j \<Longrightarrow> json_wf j'"
  unfolding stamp_doc_def
  by (erule json_index_mut_wf) (auto elim!: json_index_mut_wf)

lemma stamp_doc_object:
  assumes "json_wf j" and "json_get j ''metadata'' = Some (JObj mm)"
  shows "\<exists>j'. stamp_doc j r = Some j' \<and> strip_resource_version j' = strip_resource_version j"
proof -
  obtain m where j: "j = JObj m" using assms(2) by (cases j) auto
  have wf: "bt_wf m" "bt_wf mm"
    using assms j by (auto dest!: map_of_SomeD)
  have mm: "bt_remove ''resourceVersion'' (bt_insert ''resourceVersion'' x mm) =
      bt_remove ''resourceVersion'' mm" for x
    using wf by (intro bt_wf_map_of_inject) auto
  have m: "bt_insert ''metadata'' y (bt_insert ''metadata'' x m) = bt_insert ''metadata'' y m" for x y
    using wf by (intro bt_wf_map_of_inject) auto
  show ?thesis
    using assms(2) j
    by (simp add: stamp_doc_def json_index_mut_def strip_resource_version_def mm m)
qed

lemma stamp_resource_version_row_ok:
  assumes "codec_ok c" and "stamp_resource_version c value r = Inr (stamped, ns, name)"
  shows "row_ok c \<lparr>row_value = stamped, row_revision = r, row_ns = ns, row_name = name\<rparr>"
proof -
  from assms(2) obtain j j' where j: "from_slice c value = Some j" "stamp_doc j r = Some j'"
    and out: "stamped = to_vec c j'" "ns = doc_meta_str j ''namespace''" "name = doc_meta_str j ''name''"
    by (auto simp: stamp_resource_version_def split: option.splits)
  have "json_wf j'" using assms(1) j by (auto simp: codec_ok_def intro: stamp_doc_wf)
  then have "from_slice c stamped = Some j'" using assms(1) out by (simp add: codec_ok_def)
  then show ?thesis
    using stamp_doc_meta [OF j(2)] out by (simp add: row_ok_def)
qed

subsection \<open>Inversion of the procedures\<close>

lemma put_sync_cases:
  assumes "put_sync c d key value expected = Inr (d', res)"
  obtains (noop) r where "row_at d key = Some r" "d' = d" "pr_is_noop res"
      "pr_revision res = row_revision r"
      "semantically_equal_ignoring_resource_version c value (row_value r)"
      "put_precondition key (Some (row_revision r)) expected = None"
  | (wrote) stamped ns name where
      "stamp_resource_version c value (Suc (meta_revision d)) = Inr (stamped, ns, name)"
      "d' = write_row d key stamped (Suc (meta_revision d)) ns name"
      "res = \<lparr>pr_revision = Suc (meta_revision d), pr_body = Some stamped,
              pr_is_create = (row_at d key = None), pr_is_noop = False, pr_ns = ns\<rparr>"
      "put_precondition key (map_option row_revision (row_at d key)) expected = None"
proof -
  have pre: "put_precondition key (map_option row_revision (row_at d key)) expected = None"
    using assms by (simp add: put_sync_def Let_def split: option.splits)
  show thesis
  proof (cases "is_noop_write c (row_at d key) value")
    case True
    then obtain r where r: "row_at d key = Some r"
      and eq: "semantically_equal_ignoring_resource_version c value (row_value r)"
      by (auto simp: is_noop_write_def split: option.splits)
    have "d' = d" "pr_is_noop res" "pr_revision res = row_revision r"
      using assms pre True r by (auto simp: put_sync_def Let_def)
    with r eq pre show thesis by (intro noop) auto
  next
    case False
    with assms pre obtain stamped ns name where
      st: "stamp_resource_version c value (Suc (meta_revision d)) = Inr (stamped, ns, name)"
      by (auto simp: put_sync_def Let_def split: sum.splits)
    with assms pre False show thesis
      by (intro wrote [OF st]) (auto simp: put_sync_def Let_def)
  qed
qed

lemma create_sync_cases:
  assumes "create_if_namespace_active_sync c d ns_key key value = Inr (d', out)"
  obtains stamped ns name where
      "stamp_resource_version c value (Suc (meta_revision d)) = Inr (stamped, ns, name)"
      "d' = write_row d key stamped (Suc (meta_revision d)) ns name"
      "row_at d key = None" "namespace_phase_error c d ns_key = None"
      "out = (Suc (meta_revision d), stamped, ns)"
  using assms
  by (auto simp: create_if_namespace_active_sync_def Let_def split: option.splits sum.splits if_splits)

lemma delete_sync_cases:
  assumes "delete_sync d key expected = Inr (d', out)"
  obtains r where "row_at d key = Some r" "d' = delete_row d key (Suc (meta_revision d))"
      "out = (Suc (meta_revision d), row_value r, row_ns r)"
      "delete_precondition (row_revision r) expected = None"
  using assms
  by (auto simp: delete_sync_def Let_def split: option.splits)

subsection \<open>Preservation of the invariant\<close>

lemma rows_bounded_mono: "rows_bounded c m rows \<Longrightarrow> m \<le> m' \<Longrightarrow> set rows' \<subseteq> set rows \<Longrightarrow> rows_bounded c m' rows'"
  by (force simp: rows_bounded_def)

lemma db_inv_row: "db_inv c d \<Longrightarrow> row_at d k = Some r \<Longrightarrow>
    0 < row_revision r \<and> row_revision r \<le> meta_revision d \<and> row_ok c r"
  by (auto simp: db_inv_def rows_bounded_def row_at_def dest!: map_of_SomeD)

lemma write_row_inv:
  assumes "db_inv c d"
    and "row_ok c \<lparr>row_value = v, row_revision = Suc (meta_revision d), row_ns = ns, row_name = nm\<rparr>"
  shows "db_inv c (write_row d key v (Suc (meta_revision d)) ns nm)"
proof -
  let ?r = "\<lparr>row_value = v, row_revision = Suc (meta_revision d), row_ns = ns, row_name = nm\<rparr>"
  let ?rows = "bt_insert key ?r (objects d)"
  have wf: "bt_wf (objects d)" and bd: "rows_bounded c (meta_revision d) (objects d)"
    and inj: "inj_on (\<lambda>e. row_revision (snd e)) (set (objects d))"
    using assms(1) by (auto simp: db_inv_def)
  have sub: "set ?rows \<subseteq> insert (key, ?r) (set (objects d))" by (rule set_bt_insert_subset)
  have "rows_bounded c (Suc (meta_revision d)) ?rows"
    using sub bd assms(2) by (fastforce simp: rows_bounded_def)
  moreover have "inj_on (\<lambda>e. row_revision (snd e)) (insert (key, ?r) (set (objects d)))"
    using inj bd by (force simp: inj_on_def rows_bounded_def)
  then have "inj_on (\<lambda>e. row_revision (snd e)) (set ?rows)"
    using sub inj_on_subset by blast
  ultimately show ?thesis
    using wf assms(1) by (auto simp: db_inv_def write_row_def)
qed

lemma filter_rows_inv:
  assumes "db_inv c d" and "objects d' = filter P (objects d)"
    and "meta_revision d \<le> meta_revision d'" and "last_written d' \<le> meta_revision d'"
  shows "db_inv c d'"
  using assms rows_bounded_mono [of c "meta_revision d" "objects d" "meta_revision d'" "objects d'"]
  by (auto simp: db_inv_def intro: inj_on_subset)

lemma delete_row_inv: "db_inv c d \<Longrightarrow> db_inv c (delete_row d key (Suc (meta_revision d)))"
  by (rule filter_rows_inv) (auto simp: delete_row_def bt_remove_def db_inv_def)

lemma delete_pairs_spec:
  "delete_pairs d ps = (d', out) \<Longrightarrow>
     objects d' = filter (\<lambda>e. fst e \<notin> fst ` set ps) (objects d) \<and>
     meta_revision d' = meta_revision d + length ps \<and> last_written d' = last_written d \<and>
     map (\<lambda>(k, b, r). (k, b)) out = ps \<and>
     map (\<lambda>(k, b, r). r) out = [Suc (meta_revision d)..<Suc (meta_revision d + length ps)]"
proof (induction d ps arbitrary: out rule: delete_pairs.induct)
  case (1 d)
  then show ?case by simp
next
  case (2 d key body ps)
  let ?d1 = "d\<lparr>objects := bt_remove key (objects d), meta_revision := Suc (meta_revision d)\<rparr>"
  obtain out1 where step: "delete_pairs ?d1 ps = (d', out1)"
    and out: "out = (key, body, Suc (meta_revision d)) # out1"
    using "2.prems" by (auto simp: Let_def split: prod.splits)
  have "filter (\<lambda>e. fst e \<notin> fst ` set ps) (bt_remove key (objects d)) =
        filter (\<lambda>e. fst e \<notin> fst ` set ((key, body) # ps)) (objects d)"
    by (auto simp: bt_remove_def intro: filter_cong)
  moreover have "[Suc (meta_revision d)..<Suc (meta_revision d + Suc (length ps))] =
      Suc (meta_revision d) # [Suc (Suc (meta_revision d))..<Suc (Suc (meta_revision d) + length ps)]"
    by (simp add: upt_conv_Cons del: upt_Suc)
  ultimately show ?case
    using "2.IH" [OF refl, of out1] step out by (simp del: upt_Suc)
qed

lemma delete_namespace_spec:
  assumes "scan_ok f" and "delete_namespace_sync f d namespace = (d', out)"
    and "bt_wf (objects d)" and "last_written d \<le> meta_revision d"
  shows "objects d' = filter (\<lambda>(k, r). row_ns r \<noteq> Some namespace) (objects d)"
    and "mset (map (\<lambda>(k, b, r). (k, b)) out) = mset (rows_in_namespace d namespace)"
    and "map (\<lambda>(k, b, r). r) out = [Suc (meta_revision d)..<Suc (meta_revision d + length out)]"
    and "meta_revision d' = meta_revision d + length out"
    and "last_written d' = (if out = [] then last_written d else meta_revision d')"
proof -
  let ?ps = "f (rows_in_namespace d namespace)"
  obtain d1 out1 where dp: "delete_pairs d ?ps = (d1, out1)" by fastforce
  note spec = delete_pairs_spec [OF dp]
  have ms: "mset ?ps = mset (rows_in_namespace d namespace)" using assms(1) by (simp add: scan_ok_def)
  have keys: "fst ` set ?ps = {k. \<exists>r. (k, r) \<in> set (objects d) \<and> row_ns r = Some namespace}"
    using mset_eq_setD [OF ms] by (force simp: rows_in_namespace_def)
  have flt: "filter (\<lambda>e. fst e \<notin> fst ` set ?ps) (objects d) =
      filter (\<lambda>(k, r). row_ns r \<noteq> Some namespace) (objects d)"
    by (intro filter_cong) (auto simp: keys dest: bt_wf_unique [OF assms(3)])
  have eqs: "out = out1" "objects d' = objects d1" "meta_revision d' = meta_revision d1"
    using assms(2) dp spec by (auto simp: delete_namespace_sync_def Let_def split: if_splits)
  have len: "length out = length ?ps" using spec eqs(1) by (metis length_map)
  show "objects d' = filter (\<lambda>(k, r). row_ns r \<noteq> Some namespace) (objects d)"
    using spec flt eqs by simp
  show "mset (map (\<lambda>(k, b, r). (k, b)) out) = mset (rows_in_namespace d namespace)"
    using spec ms eqs by simp
  show revs: "map (\<lambda>(k, b, r). r) out = [Suc (meta_revision d)..<Suc (meta_revision d + length out)]"
    using spec len eqs by simp
  show m: "meta_revision d' = meta_revision d + length out" using spec len eqs by simp
  show "last_written d' = (if out = [] then last_written d else meta_revision d')"
  proof (cases "out = []")
    case True
    then show ?thesis using assms(2) len by (auto simp: delete_namespace_sync_def Let_def)
  next
    case False
    have "snd (snd (last out)) = last (map (\<lambda>(k, b, r). r) out)"
      using False by (simp add: last_map split_beta)
    also have "\<dots> = meta_revision d'" using False m revs by (cases out) auto
    finally have lastr: "snd (snd (last out)) = meta_revision d'" .
    have "last_written d' = max (last_written d1) (snd (snd (last out)))"
      using assms(2) dp False len eqs(1)
      by (cases out1) (auto simp: delete_namespace_sync_def Let_def split: if_splits)
    then show ?thesis using False lastr spec m assms(4) by simp
  qed
qed

lemma db_step_inv:
  assumes "codec_ok c" and "db_step c d d'" and "db_inv c d"
  shows "db_inv c d'"
  using assms(2,3)
proof (cases rule: db_step.cases)
  case (step_put key val expected res)
  from step_put show ?thesis
  proof (cases rule: put_sync_cases)
    case noop
    with assms(3) show ?thesis by simp
  next
    case (wrote stamped ns name)
    with assms show ?thesis by (simp add: write_row_inv stamp_resource_version_row_ok)
  qed
next
  case (step_delete key expected out)
  then show ?thesis using assms(3) by (auto elim!: delete_sync_cases simp: delete_row_inv)
next
  case (step_create ns_key key val out)
  then show ?thesis
    using assms(1,3) by (auto elim!: create_sync_cases simp: write_row_inv stamp_resource_version_row_ok)
next
  case (step_delete_namespace f namespace out)
  note spec = delete_namespace_spec [OF step_delete_namespace]
  show ?thesis
    by (rule filter_rows_inv [OF assms(3) spec(1)]) (use assms(3) spec(4,5) in \<open>auto simp: db_inv_def\<close>)
qed

lemma db_step_progress:
  assumes "db_inv c d" and "db_step c d d'"
  shows "d' = d \<or> (meta_revision d < meta_revision d' \<and> last_written d' = meta_revision d')"
proof -
  have lw: "last_written d \<le> meta_revision d" and wf: "bt_wf (objects d)"
    using assms(1) by (auto simp: db_inv_def)
  from assms(2) show ?thesis
  proof (cases rule: db_step.cases)
    case (step_put key val expected res)
    from step_put show ?thesis
      by (cases rule: put_sync_cases) (use lw in \<open>auto simp: write_row_def\<close>)
  next
    case (step_delete key expected out)
    then show ?thesis using lw by (auto elim!: delete_sync_cases simp: delete_row_def)
  next
    case (step_create ns_key key val out)
    then show ?thesis using lw by (auto elim!: create_sync_cases simp: write_row_def)
  next
    case (step_delete_namespace f namespace out)
    note spec = delete_namespace_spec [OF step_delete_namespace wf lw]
    show ?thesis
    proof (cases "out = []")
      case True
      then have "d' = d" using step_delete_namespace(2) spec(4)
        by (auto simp: delete_namespace_sync_def Let_def split: if_splits prod.splits list.splits
            dest!: delete_pairs_spec)
      then show ?thesis by simp
    next
      case False
      then show ?thesis using spec(4,5) by (cases out) auto
    qed
  qed
qed

lemma db_steps_inv: "db_steps c d d' \<Longrightarrow> codec_ok c \<Longrightarrow> db_inv c d \<Longrightarrow> db_inv c d'"
  by (induction rule: db_steps.induct) (auto intro: db_step_inv)

lemma db_steps_progress:
  "db_steps c d d' \<Longrightarrow> codec_ok c \<Longrightarrow> db_inv c d \<Longrightarrow>
     d' = d \<or> (meta_revision d < meta_revision d' \<and> last_written d' = meta_revision d')"
proof (induction rule: db_steps.induct)
  case (steps_refl d)
  then show ?case by simp
next
  case (steps_trans d d' d'')
  then have "db_inv c d'" using db_steps_inv by blast
  from db_step_progress [OF this steps_trans.hyps(2)] steps_trans show ?case by auto
qed

lemma row_at_write_row [simp]:
  "row_at (write_row d key v r ns nm) k =
     (if k = key then Some \<lparr>row_value = v, row_revision = r, row_ns = ns, row_name = nm\<rparr> else row_at d k)"
  by (simp add: row_at_def write_row_def)

lemma row_at_delete_row [simp]:
  "row_at (delete_row d key r) k = (if k = key then None else row_at d k)"
  by (simp add: row_at_def delete_row_def)

lemma put_precondition_update_None:
  "put_precondition key s (Some e) = None \<Longrightarrow> e \<noteq> 0 \<Longrightarrow> s = Some e"
  by (cases s) (auto split: if_splits)

lemma empty_db_inv: "db_inv c empty_db"
  by (simp add: db_inv_def empty_db_def rows_bounded_def)

subsection \<open>Concrete documents for the witnesses\<close>

definition plain_codec :: "json codec" where
  "plain_codec = \<lparr>from_slice = (\<lambda>j. if json_wf j then Some j else None), to_vec = id\<rparr>"

lemma plain_codec_ok: "codec_ok plain_codec"
  by (simp add: codec_ok_def plain_codec_def)

definition sample_doc :: "string \<Rightarrow> string \<Rightarrow> json" where
  "sample_doc ns nm =
     JObj [(''data'', JInt 1),
           (''metadata'', JObj [(''name'', JStr nm), (''namespace'', JStr ns)])]"

fun put_all :: "json db \<Rightarrow> (string \<times> json) list \<Rightarrow> json db" where
  "put_all d [] = d"
| "put_all d ((k, j) # kvs) =
     (case put_sync plain_codec d k j None of
        Inl e \<Rightarrow> put_all d kvs
      | Inr (d', res) \<Rightarrow> put_all d' kvs)"

lemma put_all_steps: "db_steps plain_codec d0 d \<Longrightarrow> db_steps plain_codec d0 (put_all d kvs)"
proof (induction d kvs rule: put_all.induct)
  case (2 d k j kvs)
  show ?case
  proof (cases "put_sync plain_codec d k j None")
    case (Inl e)
    with 2 show ?thesis by simp
  next
    case (Inr out)
    moreover obtain d' res where "out = (d', res)" by (cases out)
    ultimately show ?thesis using 2 steps_trans step_put by fastforce
  qed
qed simp

definition sample_db :: "json db" where
  "sample_db = put_all empty_db
     [(''/registry/pods/a/x'', sample_doc ''a'' ''x''), (''/registry/pods/b/y'', sample_doc ''b'' ''y'')]"

lemma sample_db_steps: "db_steps plain_codec empty_db sample_db"
  unfolding sample_db_def by (rule put_all_steps [OF steps_refl])

lemma sample_db_inv: "db_inv plain_codec sample_db"
  by (rule db_steps_inv [OF sample_db_steps plain_codec_ok empty_db_inv])

lemmas db_eval = put_sync_def Let_def row_at_def empty_db_def plain_codec_def is_noop_write_def
  stamp_resource_version_def stamp_doc_def json_index_mut_def json_idx_def sample_doc_def
  write_row_def doc_meta_str_def bt_wf_def semantically_equal_ignoring_resource_version_def
  strip_resource_version_def nat_str.simps digit_char_def bt_remove_def delete_sync_def delete_row_def

subsection \<open>Properties\<close>

text \<open>C1: in every state reached from the empty database by any sequence of the write
  procedures, keys are unique and ordered, every row has a positive revision of its own that is
  at most the global counter, the stamped \<^verbatim>\<open>metadata.resourceVersion\<close> is that revision,
  and the namespace and name columns agree with the stored document.\<close>

theorem db_reachable_inv:
  assumes "codec_ok c" and "db_steps c empty_db d"
  shows "db_inv c d"
  using assms by (blast intro: db_steps_inv empty_db_inv)

theorem db_reachable_inv_witness:
  "db_steps plain_codec empty_db sample_db \<and> row_at sample_db ''/registry/pods/a/x'' \<noteq> None \<and>
   db_inv plain_codec sample_db"
proof -
  have "row_at sample_db ''/registry/pods/a/x'' \<noteq> None" by code_simp
  with sample_db_steps db_reachable_inv [OF plain_codec_ok sample_db_steps] show ?thesis by blast
qed

text \<open>C2: compare-and-swap. A conditional update that succeeds found exactly the expected
  revision. Unless it was a suppressed no-op, it moves the key to a fresh global revision, leaves
  every other key alone, and every later write still conditioned on the old revision is refused
  with a revision mismatch that names the new one: no update is lost.\<close>

theorem put_cas_no_lost_update:
  assumes "db_inv c d" and "put_sync c d key v (Some e) = Inr (d', res)" and "e \<noteq> 0"
  shows "\<exists>r. row_at d key = Some r \<and> row_revision r = e \<and>
     (if pr_is_noop res then d' = d \<and> pr_revision res = e
      else pr_revision res = Suc (meta_revision d) \<and>
           map_option row_revision (row_at d' key) = Some (pr_revision res) \<and>
           (\<forall>k. k \<noteq> key \<longrightarrow> row_at d' k = row_at d k) \<and>
           (\<forall>v2. put_sync c d' key v2 (Some e) = Inl (RevisionMismatch e (pr_revision res))))"
  using assms(2)
proof (cases rule: put_sync_cases)
  case (noop r)
  then have "row_revision r = e" using assms(3) by (auto split: if_splits)
  with noop show ?thesis by simp
next
  case (wrote stamped ns name)
  obtain r where r: "row_at d key = Some r" "row_revision r = e"
    using put_precondition_update_None [OF wrote(4) assms(3)] by auto
  have "e \<le> meta_revision d" using r db_inv_row [OF assms(1)] by blast
  then show ?thesis using r wrote assms(3) by (auto simp: put_sync_def)
qed

theorem put_cas_no_lost_update_witness:
  "\<exists>d d' res. put_sync plain_codec d ''/registry/pods/a/x'' (sample_doc ''a'' ''y'') (Some 1) = Inr (d', res) \<and>
     \<not> pr_is_noop res \<and>
     put_sync plain_codec d' ''/registry/pods/a/x'' (sample_doc ''a'' ''z'') (Some 1) = Inl (RevisionMismatch 1 2)"
proof -
  obtain d0 res0 where put0: "put_sync plain_codec empty_db ''/registry/pods/a/x'' (sample_doc ''a'' ''x'') None = Inr (d0, res0)"
    and m0: "meta_revision d0 = 1"
    by (simp add: db_eval)
  have inv: "db_inv plain_codec d0"
    by (rule db_step_inv [OF plain_codec_ok step_put [OF put0] empty_db_inv])
  obtain d' res where put: "put_sync plain_codec d0 ''/registry/pods/a/x'' (sample_doc ''a'' ''y'') (Some 1) = Inr (d', res)"
    and nn: "\<not> pr_is_noop res"
    using put0 by (auto simp: db_eval)
  from put_cas_no_lost_update [OF inv put] nn m0 put show ?thesis by fastforce
qed

text \<open>repeating a write is free. After a successful put of a document whose
  \<^verbatim>\<open>metadata\<close> is an object, putting the same document again changes nothing, is reported as
  a suppressed no-op and returns the revision the first write returned.\<close>

theorem put_repeat_is_noop:
  assumes "codec_ok c" and "put_sync c d key v expected = Inr (d', res)"
    and "from_slice c v = Some j" and "json_get j ''metadata'' = Some (JObj mm)"
  shows "\<exists>res2. put_sync c d' key v None = Inr (d', res2) \<and> pr_is_noop res2 \<and>
     pr_revision res2 = pr_revision res"
  using assms(2)
proof (cases rule: put_sync_cases)
  case (noop r)
  then show ?thesis by (simp add: put_sync_def is_noop_write_def)
next
  case (wrote stamped ns name)
  have wf: "json_wf j" using assms(1,3) by (auto simp: codec_ok_def)
  obtain j' where j': "stamp_doc j (Suc (meta_revision d)) = Some j'"
      "strip_resource_version j' = strip_resource_version j"
    using stamp_doc_object [OF wf assms(4)] by blast
  have "from_slice c stamped = Some j'"
    using wrote(1) j' assms(1,3) stamp_doc_wf [OF j'(1) wf]
    by (auto simp: stamp_resource_version_def codec_ok_def)
  with wrote j' assms(3) show ?thesis
    by (auto simp: put_sync_def is_noop_write_def semantically_equal_ignoring_resource_version_def)
qed

theorem put_repeat_is_noop_witness:
  "\<exists>d' res2. put_sync plain_codec d' ''/registry/pods/a/x'' (sample_doc ''a'' ''x'') None = Inr (d', res2) \<and>
     pr_is_noop res2 \<and> pr_revision res2 = 1"
proof -
  obtain d' res where put: "put_sync plain_codec empty_db ''/registry/pods/a/x'' (sample_doc ''a'' ''x'') None = Inr (d', res)"
    and r: "pr_revision res = 1"
    by (simp add: db_eval)
  have "from_slice plain_codec (sample_doc ''a'' ''x'') = Some (sample_doc ''a'' ''x'')"
    and "json_get (sample_doc ''a'' ''x'') ''metadata'' = Some (JObj [(''name'', JStr ''x''), (''namespace'', JStr ''a'')])"
    by (simp_all add: plain_codec_def sample_doc_def bt_wf_def)
  from put_repeat_is_noop [OF plain_codec_ok put this] r show ?thesis by auto
qed

text \<open>C33: what a read returns after a write. After a successful put that wrote, a get of the
  key returns the revision the put reported, and the document read back carries that revision in
  \<^verbatim>\<open>metadata.resourceVersion\<close> and every other metadata string of the document written.\<close>

theorem get_after_put:
  assumes "codec_ok c" and "put_sync c d key v expected = Inr (d', res)" and "\<not> pr_is_noop res"
    and "from_slice c v = Some j"
  shows "\<exists>ob j'. get_sync d' key = Some ob \<and> so_revision ob = pr_revision res \<and>
     from_slice c (so_value ob) = Some j' \<and>
     doc_meta_str j' ''resourceVersion'' = Some (nat_str (pr_revision res)) \<and>
     (\<forall>f. f \<noteq> ''resourceVersion'' \<longrightarrow> doc_meta_str j' f = doc_meta_str j f) \<and>
     (\<forall>k. k \<noteq> ''metadata'' \<longrightarrow> json_get j' k = json_get j k)"
  using assms(2)
proof (cases rule: put_sync_cases)
  case noop
  then show ?thesis using assms(3) by simp
next
  case (wrote stamped ns name)
  have wf: "json_wf j" using assms(1,4) by (auto simp: codec_ok_def)
  obtain j' where j': "stamp_doc j (Suc (meta_revision d)) = Some j'" "stamped = to_vec c j'"
    using wrote(1) assms(4) by (auto simp: stamp_resource_version_def split: option.splits)
  have "from_slice c stamped = Some j'"
    using j' assms(1) stamp_doc_wf [OF j'(1) wf] by (simp add: codec_ok_def)
  moreover have "\<forall>k. k \<noteq> ''metadata'' \<longrightarrow> json_get j' k = json_get j k"
    using json_index_mut_get [OF j'(1) [unfolded stamp_doc_def]] by blast
  ultimately show ?thesis
    using wrote stamp_doc_meta [OF j'(1)] by (simp add: get_sync_def)
qed

theorem get_after_put_witness:
  "\<exists>d' res ob. put_sync plain_codec empty_db ''/k'' (sample_doc ''a'' ''x'') (Some 0) = Inr (d', res) \<and>
     get_sync d' ''/k'' = Some ob \<and> so_revision ob = 1"
proof -
  obtain d' res where put: "put_sync plain_codec empty_db ''/k'' (sample_doc ''a'' ''x'') (Some 0) = Inr (d', res)"
    and r: "pr_revision res = 1" "\<not> pr_is_noop res"
    by (simp add: db_eval)
  have "from_slice plain_codec (sample_doc ''a'' ''x'') = Some (sample_doc ''a'' ''x'')"
    by (simp add: plain_codec_def sample_doc_def bt_wf_def)
  from get_after_put [OF plain_codec_ok put r(2) this] r put show ?thesis by auto
qed

text \<open>C34: the atomic namespaced create agrees with the trait's documented default (check the
  namespace, then a create-only put): same error on every branch, same tables and same revision
  on success. With no namespace key it is exactly a create-only put.\<close>

theorem create_refines_default:
  "map_sum id (\<lambda>(d', out). (d', fst out)) (create_if_namespace_active_sync c d ns_key key v) =
   create_if_namespace_active_default c d ns_key key v"
  by (cases "row_at d key")
    (auto simp: create_if_namespace_active_sync_def create_if_namespace_active_default_def
      put_sync_def is_noop_write_def Let_def split: option.splits sum.splits)

text \<open>Namespace teardown. Whatever order the query returns the rows in, a namespace delete
  removes exactly the rows of the namespace, reports each removed key with its body once, and
  gives the removals pairwise distinct, consecutive revisions above every earlier one.\<close>

theorem delete_namespace_exact:
  assumes "db_inv c d" and "scan_ok f" and "delete_namespace_sync f d namespace = (d', out)"
  shows "(\<forall>k. row_at d' k = (case row_at d k of
              Some r \<Rightarrow> if row_ns r = Some namespace then None else Some r | None \<Rightarrow> None)) \<and>
     mset (map (\<lambda>(k, b, r). (k, b)) out) = mset (rows_in_namespace d namespace) \<and>
     map (\<lambda>(k, b, r). r) out = [Suc (meta_revision d)..<Suc (meta_revision d + length out)]"
proof -
  have wf: "bt_wf (objects d)" "last_written d \<le> meta_revision d" using assms(1) by (auto simp: db_inv_def)
  note spec = delete_namespace_spec [OF assms(2,3) wf]
  have "row_at d' k = (case row_at d k of
      Some r \<Rightarrow> if row_ns r = Some namespace then None else Some r | None \<Rightarrow> None)" for k
    unfolding row_at_def spec(1) map_of_filter_bt [OF wf(1)] by (auto split: option.split)
  with spec(2,3) show ?thesis by blast
qed

theorem delete_namespace_exact_witness:
  "\<exists>d' out. delete_namespace_sync rev sample_db ''a'' = (d', out) \<and>
     row_at sample_db ''/registry/pods/a/x'' \<noteq> None \<and> row_at d' ''/registry/pods/a/x'' = None \<and>
     row_at d' ''/registry/pods/b/y'' \<noteq> None"
proof -
  have scan: "scan_ok (rev :: (string \<times> json) list \<Rightarrow> _)" by (simp add: scan_ok_def)
  obtain d' out where del: "delete_namespace_sync rev sample_db ''a'' = (d', out)" by fastforce
  have "map_option row_ns (row_at sample_db ''/registry/pods/a/x'') = Some (Some ''a'')"
    and "map_option row_ns (row_at sample_db ''/registry/pods/b/y'') = Some (Some ''b'')"
    by code_simp+
  then obtain ra rb where ra: "row_at sample_db ''/registry/pods/a/x'' = Some ra" "row_ns ra = Some ''a''"
    and rb: "row_at sample_db ''/registry/pods/b/y'' = Some rb" "row_ns rb = Some ''b''"
    by auto
  have "\<forall>k. row_at d' k = (case row_at sample_db k of
      Some r \<Rightarrow> if row_ns r = Some ''a'' then None else Some r | None \<Rightarrow> None)"
    using delete_namespace_exact [OF sample_db_inv scan del] by blast
  then have "row_at d' ''/registry/pods/a/x'' = None" "row_at d' ''/registry/pods/b/y'' = Some rb"
    using ra rb by simp_all
  with ra rb del show ?thesis by auto
qed

text \<open>reads are linearizable. However old the pooled connection's snapshot is, a guarded
  get returns exactly what the current tables hold for the key: the staleness check never lets an
  older version or a stale absence through.\<close>

theorem get_guarded_current:
  assumes "codec_ok c" and "db_inv c snapshot" and "db_steps c snapshot d"
  shows "get_guarded snapshot d key = get_sync d key"
proof -
  from db_steps_progress [OF assms(3,1,2)] show ?thesis
  proof
    assume "d = snapshot"
    then show ?thesis by (simp add: get_guarded_def Let_def)
  next
    assume newer: "meta_revision snapshot < meta_revision d \<and> last_written d = meta_revision d"
    have "so_revision ob < last_written d" if "get_sync snapshot key = Some ob" for ob
      using that db_inv_row [OF assms(2)] newer by (fastforce simp: get_sync_def)
    with newer show ?thesis
      by (auto simp: get_guarded_def Let_def split: option.splits)
  qed
qed

theorem get_guarded_current_witness:
  "get_guarded empty_db sample_db ''/registry/pods/a/x'' = get_sync sample_db ''/registry/pods/a/x'' \<and>
   get_sync (empty_db :: json db) ''/registry/pods/a/x'' = None \<and>
   get_sync sample_db ''/registry/pods/a/x'' \<noteq> None"
proof -
  have "get_sync sample_db ''/registry/pods/a/x'' \<noteq> None" by code_simp
  moreover have "get_sync (empty_db :: json db) ''/registry/pods/a/x'' = None"
    by (simp add: get_sync_def row_at_def empty_db_def)
  moreover have "get_guarded empty_db sample_db ''/registry/pods/a/x'' = get_sync sample_db ''/registry/pods/a/x''"
    by (rule get_guarded_current [OF plain_codec_ok empty_db_inv sample_db_steps])
  ultimately show ?thesis by simp
qed

end
