(* ===== verification/Store_List.thy ===== *)
theory Store_List
  imports Store_Db
begin

text \<open>
  LIST of \<^verbatim>\<open>crates/store/src/sqlite.rs\<close>: the key range of a prefix
  (\<^verbatim>\<open>prefix_upper_bound\<close>), the indexed branches of \<^verbatim>\<open>list_sync\<close> (by name, by namespace,
  by node name, no selector), the generic branch that scans in chunks, pagination by continue key,
  and the remaining-item count. A query of the \<^verbatim>\<open>objects\<close> table ordered by key is a filter of
  the ordered table.
\<close>

subsection \<open>Options and responses\<close>

record field_selector =
  fs_field :: string
  fs_value :: string
  fs_negated :: bool

record list_options =
  lo_selector :: "field_selector option"
  lo_limit :: "nat option"
  lo_continue :: "string option"

record 'b list_response =
  lr_items :: "'b store_object list"
  lr_revision :: rev
  lr_continue :: "string option"
  lr_remaining :: "nat option"

subsection \<open>The exclusive upper bound of a prefix\<close>

text \<open>
  The bound increments the last byte below 255; \<^verbatim>\<open>String::from_utf8(..).unwrap()\<close> panics
  (\<^const>\<open>None\<close>) when the result is not UTF-8.
\<close>

definition in_bytes :: "nat \<Rightarrow> nat \<Rightarrow> char \<Rightarrow> bool" where
  "in_bytes lo hi c = (lo \<le> of_char c \<and> of_char c \<le> hi)"

fun utf8_valid :: "string \<Rightarrow> bool" where
  "utf8_valid [] = True"
| "utf8_valid (a # s) =
     (if in_bytes 0 127 a then utf8_valid s
      else (case s of
        b # s2 \<Rightarrow>
          (if in_bytes 194 223 a then in_bytes 128 191 b \<and> utf8_valid s2
           else (case s2 of
             c # s3 \<Rightarrow>
               (if in_bytes 224 239 a then
                  in_bytes (if of_char a = (224 :: nat) then 160 else 128)
                    (if of_char a = (237 :: nat) then 159 else 191) b \<and>
                  in_bytes 128 191 c \<and> utf8_valid s3
                else (case s3 of
                  e # s4 \<Rightarrow>
                    in_bytes 240 244 a \<and>
                    in_bytes (if of_char a = (240 :: nat) then 144 else 128)
                      (if of_char a = (244 :: nat) then 143 else 191) b \<and>
                    in_bytes 128 191 c \<and> in_bytes 128 191 e \<and> utf8_valid s4
                | [] \<Rightarrow> False))
           | [] \<Rightarrow> False))
      | [] \<Rightarrow> False))"

definition succ_char :: "char \<Rightarrow> char" where
  "succ_char c = char_of (Suc (of_char c))"

fun bump_bytes :: "string \<Rightarrow> string option" where
  "bump_bytes [] = None"
| "bump_bytes (b # bs) =
     (if of_char b < (255 :: nat) then Some (succ_char b # bs)
      else map_option (\<lambda>bs'. char_of (0 :: nat) # bs') (bump_bytes bs))"

definition prefix_upper_bound :: "string \<Rightarrow> string option" where
  "prefix_upper_bound p =
     (case bump_bytes (rev p) of
        None \<Rightarrow> Some []
      | Some r \<Rightarrow> if utf8_valid (rev r) then Some (rev r) else None)"

subsection \<open>Queries\<close>

definition to_object :: "string \<times> 'b row \<Rightarrow> 'b store_object" where
  "to_object e = \<lparr>so_key = fst e, so_value = row_value (snd e), so_revision = row_revision (snd e)\<rparr>"

definition in_key_range :: "string \<Rightarrow> string \<Rightarrow> string \<Rightarrow> bool" where
  "in_key_range p upper k = (p \<le> k \<and> (upper = [] \<or> k < upper))"

definition after_cursor :: "string \<Rightarrow> string \<Rightarrow> bool" where
  "after_cursor ck k = (ck = [] \<or> ck < k)"

definition limit_rows :: "nat option \<Rightarrow> 'a list \<Rightarrow> 'a list" where
  "limit_rows lim xs = (case lim of None \<Rightarrow> xs | Some n \<Rightarrow> take n xs)"

definition query_rows ::
    "'b db \<Rightarrow> (string \<times> 'b row \<Rightarrow> bool) \<Rightarrow> string \<Rightarrow> nat option \<Rightarrow> 'b store_object list" where
  "query_rows d cond ck lim =
     limit_rows lim (map to_object (filter (\<lambda>e. cond e \<and> after_cursor ck (fst e)) (objects d)))"

text \<open>SQLite's \<^verbatim>\<open>LIKE\<close>: \<^verbatim>\<open>%\<close> and \<^verbatim>\<open>_\<close> are wildcards, ASCII letters compare without case.\<close>

definition ascii_lower :: "char \<Rightarrow> char" where
  "ascii_lower c = (if in_bytes 65 90 c then char_of (of_char c + (32 :: nat)) else c)"

fun sql_like :: "string \<Rightarrow> string \<Rightarrow> bool" where
  "sql_like [] s = (s = [])"
| "sql_like (p # ps) [] = (p = CHR ''%'' \<and> sql_like ps [])"
| "sql_like (p # ps) (c # cs) =
     (if p = CHR ''%'' then sql_like ps (c # cs) \<or> sql_like (p # ps) cs
      else (p = CHR ''_'' \<or> ascii_lower p = ascii_lower c) \<and> sql_like ps cs)"

text \<open>
  \<^verbatim>\<open>json_extract(value, '$.spec.nodeName')\<close>: SQL null for a missing member or \<^verbatim>\<open>null\<close>, the
  text of a string; every other JSON value is not equal to a text parameter. SQLite raises an error for a
  value that is not JSON; the store keeps only documents that parse.
\<close>

datatype sql_value = SqlNull | SqlText string | SqlOther

definition json_extract_node_name :: "'b codec \<Rightarrow> 'b \<Rightarrow> sql_value" where
  "json_extract_node_name c v =
     (case from_slice c v of
        None \<Rightarrow> SqlNull
      | Some j \<Rightarrow>
          (case json_idx (json_idx j ''spec'') ''nodeName'' of
             JNull \<Rightarrow> SqlNull
           | JStr s \<Rightarrow> SqlText s
           | _ \<Rightarrow> SqlOther))"

definition matches_selector :: "'b codec \<Rightarrow> field_selector \<Rightarrow> 'b \<Rightarrow> bool" where
  "matches_selector c sel v =
     (case from_slice c v of
        None \<Rightarrow> False
      | Some j \<Rightarrow>
          (if fs_negated sel then \<not> json_path_equals j (fs_field sel) (fs_value sel)
           else json_path_equals j (fs_field sel) (fs_value sel)))"

definition paginate_in_memory ::
    "'b store_object list \<Rightarrow> nat option \<Rightarrow> 'b store_object list \<times> string option" where
  "paginate_in_memory items limit =
     (case limit of
        None \<Rightarrow> (items, None)
      | Some l \<Rightarrow>
          (if length items > l then
             (let kept = take l items
              in (kept, if kept = [] then None else Some (so_key (last kept))))
           else (items, None)))"

definition clamp_list_limit :: "nat option \<Rightarrow> nat option" where
  "clamp_list_limit limit =
     (case limit of Some l \<Rightarrow> if l < 2 ^ 63 - 2 then Some l else None | None \<Rightarrow> None)"

text \<open>
  The generic branch: chunks of \<open>limit + 1\<close> rows are fetched from a moving cursor until enough
  rows survive the predicate or a short chunk shows that the range is exhausted. The loop carries
  fuel; running out is \<^const>\<open>None\<close>.
\<close>

fun scan_chunks ::
    "nat \<Rightarrow> (string \<Rightarrow> nat \<Rightarrow> 'b store_object list) \<Rightarrow> ('b store_object \<Rightarrow> bool) \<Rightarrow> nat \<Rightarrow>
       string \<Rightarrow> 'b store_object list \<Rightarrow> 'b store_object list option" where
  "scan_chunks 0 fetch keep page_limit cursor survivors = None"
| "scan_chunks (Suc fuel) fetch keep page_limit cursor survivors =
     (let chunk = fetch cursor (page_limit + 1);
          cursor' = (if chunk = [] then cursor else so_key (last chunk));
          survivors' = survivors @ filter keep chunk
      in if length chunk < page_limit + 1 \<or> length survivors' > page_limit then Some survivors'
         else scan_chunks fuel fetch keep page_limit cursor' survivors')"

definition metadata_name_branch :: "field_selector \<Rightarrow> bool" where
  "metadata_name_branch sel = (\<not> fs_negated sel \<and> fs_field sel = ''metadata.name'')"

definition metadata_namespace_branch :: "field_selector \<Rightarrow> bool" where
  "metadata_namespace_branch sel = (\<not> fs_negated sel \<and> fs_field sel = ''metadata.namespace'')"

definition node_name_branch :: "string \<Rightarrow> field_selector \<Rightarrow> bool" where
  "node_name_branch p sel =
     (\<not> fs_negated sel \<and> fs_field sel = ''spec.nodeName'' \<and> starts_with p ''/registry/pods/'')"

text \<open>The five branches of \<^verbatim>\<open>list_sync\<close>; \<open>fetch_limit\<close> is one row more than the page.\<close>

definition list_by_name ::
    "'b db \<Rightarrow> string \<Rightarrow> string \<Rightarrow> field_selector \<Rightarrow> string \<Rightarrow> nat option \<Rightarrow> 'b store_object list \<times> string option" where
  "list_by_name d p upper sel ck limit =
     paginate_in_memory
       (query_rows d (\<lambda>e. in_key_range p upper (fst e) \<and> row_name (snd e) = Some (fs_value sel))
          ck (map_option Suc limit)) limit"

definition list_by_namespace ::
    "'b db \<Rightarrow> string \<Rightarrow> string \<Rightarrow> field_selector \<Rightarrow> string \<Rightarrow> nat option \<Rightarrow> 'b store_object list \<times> string option" where
  "list_by_namespace d p upper sel ck limit =
     paginate_in_memory
       (query_rows d (\<lambda>e. in_key_range p upper (fst e) \<and>
            (row_ns (snd e) = Some (fs_value sel) \<or> fs_value sel = [] \<and> row_ns (snd e) = None))
          ck (map_option Suc limit)) limit"

definition list_by_node_name ::
    "'b codec \<Rightarrow> 'b db \<Rightarrow> string \<Rightarrow> field_selector \<Rightarrow> string \<Rightarrow> nat option \<Rightarrow> 'b store_object list \<times> string option" where
  "list_by_node_name c d p sel ck limit =
     paginate_in_memory
       (query_rows d (\<lambda>e. sql_like (p @ ''%'') (fst e) \<and>
            (case json_extract_node_name c (row_value (snd e)) of
               SqlText s \<Rightarrow> s = fs_value sel
             | SqlNull \<Rightarrow> fs_value sel = []
             | SqlOther \<Rightarrow> False))
          ck (map_option Suc limit)) limit"

definition list_by_scan ::
    "nat \<Rightarrow> 'b codec \<Rightarrow> 'b db \<Rightarrow> string \<Rightarrow> string \<Rightarrow> field_selector \<Rightarrow> string \<Rightarrow> nat option \<Rightarrow>
       ('b store_object list \<times> string option) option" where
  "list_by_scan fuel c d p upper sel ck requested =
     map_option (\<lambda>filtered. paginate_in_memory filtered requested)
       (case clamp_list_limit requested of
          None \<Rightarrow>
            Some (filter (\<lambda>ob. matches_selector c sel (so_value ob))
              (query_rows d (\<lambda>e. in_key_range p upper (fst e)) ck None))
        | Some l \<Rightarrow>
            scan_chunks fuel (\<lambda>cursor n. query_rows d (\<lambda>e. in_key_range p upper (fst e)) cursor (Some n))
              (\<lambda>ob. matches_selector c sel (so_value ob)) l ck [])"

definition list_unfiltered ::
    "'b db \<Rightarrow> string \<Rightarrow> string \<Rightarrow> string \<Rightarrow> nat option \<Rightarrow> 'b store_object list \<times> string option" where
  "list_unfiltered d p upper ck limit =
     (let raw = query_rows d (\<lambda>e. in_key_range p upper (fst e)) ck (map_option Suc limit) in
      case limit of
        None \<Rightarrow> (raw, None)
      | Some l \<Rightarrow>
          (if length raw > l then
             (let items = butlast raw
              in (items, if items = [] then None else Some (so_key (last items))))
           else (raw, None)))"

definition list_page ::
    "nat \<Rightarrow> 'b codec \<Rightarrow> 'b db \<Rightarrow> string \<Rightarrow> string \<Rightarrow> list_options \<Rightarrow>
       ('b store_object list \<times> string option) option" where
  "list_page fuel c d p upper opts =
     (let ck = (case lo_continue opts of None \<Rightarrow> [] | Some k \<Rightarrow> k);
          limit = clamp_list_limit (lo_limit opts)
      in case lo_selector opts of
        Some sel \<Rightarrow>
          (if metadata_name_branch sel then Some (list_by_name d p upper sel ck limit)
           else if metadata_namespace_branch sel then Some (list_by_namespace d p upper sel ck limit)
           else if node_name_branch p sel then Some (list_by_node_name c d p sel ck limit)
           else list_by_scan fuel c d p upper sel ck (lo_limit opts))
      | None \<Rightarrow> Some (list_unfiltered d p upper ck limit))"

text \<open>
  \<^verbatim>\<open>list_sync\<close>: the page, the snapshot's revision and, when there is a next page, the number of
  rows of the key range behind the cursor.
\<close>

definition list_sync ::
    "nat \<Rightarrow> 'b codec \<Rightarrow> 'b db \<Rightarrow> string \<Rightarrow> list_options \<Rightarrow> (store_error + 'b list_response) option" where
  "list_sync fuel c d p opts =
     (case prefix_upper_bound p of
        None \<Rightarrow> Some (Inl Join)
      | Some upper \<Rightarrow>
          map_option (\<lambda>(items, continue_key).
            Inr \<lparr>lr_items = items, lr_revision = meta_revision d, lr_continue = continue_key,
                 lr_remaining = map_option (\<lambda>cursor.
                   length (filter (\<lambda>e. in_key_range p upper (fst e) \<and> cursor < fst e) (objects d)))
                   continue_key\<rparr>)
            (list_page fuel c d p upper opts))"

text \<open>The retry of \<^verbatim>\<open>list\<close>: a snapshot older than the last write is listed again.\<close>

definition list_guarded ::
    "nat \<Rightarrow> 'b codec \<Rightarrow> 'b db \<Rightarrow> 'b db \<Rightarrow> string \<Rightarrow> list_options \<Rightarrow> (store_error + 'b list_response) option" where
  "list_guarded fuel c snapshot d p opts =
     (case list_sync fuel c snapshot p opts of
        Some (Inr resp) \<Rightarrow>
          (if lr_revision resp < last_written d then list_sync fuel c d p opts else Some (Inr resp))
      | other \<Rightarrow> other)"

subsection \<open>The key range is the prefix\<close>

lemma less_succ_char:
  assumes "of_char c < (255 :: nat)"
  shows "e < succ_char c \<longleftrightarrow> e \<le> c"
proof -
  have "of_char (succ_char c) = (Suc (of_char c) :: nat)"
    using assms by (simp add: succ_char_def)
  then show ?thesis
    unfolding less_char_def less_eq_char_def by (simp only: less_Suc_eq_le)
qed

lemma key_range_snoc:
  assumes "of_char c < (255 :: nat)"
  shows "q @ [c] \<le> k \<and> k < q @ [succ_char c] \<longleftrightarrow> prefix (q @ [c]) k"
proof (induction q arbitrary: k)
  case Nil
  show ?case
  proof (cases k)
    case (Cons e ks)
    have "(c < e \<or> c = e) \<and> e < succ_char c \<longleftrightarrow> c = e"
      unfolding less_succ_char [OF assms] by auto
    with Cons show ?thesis by auto
  qed simp
next
  case (Cons a q)
  show ?case
  proof (cases k)
    case (Cons e ks)
    have "(a # q) @ [c] \<le> k \<and> k < (a # q) @ [succ_char c] \<longleftrightarrow>
        a = e \<and> (q @ [c] \<le> ks \<and> ks < q @ [succ_char c])"
      unfolding Cons by (auto dest: less_asym)
    also have "\<dots> \<longleftrightarrow> a = e \<and> prefix (q @ [c]) ks" by (simp only: Cons.IH)
    finally show ?thesis unfolding Cons by simp
  qed simp
qed

text \<open>
  A prefix has a bound when it is not empty, its last byte is below 255 and the incremented
  string is UTF-8; every prefix the server builds ends in a slash.
\<close>

definition listable_prefix :: "string \<Rightarrow> bool" where
  "listable_prefix p =
     (p \<noteq> [] \<and> of_char (last p) < (255 :: nat) \<and> prefix_upper_bound p \<noteq> None)"

lemma listable_prefix_range:
  assumes "listable_prefix p" and "prefix_upper_bound p = Some upper"
  shows "in_key_range p upper k \<longleftrightarrow> starts_with k p"
proof -
  obtain q c where p: "p = q @ [c]" using assms(1) by (cases p rule: rev_cases) (auto simp: listable_prefix_def)
  have lt: "of_char c < (255 :: nat)" using assms(1) p by (simp add: listable_prefix_def)
  have "upper = q @ [succ_char c]"
    using assms(2) lt p by (auto simp: prefix_upper_bound_def split: if_splits)
  then have "in_key_range p upper k \<longleftrightarrow> q @ [c] \<le> k \<and> k < q @ [succ_char c]"
    using p by (simp add: in_key_range_def)
  also have "\<dots> \<longleftrightarrow> prefix (q @ [c]) k" by (rule key_range_snoc [OF lt])
  finally show ?thesis using p by (simp add: starts_with_iff_prefix)
qed

subsection \<open>Cursors over ordered listings\<close>

lemma filter_after_last:
  assumes "sorted_wrt (<) (map f xs)" and "0 < n" and "n \<le> length xs"
  shows "filter (\<lambda>x. f (last (take n xs)) < (f x :: 'k :: linorder)) xs = drop n xs"
proof -
  let ?a = "take n xs" and ?b = "drop n xs"
  have srt: "sorted_wrt (<) (map f ?a @ map f ?b)"
    using assms(1) by (metis append_take_drop_id map_append)
  have ne: "?a \<noteq> []" using assms(2,3) by (cases xs) auto
  have lo: "\<not> f (last ?a) < f x" if "x \<in> set ?a" for x
  proof -
    have "sorted_wrt (<) (map f (butlast ?a) @ [f (last ?a)])"
      using srt ne by (metis append_butlast_last_id list.simps(8,9) map_append sorted_wrt_append)
    moreover have "x \<in> set (butlast ?a) \<or> x = last ?a"
      using that ne by (metis append_butlast_last_id in_set_conv_decomp rotate1.simps(2) set_ConsD set_rotate1)
    ultimately show ?thesis by (auto simp: sorted_wrt_append dest: less_asym)
  qed
  have hi: "f (last ?a) < f x" if "x \<in> set ?b" for x
    using srt ne that by (auto simp: sorted_wrt_append)
  have "filter (\<lambda>x. f (last ?a) < f x) ?a = []" using lo by (simp add: filter_empty_conv)
  moreover have "filter (\<lambda>x. f (last ?a) < f x) ?b = ?b" using hi by (simp add: filter_id_conv)
  ultimately show ?thesis by (metis append_Nil append_take_drop_id filter_append)
qed

lemma filter_cursor_step:
  assumes srt: "sorted_wrt (<) (map f xs)" and ne: "\<forall>x \<in> set xs. f x \<noteq> []"
    and rest: "rest = filter (\<lambda>x. after_cursor ck (f x)) xs" and n: "0 < n" "n \<le> length rest"
  shows "filter (\<lambda>x. after_cursor (f (last (take n rest))) (f x)) xs = drop n rest"
proof -
  let ?l = "last (take n rest)"
  have srt': "sorted_wrt (<) (map f rest)"
    using srt unfolding rest by (simp add: sorted_wrt_map sorted_wrt_filter)
  have "take n rest \<noteq> []" using n by (cases rest) auto
  then have "?l \<in> set rest" using last_in_set in_set_takeD by metis
  then have l: "?l \<in> set xs" "after_cursor ck (f ?l)" unfolding rest by auto
  have "filter (\<lambda>x. after_cursor (f ?l) (f x)) xs = filter (\<lambda>x. f ?l < f x) rest"
    using l ne unfolding rest filter_filter
    by (intro filter_cong) (auto simp: after_cursor_def)
  then show ?thesis using filter_after_last [OF srt' n] by simp
qed

lemma paginate_take:
  assumes "R @ extra = M" and "extra = [] \<or> length R > l"
  shows "paginate_in_memory R (Some l) = paginate_in_memory M (Some l)"
  using assms by (auto simp: paginate_in_memory_def Let_def)

lemma scan_chunks_returns:
  assumes "\<And>ck n. fetch ck n = take n (filter (\<lambda>x. after_cursor ck (so_key x)) xs)"
    and "sorted_wrt (<) (map so_key xs)" and "\<forall>x \<in> set xs. so_key x \<noteq> []"
    and "length (filter (\<lambda>x. after_cursor ck (so_key x)) xs) < fuel"
  shows "\<exists>R extra. scan_chunks fuel fetch keep l ck sv = Some R \<and>
     R @ extra = sv @ filter keep (filter (\<lambda>x. after_cursor ck (so_key x)) xs) \<and>
     (extra = [] \<or> length R > l)"
  using assms(4)
proof (induction fuel arbitrary: ck sv)
  case 0
  then show ?case by simp
next
  case (Suc fuel)
  define rest where "rest = filter (\<lambda>x. after_cursor ck (so_key x)) xs"
  define chunk where "chunk = take (Suc l) rest"
  have fetch: "fetch ck (Suc l) = chunk" by (simp add: assms(1) chunk_def rest_def)
  have split: "filter keep rest = filter keep chunk @ filter keep (drop (Suc l) rest)"
    unfolding chunk_def by (metis append_take_drop_id filter_append)
  show ?case
  proof (cases "length chunk < Suc l \<or> length (sv @ filter keep chunk) > l")
    case True
    then have "scan_chunks (Suc fuel) fetch keep l ck sv = Some (sv @ filter keep chunk)"
      using fetch by (auto simp: Let_def)
    moreover have "filter keep (drop (Suc l) rest) = [] \<or> length (sv @ filter keep chunk) > l"
      using True unfolding chunk_def by auto
    ultimately show ?thesis
      using split unfolding rest_def [symmetric] by (metis append.assoc)
  next
    case False
    then have len: "Suc l \<le> length rest" unfolding chunk_def by auto
    have ne: "chunk \<noteq> []" using False by (cases chunk) auto
    let ?k = "so_key (last chunk)"
    have nxt: "filter (\<lambda>x. after_cursor ?k (so_key x)) xs = drop (Suc l) rest"
      unfolding chunk_def by (rule filter_cursor_step [OF assms(2,3) rest_def _ len]) simp
    have "length (filter (\<lambda>x. after_cursor ?k (so_key x)) xs) < fuel"
      using Suc.prems len unfolding nxt rest_def [symmetric] by simp
    from Suc.IH [OF this, of "sv @ filter keep chunk"] obtain R extra where
      "scan_chunks fuel fetch keep l ?k (sv @ filter keep chunk) = Some R"
      "R @ extra = (sv @ filter keep chunk) @ filter keep (drop (Suc l) rest)"
      "extra = [] \<or> length R > l"
      unfolding nxt by blast
    moreover have "scan_chunks (Suc fuel) fetch keep l ck sv =
        scan_chunks fuel fetch keep l ?k (sv @ filter keep chunk)"
      using fetch False ne by (simp add: Let_def)
    ultimately show ?thesis
      using split unfolding rest_def [symmetric] by (metis append.assoc)
  qed
qed

subsection \<open>Pages as an interface\<close>

text \<open>
  What a paginated listing promises: a page is the first items behind the cursor, and it names its
  last item as the next cursor exactly when more items follow. A client that follows the cursors
  collects the whole listing, without gaps or duplicates.
\<close>

fun collect_pages :: "nat \<Rightarrow> (string \<Rightarrow> ('i list \<times> string option) option) \<Rightarrow> string \<Rightarrow> 'i list option" where
  "collect_pages 0 page ck = None"
| "collect_pages (Suc fuel) page ck =
     (case page ck of
        None \<Rightarrow> None
      | Some (items, None) \<Rightarrow> Some items
      | Some (items, Some k) \<Rightarrow> map_option (\<lambda>rest. items @ rest) (collect_pages fuel page k))"

locale paged_listing =
  fixes inv :: "'q \<Rightarrow> bool"
    and key :: "'i \<Rightarrow> string"
    and listing :: "'q \<Rightarrow> 'i list"
    and page :: "'q \<Rightarrow> nat \<Rightarrow> string \<Rightarrow> ('i list \<times> string option) option"
    and max_limit :: nat
  assumes listing_sorted: "inv q \<Longrightarrow> sorted_wrt (<) (map key (listing q))"
    and listing_keys: "inv q \<Longrightarrow> x \<in> set (listing q) \<Longrightarrow> key x \<noteq> []"
    and page_law: "inv q \<Longrightarrow> 0 < l \<Longrightarrow> l < max_limit \<Longrightarrow>
      page q l ck =
        (let rest = filter (\<lambda>x. after_cursor ck (key x)) (listing q)
         in Some (if length rest > l then (take l rest, Some (key (last (take l rest)))) else (rest, None)))"
begin

lemma collect_from_cursor:
  assumes "inv q" and "0 < l" and "l < max_limit"
    and "length (filter (\<lambda>x. after_cursor ck (key x)) (listing q)) < fuel"
  shows "collect_pages fuel (page q l) ck = Some (filter (\<lambda>x. after_cursor ck (key x)) (listing q))"
  using assms(4)
proof (induction fuel arbitrary: ck)
  case 0
  then show ?case by simp
next
  case (Suc fuel)
  define rest where "rest = filter (\<lambda>x. after_cursor ck (key x)) (listing q)"
  note law = page_law [OF assms(1-3), of ck, unfolded rest_def [symmetric] Let_def]
  show ?case
  proof (cases "length rest > l")
    case False
    then show ?thesis using law by (simp add: rest_def)
  next
    case True
    let ?k = "key (last (take l rest))"
    have nxt: "filter (\<lambda>x. after_cursor ?k (key x)) (listing q) = drop l rest"
      by (rule filter_cursor_step [OF listing_sorted [OF assms(1)] _ rest_def assms(2)])
        (use listing_keys [OF assms(1)] True in auto)
    have "length (filter (\<lambda>x. after_cursor ?k (key x)) (listing q)) < fuel"
      using Suc.prems True assms(2) unfolding nxt rest_def [symmetric] by simp
    from Suc.IH [OF this] show ?thesis
      using law True unfolding nxt by (simp add: rest_def [symmetric])
  qed
qed

lemma collect_all:
  assumes "inv q" and "0 < l" and "l < max_limit" and "length (listing q) < fuel"
  shows "collect_pages fuel (page q l) [] = Some (listing q)"
proof -
  have "filter (\<lambda>x. after_cursor [] (key x)) (listing q) = listing q" by (simp add: after_cursor_def)
  with collect_from_cursor [OF assms(1-3), of "[]" fuel] assms(4) show ?thesis by simp
qed

end

subsection \<open>list_sync implements the interface\<close>

record 'b list_query =
  lq_codec :: "'b codec"
  lq_db :: "'b db"
  lq_prefix :: string
  lq_selector :: "field_selector option"

text \<open>The rows a listing denotes: those under the prefix whose columns or document satisfy the selector.\<close>

definition selector_holds :: "'b codec \<Rightarrow> string \<Rightarrow> field_selector \<Rightarrow> 'b row \<Rightarrow> bool" where
  "selector_holds c p sel r =
     (if metadata_name_branch sel then row_name r = Some (fs_value sel)
      else if metadata_namespace_branch sel then
        row_ns r = Some (fs_value sel) \<or> fs_value sel = [] \<and> row_ns r = None
      else if node_name_branch p sel then
        (case json_extract_node_name c (row_value r) of
           SqlText s \<Rightarrow> s = fs_value sel
         | SqlNull \<Rightarrow> fs_value sel = []
         | SqlOther \<Rightarrow> False)
      else matches_selector c sel (row_value r))"

definition list_reference :: "'b list_query \<Rightarrow> 'b store_object list" where
  "list_reference q =
     map to_object (filter (\<lambda>e. starts_with (fst e) (lq_prefix q) \<and>
        (case lq_selector q of
           None \<Rightarrow> True
         | Some sel \<Rightarrow> selector_holds (lq_codec q) (lq_prefix q) sel (snd e))) (objects (lq_db q)))"

definition list_options_of :: "'b list_query \<Rightarrow> nat option \<Rightarrow> string \<Rightarrow> list_options" where
  "list_options_of q limit ck =
     \<lparr>lo_selector = lq_selector q, lo_limit = limit, lo_continue = (if ck = [] then None else Some ck)\<rparr>"

definition list_fuel :: "'b list_query \<Rightarrow> nat" where
  "list_fuel q = Suc (length (objects (lq_db q)))"

definition list_run :: "'b list_query \<Rightarrow> nat option \<Rightarrow> string \<Rightarrow> (store_error + 'b list_response) option" where
  "list_run q limit ck =
     list_sync (list_fuel q) (lq_codec q) (lq_db q) (lq_prefix q) (list_options_of q limit ck)"

definition list_page_of :: "'b list_query \<Rightarrow> nat \<Rightarrow> string \<Rightarrow> ('b store_object list \<times> string option) option" where
  "list_page_of q l ck =
     (case list_run q (Some l) ck of
        Some (Inr resp) \<Rightarrow> Some (lr_items resp, lr_continue resp)
      | _ \<Rightarrow> None)"

text \<open>
  \<^verbatim>\<open>LIKE\<close> ignores the case of ASCII letters and reads two characters as wildcards; the node-name
  branch is exact when the prefix has no wildcard and prefix and keys are in lower case.
\<close>

definition like_exact :: "'b db \<Rightarrow> string \<Rightarrow> bool" where
  "like_exact d p =
     (CHR ''%'' \<notin> set p \<and> CHR ''_'' \<notin> set p \<and> (\<forall>x \<in> set p. ascii_lower x = x) \<and>
      (\<forall>e \<in> set (objects d). \<forall>x \<in> set (fst e). ascii_lower x = x))"

definition list_query_ok :: "'b list_query \<Rightarrow> bool" where
  "list_query_ok q =
     (listable_prefix (lq_prefix q) \<and> bt_wf (objects (lq_db q)) \<and>
      length (objects (lq_db q)) < 2 ^ 63 - 2 \<and>
      (case lq_selector q of
         None \<Rightarrow> True
       | Some sel \<Rightarrow> node_name_branch (lq_prefix q) sel \<longrightarrow> like_exact (lq_db q) (lq_prefix q)))"

lemma sql_like_all: "sql_like ''%'' s"
  by (induction s) auto

lemma sql_like_prefix:
  assumes "CHR ''%'' \<notin> set p" and "CHR ''_'' \<notin> set p" and "\<forall>x \<in> set p. ascii_lower x = x"
    and "\<forall>x \<in> set s. ascii_lower x = x"
  shows "sql_like (p @ ''%'') s \<longleftrightarrow> prefix p s"
  using assms
proof (induction p arbitrary: s)
  case Nil
  then show ?case using sql_like_all by simp
next
  case (Cons a p)
  then show ?case by (cases s) auto
qed

lemma query_rows_limit: "query_rows d cond ck (Some n) = take n (query_rows d cond ck None)"
  by (simp add: query_rows_def limit_rows_def)

lemma paginate_fetched:
  "paginate_in_memory (take (Suc l) M) (Some l) = paginate_in_memory M (Some l)"
  by (auto simp: paginate_in_memory_def Let_def)

lemma query_rows_reference:
  assumes "\<And>e. e \<in> set (objects d) \<Longrightarrow> cond e = P e"
  shows "query_rows d cond ck None =
    filter (\<lambda>x. after_cursor ck (so_key x)) (map to_object (filter P (objects d)))"
proof -
  have "filter (\<lambda>e. cond e \<and> after_cursor ck (fst e)) (objects d) =
      filter (\<lambda>e. P e \<and> after_cursor ck (fst e)) (objects d)"
    using assms by (intro filter_cong) auto
  then show ?thesis
    by (simp add: query_rows_def limit_rows_def filter_map to_object_def comp_def conj_commute)
qed

lemma list_reference_sorted:
  "bt_wf (objects (lq_db q)) \<Longrightarrow> sorted_wrt (<) (map so_key (list_reference q))"
  by (simp add: list_reference_def bt_wf_def sorted_wrt_map to_object_def sorted_wrt_filter)

lemma list_reference_keys:
  "listable_prefix (lq_prefix q) \<Longrightarrow> x \<in> set (list_reference q) \<Longrightarrow> so_key x \<noteq> []"
  by (auto simp: list_reference_def to_object_def listable_prefix_def starts_with_def)

lemma clamp_Some: "clamp_list_limit limit = Some l \<Longrightarrow> limit = Some l"
  by (auto simp: clamp_list_limit_def split: option.splits if_splits)

lemma clamp_None_paginate:
  "clamp_list_limit limit = None \<Longrightarrow> length xs < 2 ^ 63 - 2 \<Longrightarrow> paginate_in_memory xs limit = (xs, None)"
  by (cases limit) (auto simp: clamp_list_limit_def paginate_in_memory_def split: if_splits)

lemma indexed_page:
  assumes "\<And>e. e \<in> set (objects d) \<Longrightarrow> cond e = P e"
  shows "paginate_in_memory (query_rows d cond ck (map_option Suc limit)) limit =
    paginate_in_memory (filter (\<lambda>x. after_cursor ck (so_key x)) (map to_object (filter P (objects d)))) limit"
proof -
  have "query_rows d cond ck None =
      filter (\<lambda>x. after_cursor ck (so_key x)) (map to_object (filter P (objects d)))"
    by (rule query_rows_reference) (rule assms)
  then show ?thesis by (cases limit) (simp_all only: query_rows_limit paginate_fetched option.map)
qed

lemma generic_page:
  assumes "bt_wf (objects d)" and "\<And>e. e \<in> set (objects d) \<Longrightarrow> rng e = starts_with (fst e) p"
    and "p \<noteq> []" and "length (objects d) < 2 ^ 63 - 2"
  shows "map_option (\<lambda>filtered. paginate_in_memory filtered limit)
      (case clamp_list_limit limit of
         None \<Rightarrow> Some (filter (\<lambda>ob. keep (so_value ob)) (query_rows d rng ck None))
       | Some l \<Rightarrow> scan_chunks (Suc (length (objects d))) (\<lambda>cursor n. query_rows d rng cursor (Some n))
                     (\<lambda>ob. keep (so_value ob)) l ck []) =
    Some (paginate_in_memory (filter (\<lambda>x. after_cursor ck (so_key x))
       (map to_object (filter (\<lambda>e. starts_with (fst e) p \<and> keep (row_value (snd e))) (objects d))))
       (clamp_list_limit limit))" (is "?lhs = Some (paginate_in_memory ?M _)")
proof -
  let ?xs = "map to_object (filter (\<lambda>e. starts_with (fst e) p) (objects d))"
  let ?rest = "filter (\<lambda>x. after_cursor ck (so_key x)) ?xs"
  have q: "query_rows d rng ck' None = filter (\<lambda>x. after_cursor ck' (so_key x)) ?xs" for ck'
    by (rule query_rows_reference [OF assms(2)])
  have M: "filter (\<lambda>ob. keep (so_value ob)) ?rest = ?M"
    by (simp add: filter_map comp_def to_object_def conj_commute conj_left_commute)
  show ?thesis
  proof (cases "clamp_list_limit limit")
    case None
    have le: "length ?M \<le> length (objects d)"
      by (metis (no_types, lifting) filter_filter length_filter_le length_map le_trans)
    have "paginate_in_memory ?M limit = (?M, None)"
      by (intro clamp_None_paginate [OF None] le_less_trans [OF le assms(4)])
    moreover have "?lhs = Some (paginate_in_memory ?M limit)"
      unfolding None option.case q M by simp
    moreover have "paginate_in_memory ?M None = (?M, None)" by (simp add: paginate_in_memory_def)
    ultimately show ?thesis unfolding None by simp
  next
    case (Some l)
    have srt: "sorted_wrt (<) (map so_key ?xs)"
      using assms(1) by (simp add: bt_wf_def sorted_wrt_map to_object_def sorted_wrt_filter)
    have keys: "\<forall>x \<in> set ?xs. so_key x \<noteq> []"
      using assms(3) by (auto simp: to_object_def starts_with_def)
    have "length ?rest \<le> length ?xs" by (rule length_filter_le)
    also have "\<dots> \<le> length (objects d)" by simp
    finally have fuel: "length ?rest < Suc (length (objects d))" by (rule le_imp_less_Suc)
    have fetch: "query_rows d rng cursor (Some n) = take n (filter (\<lambda>x. after_cursor cursor (so_key x)) ?xs)"
      for cursor n unfolding query_rows_limit q by simp
    obtain R extra where
      R: "scan_chunks (Suc (length (objects d))) (\<lambda>cursor n. query_rows d rng cursor (Some n))
            (\<lambda>ob. keep (so_value ob)) l ck [] = Some R"
        "R @ extra = [] @ filter (\<lambda>ob. keep (so_value ob)) ?rest" "extra = [] \<or> length R > l"
      using scan_chunks_returns [OF fetch srt keys fuel, of "\<lambda>ob. keep (so_value ob)" l "[]"] by blast
    have "paginate_in_memory R (Some l) = paginate_in_memory ?M (Some l)"
      using paginate_take [OF R(2,3)] unfolding append_Nil M .
    then show ?thesis
      using R(1) clamp_Some [OF Some] unfolding Some option.case by simp
  qed
qed

lemma list_page_reference:
  assumes "list_query_ok q" and "prefix_upper_bound (lq_prefix q) = Some upper"
  shows "list_page (list_fuel q) (lq_codec q) (lq_db q) (lq_prefix q) upper (list_options_of q limit ck) =
    Some (paginate_in_memory (filter (\<lambda>x. after_cursor ck (so_key x)) (list_reference q)) (clamp_list_limit limit))"
proof -
  let ?p = "lq_prefix q" and ?d = "lq_db q" and ?c = "lq_codec q"
  have ok: "listable_prefix ?p" "bt_wf (objects ?d)" "length (objects ?d) < 2 ^ 63 - 2"
    using assms(1) by (auto simp: list_query_ok_def)
  have range: "in_key_range ?p upper k = starts_with k ?p" for k
    by (rule listable_prefix_range [OF ok(1) assms(2)])
  have like: "sql_like (?p @ ''%'') (fst e) = starts_with (fst e) ?p"
    if "like_exact ?d ?p" "e \<in> set (objects ?d)" for e
    using that sql_like_prefix [of ?p "fst e"] by (auto simp: like_exact_def starts_with_iff_prefix)
  have p: "?p \<noteq> []" using ok(1) by (simp add: listable_prefix_def)
  have ck: "(case lo_continue (list_options_of q limit ck) of None \<Rightarrow> [] | Some k \<Rightarrow> k) = ck"
    by (simp add: list_options_of_def)
  have lim: "lo_limit (list_options_of q limit ck) = limit" by (simp add: list_options_of_def)
  have sel: "lo_selector (list_options_of q limit ck) = lq_selector q" by (simp add: list_options_of_def)
  show ?thesis
  proof (cases "lq_selector q")
    case None
    have "query_rows ?d (\<lambda>e. in_key_range ?p upper (fst e)) ck None =
        filter (\<lambda>x. after_cursor ck (so_key x)) (list_reference q)"
      unfolding list_reference_def None option.case by (rule query_rows_reference) (simp add: range)
    then show ?thesis
      unfolding list_page_def list_unfiltered_def Let_def ck lim sel None option.case
      by (cases "clamp_list_limit limit")
        (simp_all add: query_rows_limit paginate_in_memory_def butlast_take Let_def)
  next
    case (Some s)
    note unf = list_page_def list_by_name_def list_by_namespace_def list_by_node_name_def list_by_scan_def Let_def ck lim sel Some option.case list_reference_def selector_holds_def
    consider (name) "metadata_name_branch s"
      | (ns) "\<not> metadata_name_branch s" "metadata_namespace_branch s"
      | (node) "\<not> metadata_name_branch s" "\<not> metadata_namespace_branch s" "node_name_branch ?p s"
      | (generic) "\<not> metadata_name_branch s" "\<not> metadata_namespace_branch s" "\<not> node_name_branch ?p s"
      by blast
    then show ?thesis
    proof cases
      case name
      then show ?thesis
        unfolding unf by (simp only: if_True option.inject, intro indexed_page) (simp add: range)
    next
      case ns
      then show ?thesis
        unfolding unf by (simp only: if_True if_False option.inject, intro indexed_page) (simp add: range)
    next
      case node
      then have "like_exact ?d ?p" using assms(1) Some by (simp add: list_query_ok_def)
      with node show ?thesis
        unfolding unf by (simp only: if_True if_False option.inject, intro indexed_page) (simp add: like)
    next
      case generic
      then show ?thesis
        unfolding unf list_fuel_def
        by (simp only: if_False, intro generic_page [OF ok(2) _ p ok(3)]) (simp add: range)
    qed
  qed
qed

lemma list_run_reference:
  assumes "list_query_ok q"
  shows "\<exists>upper. prefix_upper_bound (lq_prefix q) = Some upper \<and>
    list_run q limit ck =
      (let (items, k) = paginate_in_memory (filter (\<lambda>x. after_cursor ck (so_key x)) (list_reference q)) (clamp_list_limit limit)
       in Some (Inr \<lparr>lr_items = items, lr_revision = meta_revision (lq_db q), lr_continue = k,
            lr_remaining = map_option (\<lambda>cursor.
              length (filter (\<lambda>e. starts_with (fst e) (lq_prefix q) \<and> cursor < fst e) (objects (lq_db q)))) k\<rparr>))"
proof -
  have lp: "listable_prefix (lq_prefix q)" using assms by (simp add: list_query_ok_def)
  then obtain upper where up: "prefix_upper_bound (lq_prefix q) = Some upper"
    by (auto simp: listable_prefix_def)
  show ?thesis
    unfolding list_run_def list_sync_def up option.case list_page_reference [OF assms up]
    by (auto simp: listable_prefix_range [OF lp up] Let_def split: prod.split)
qed

interpretation sqlite_list: paged_listing list_query_ok so_key list_reference list_page_of "2 ^ 63 - 2"
proof (unfold_locales, goal_cases)
  case (1 q)
  then show ?case by (simp add: list_query_ok_def list_reference_sorted)
next
  case (2 q x)
  then show ?case by (auto simp: list_query_ok_def dest: list_reference_keys)
next
  case (3 q l ck)
  have "clamp_list_limit (Some l) = Some l" using 3(3) by (simp add: clamp_list_limit_def)
  with list_run_reference [OF 3(1), of "Some l" ck] 3(2) show ?case
    by (auto simp: list_page_of_def paginate_in_memory_def Let_def)
qed

subsection \<open>Properties\<close>

definition sample_query :: "field_selector option \<Rightarrow> json list_query" where
  "sample_query sel = \<lparr>lq_codec = plain_codec, lq_db = sample_db, lq_prefix = ''/registry/pods/'', lq_selector = sel\<rparr>"

lemma sample_query_ok: "list_query_ok (sample_query sel)"
proof -
  have "listable_prefix ''/registry/pods/''" by code_simp
  moreover have "like_exact sample_db ''/registry/pods/''" by code_simp
  moreover have "length (objects sample_db) = 2" by code_simp
  ultimately show ?thesis
    using sample_db_inv by (auto simp: list_query_ok_def sample_query_def db_inv_def split: option.split)
qed



text \<open>C7: pagination. For every positive page size, following the continue keys from the first page
  collects exactly the unlimited listing: no object is skipped, repeated or reordered, for every kind of
  selector, and the chain of pages ends. A page size of zero, which the handlers pass on as it is, gives
  an empty page without a continue key at every position, so its reader is told that nothing is there.\<close>

theorem list_pages_cover:
  assumes "list_query_ok q"
  shows "(0 < l \<longrightarrow> collect_pages (list_fuel q) (list_page_of q l) [] = Some (list_reference q)) \<and>
    list_page_of q 0 ck = Some ([], None)"
proof (intro conjI impI)
  have len: "length (list_reference q) < list_fuel q" by (simp add: list_fuel_def list_reference_def le_imp_less_Suc)
  assume l: "0 < l"
  show "collect_pages (list_fuel q) (list_page_of q l) [] = Some (list_reference q)"
  proof (cases "l < 2 ^ 63 - 2")
    case True
    then show ?thesis by (intro sqlite_list.collect_all assms l len)
  next
    case False
    then have "clamp_list_limit (Some l) = None" by (simp add: clamp_list_limit_def)
    then have "list_page_of q l [] = Some (list_reference q, None)"
      using list_run_reference [OF assms, of "Some l" "[]"]
      by (auto simp: list_page_of_def paginate_in_memory_def after_cursor_def)
    then show ?thesis by (simp add: list_fuel_def)
  qed
next
  show "list_page_of q 0 ck = Some ([], None)"
    using list_run_reference [OF assms, of "Some 0" ck]
    by (auto simp: list_page_of_def paginate_in_memory_def clamp_list_limit_def Let_def)
qed

theorem list_pages_cover_witness:
  "collect_pages 3 (list_page_of (sample_query None) 1) [] = Some (list_reference (sample_query None)) \<and>
   map_option (map so_key \<circ> fst) (list_page_of (sample_query None) 1 []) = Some [''/registry/pods/a/x'']"
proof -
  have "list_fuel (sample_query None) = 3" by code_simp
  moreover have "take 1 (map so_key (list_reference (sample_query None))) = [''/registry/pods/a/x'']"
    "length (list_reference (sample_query None)) = 2" by code_simp+
  then have "map_option (map so_key \<circ> fst) (list_page_of (sample_query None) 1 []) = Some [''/registry/pods/a/x'']"
    using sqlite_list.page_law [OF sample_query_ok, of 1 None "[]"]
    by (simp add: after_cursor_def take_map Let_def)
  ultimately show ?thesis using list_pages_cover [OF sample_query_ok, of 1 None] by simp
qed

lemma remaining_without_selector:
  assumes "lq_selector q = None"
  shows "length (filter (\<lambda>e. starts_with (fst e) (lq_prefix q) \<and> cursor < fst e) (objects (lq_db q))) =
    length (filter (\<lambda>x. cursor < so_key x) (list_reference q))"
  using assms by (simp add: list_reference_def filter_map to_object_def comp_def conj_commute)

text \<open>without a field selector the remaining count of a first page is exact: it is the number
  of objects of the listing that the page does not hold, and it is given exactly when there are some.\<close>

theorem list_remaining_exact:
  assumes "list_query_ok q" and "lq_selector q = None" and "0 < l"
  shows "\<exists>resp. list_run q (Some l) [] = Some (Inr resp) \<and> lr_items resp = take l (list_reference q) \<and>
    lr_remaining resp = (if length (list_reference q) > l then Some (length (list_reference q) - l) else None)"
proof (cases "length (list_reference q) > l")
  case True
  have srt: "sorted_wrt (<) (map so_key (list_reference q))"
    using assms(1) by (simp add: list_query_ok_def list_reference_sorted)
  have "length (list_reference q) \<le> length (objects (lq_db q))" by (simp add: list_reference_def)
  then have "clamp_list_limit (Some l) = Some l"
    using True assms(1) by (simp add: clamp_list_limit_def list_query_ok_def)
  moreover have "filter (\<lambda>x. so_key (last (take l (list_reference q))) < so_key x) (list_reference q) =
      drop l (list_reference q)"
    using True assms(3) by (intro filter_after_last [OF srt]) auto
  ultimately show ?thesis
    using list_run_reference [OF assms(1), of "Some l" "[]"] True assms(3)
    by (auto simp: paginate_in_memory_def Let_def after_cursor_def remaining_without_selector [OF assms(2)])
next
  case False
  then show ?thesis
    using list_run_reference [OF assms(1), of "Some l" "[]"]
    by (auto simp: paginate_in_memory_def Let_def after_cursor_def clamp_list_limit_def)
qed

theorem list_remaining_exact_witness:
  "\<exists>resp. list_run (sample_query None) (Some 1) [] = Some (Inr resp) \<and> lr_remaining resp = Some 1"
proof -
  have "length (list_reference (sample_query None)) = 2" by code_simp
  moreover have "lq_selector (sample_query None) = None" by (simp add: sample_query_def)
  ultimately show ?thesis using list_remaining_exact [OF sample_query_ok, of None 1] by auto
qed

definition mixed_query :: "json list_query" where
  "mixed_query = \<lparr>lq_codec = plain_codec,
     lq_db = put_all empty_db [(''/registry/pods/a/x'', sample_doc ''a'' ''x''),
       (''/registry/pods/a/y'', sample_doc ''a'' ''y''), (''/registry/pods/b/z'', sample_doc ''b'' ''z'')],
     lq_prefix = ''/registry/pods/'',
     lq_selector = Some \<lparr>fs_field = ''metadata.namespace'', fs_value = ''a'', fs_negated = False\<rparr>\<rparr>"

text \<open>with a field selector the remaining count is not the number of objects that remain: it
  counts every row under the prefix behind the page. Two pods of namespace \<^verbatim>\<open>a\<close> and one of
  \<^verbatim>\<open>b\<close>, listed with \<^verbatim>\<open>metadata.namespace=a\<close> one at a time: one object remains after the first
  page, and the response says two.\<close>

theorem list_remaining_ignores_selector:
  "\<exists>resp. list_run mixed_query (Some 1) [] = Some (Inr resp) \<and>
     map so_key (lr_items resp) = [''/registry/pods/a/x''] \<and>
     map so_key (list_reference mixed_query) = [''/registry/pods/a/x'', ''/registry/pods/a/y''] \<and>
     lr_remaining resp = Some 2"
proof -
  have ref: "map so_key (list_reference mixed_query) = [''/registry/pods/a/x'', ''/registry/pods/a/y'']"
    by code_simp
  then obtain u v where uv: "list_reference mixed_query = [u, v]" "so_key u = ''/registry/pods/a/x''"
    by (auto simp: map_eq_Cons_conv)
  have ok: "list_query_ok mixed_query"
  proof -
    have "listable_prefix (lq_prefix mixed_query)" "length (objects (lq_db mixed_query)) = 3"
      "\<not> node_name_branch (lq_prefix mixed_query) (the (lq_selector mixed_query))" by code_simp+
    moreover have "bt_wf (objects (lq_db mixed_query))" by code_simp
    ultimately show ?thesis by (auto simp: list_query_ok_def split: option.split)
  qed
  have "length (filter (\<lambda>e. starts_with (fst e) (lq_prefix mixed_query) \<and> ''/registry/pods/a/x'' < fst e)
      (objects (lq_db mixed_query))) = 2" by code_simp
  then show ?thesis
    using list_run_reference [OF ok, of "Some 1" "[]"] ref
    by (auto simp: paginate_in_memory_def clamp_list_limit_def Let_def after_cursor_def uv)
qed

text \<open>a LIST that ran on a pooled read connection is current: whatever earlier state the
  connection saw, the revision comparison either accepts a snapshot that is the current state or
  repeats the query, so the answer is the one the current state gives.\<close>

theorem list_guarded_current:
  assumes "codec_ok c" and "db_inv c snapshot" and "db_steps c snapshot d"
    and "list_sync fuel c snapshot p opts = Some (Inr resp)"
  shows "list_guarded fuel c snapshot d p opts = list_sync fuel c d p opts"
proof -
  have "lr_revision resp = meta_revision snapshot"
    using assms(4) by (auto simp: list_sync_def split: option.splits prod.splits)
  with db_steps_progress [OF assms(3,1,2)] assms(4) show ?thesis
    by (auto simp: list_guarded_def)
qed

theorem list_guarded_current_witness:
  "list_guarded 5 plain_codec (empty_db :: json db) sample_db ''/registry/pods/'' (list_options_of (sample_query None) None []) =
   list_sync 5 plain_codec sample_db ''/registry/pods/'' (list_options_of (sample_query None) None [])"
proof -
  have "is_ok (the (list_sync 5 plain_codec (empty_db :: json db) ''/registry/pods/''
      (list_options_of (sample_query None) None [])))"
    "list_sync 5 plain_codec (empty_db :: json db) ''/registry/pods/''
      (list_options_of (sample_query None) None []) \<noteq> None" by code_simp+
  then obtain resp where "list_sync 5 plain_codec (empty_db :: json db) ''/registry/pods/''
      (list_options_of (sample_query None) None []) = Some (Inr resp)"
    by (auto simp: is_ok_def split: sum.splits)
  from list_guarded_current [OF plain_codec_ok empty_db_inv sample_db_steps this] show ?thesis .
qed

subsection \<open>The indexed branches and the scan\<close>

text \<open>A member of a member that is a string, null or absent.\<close>

definition text_at :: "json \<Rightarrow> string \<Rightarrow> string \<Rightarrow> bool" where
  "text_at j a f = (case json_idx (json_idx j a) f of JNull \<Rightarrow> True | JStr _ \<Rightarrow> True | _ \<Rightarrow> False)"

definition text_fields :: "'b codec \<Rightarrow> 'b db \<Rightarrow> string \<Rightarrow> bool" where
  "text_fields c d p =
     list_all (\<lambda>e. starts_with (fst e) p \<longrightarrow>
       (case from_slice c (row_value (snd e)) of
          None \<Rightarrow> False
        | Some j \<Rightarrow> text_at j ''metadata'' ''name'' \<and> text_at j ''metadata'' ''namespace'' \<and> text_at j ''spec'' ''nodeName''))
       (objects d)"

definition equals_selector :: "string \<Rightarrow> string \<Rightarrow> field_selector" where
  "equals_selector field val = \<lparr>fs_field = field, fs_value = val, fs_negated = False\<rparr>"

lemma text_path_equals:
  assumes "text_at j a f" and "val \<noteq> ''false''"
  shows "path_equals j [a, f] val \<longleftrightarrow> (case as_str (json_idx (json_idx j a) f) of Some s \<Rightarrow> s = val | None \<Rightarrow> val = [])"
proof (cases "json_get j a")
  case None
  with assms show ?thesis by (simp add: json_idx_def)
next
  case (Some m)
  show ?thesis
  proof (cases "json_get m f")
    case None
    with Some assms show ?thesis by (simp add: json_idx_def)
  next
    case (Some v)
    with \<open>json_get j a = Some m\<close> assms show ?thesis
      by (cases v) (simp_all add: text_at_def json_idx_def scalar_equals_def)
  qed
qed

lemma matches_text:
  assumes "from_slice c v = Some j" and "text_at j a f" and "val \<noteq> ''false''" and "split_char CHR ''.'' field = [a, f]"
  shows "matches_selector c (equals_selector field val) v \<longleftrightarrow>
    (case as_str (json_idx (json_idx j a) f) of Some s \<Rightarrow> s = val | None \<Rightarrow> val = [])"
  using assms(1,4) text_path_equals [OF assms(2,3)] by (simp add: matches_selector_def json_path_equals_def equals_selector_def)

lemma indexed_conditions:
  assumes "row_ok c r" and "from_slice c (row_value r) = Some j" and "val \<noteq> ''false''"
    and "text_at j ''metadata'' ''name''" and "text_at j ''metadata'' ''namespace''" and "text_at j ''spec'' ''nodeName''"
  shows "val \<noteq> [] \<Longrightarrow> row_name r = Some val \<longleftrightarrow> matches_selector c (equals_selector ''metadata.name'' val) (row_value r)"
    and "row_ns r = Some val \<or> val = [] \<and> row_ns r = None \<longleftrightarrow>
      matches_selector c (equals_selector ''metadata.namespace'' val) (row_value r)"
    and "(case json_extract_node_name c (row_value r) of
        SqlText s \<Rightarrow> s = val | SqlNull \<Rightarrow> val = [] | SqlOther \<Rightarrow> False) \<longleftrightarrow>
      matches_selector c (equals_selector ''spec.nodeName'' val) (row_value r)"
proof -
  have dots: "split_char CHR ''.'' ''metadata.name'' = [''metadata'', ''name'']"
    "split_char CHR ''.'' ''metadata.namespace'' = [''metadata'', ''namespace'']"
    "split_char CHR ''.'' ''spec.nodeName'' = [''spec'', ''nodeName'']" by code_simp+
  have cols: "row_ns r = doc_meta_str j ''namespace''" "row_name r = doc_meta_str j ''name''"
    using assms(1,2) by (simp_all add: row_ok_def)
  note equal = matches_text [OF assms(2) _ assms(3)]
  show "val \<noteq> [] \<Longrightarrow> row_name r = Some val \<longleftrightarrow> matches_selector c (equals_selector ''metadata.name'' val) (row_value r)"
    using equal [OF assms(4) dots(1)] cols(2) by (auto simp: doc_meta_str_def split: option.splits)
  show "row_ns r = Some val \<or> val = [] \<and> row_ns r = None \<longleftrightarrow>
      matches_selector c (equals_selector ''metadata.namespace'' val) (row_value r)"
    using equal [OF assms(5) dots(2)] cols(1) by (auto simp: doc_meta_str_def split: option.splits)
  show "(case json_extract_node_name c (row_value r) of
        SqlText s \<Rightarrow> s = val | SqlNull \<Rightarrow> val = [] | SqlOther \<Rightarrow> False) \<longleftrightarrow>
      matches_selector c (equals_selector ''spec.nodeName'' val) (row_value r)"
    using equal [OF assms(6) dots(3)] assms(2,6) by (auto simp: json_extract_node_name_def text_at_def split: json.splits)
qed

text \<open>What an indexed branch does and what the scan does, when their conditions agree on the rows under the prefix.\<close>

lemma scan_agrees:
  assumes "bt_wf (objects d)" and "listable_prefix p" and "prefix_upper_bound p = Some upper"
    and "length (objects d) < 2 ^ 63 - 2"
    and "\<And>e. e \<in> set (objects d) \<Longrightarrow> cond e = (starts_with (fst e) p \<and> matches_selector c sel (row_value (snd e)))"
  shows "list_by_scan (Suc (length (objects d))) c d p upper sel ck limit =
    Some (paginate_in_memory (query_rows d cond ck (map_option Suc (clamp_list_limit limit))) (clamp_list_limit limit))"
proof -
  have p: "p \<noteq> []" using assms(2) by (simp add: listable_prefix_def)
  have "list_by_scan (Suc (length (objects d))) c d p upper sel ck limit =
    Some (paginate_in_memory (filter (\<lambda>x. after_cursor ck (so_key x))
       (map to_object (filter (\<lambda>e. starts_with (fst e) p \<and> matches_selector c sel (row_value (snd e))) (objects d))))
       (clamp_list_limit limit))"
    unfolding list_by_scan_def
    by (rule generic_page [OF assms(1) _ p assms(4)]) (simp add: listable_prefix_range [OF assms(2,3)])
  moreover have "paginate_in_memory (query_rows d cond ck (map_option Suc (clamp_list_limit limit))) (clamp_list_limit limit) =
    paginate_in_memory (filter (\<lambda>x. after_cursor ck (so_key x))
       (map to_object (filter (\<lambda>e. starts_with (fst e) p \<and> matches_selector c sel (row_value (snd e))) (objects d))))
       (clamp_list_limit limit)"
    by (rule indexed_page) (rule assms(5))
  ultimately show ?thesis by simp
qed

text \<open>C35: the indexed branches of LIST return the page that the generic scan, which parses every document,
  would return, for every limit and continue key: the branch by name for a value that is not empty, the
  branch by namespace, and the branch by node name when the prefix and the keys make \<^verbatim>\<open>LIKE\<close> exact. It
  holds for a table in which the name, namespace and node name of the rows under the prefix are strings,
  null or absent, and for every value but \<^verbatim>\<open>false\<close>, which the generic comparison also accepts for an
  absent field (as it does the empty name).\<close>

theorem indexed_branches_agree:
  assumes "db_inv c d" and "listable_prefix p" and "prefix_upper_bound p = Some upper"
    and "length (objects d) < 2 ^ 63 - 2" and "text_fields c d p" and "val \<noteq> ''false''"
  shows "(val \<noteq> [] \<longrightarrow>
      Some (list_by_name d p upper (equals_selector ''metadata.name'' val) ck (clamp_list_limit limit)) =
      list_by_scan (Suc (length (objects d))) c d p upper (equals_selector ''metadata.name'' val) ck limit) \<and>
    Some (list_by_namespace d p upper (equals_selector ''metadata.namespace'' val) ck (clamp_list_limit limit)) =
      list_by_scan (Suc (length (objects d))) c d p upper (equals_selector ''metadata.namespace'' val) ck limit \<and>
    (like_exact d p \<longrightarrow>
      Some (list_by_node_name c d p (equals_selector ''spec.nodeName'' val) ck (clamp_list_limit limit)) =
      list_by_scan (Suc (length (objects d))) c d p upper (equals_selector ''spec.nodeName'' val) ck limit)"
proof (intro conjI impI)
  have wf: "bt_wf (objects d)" using assms(1) by (simp add: db_inv_def)
  note scan = scan_agrees [OF wf assms(2-4)]
  note range = listable_prefix_range [OF assms(2,3)]
  have val: "fs_value (equals_selector field val) = val" for field by (simp add: equals_selector_def)
  have row: "\<exists>j. row_ok c (snd e) \<and> from_slice c (row_value (snd e)) = Some j \<and>
      text_at j ''metadata'' ''name'' \<and> text_at j ''metadata'' ''namespace'' \<and> text_at j ''spec'' ''nodeName''"
    if "e \<in> set (objects d)" "starts_with (fst e) p" for e
    using assms(1,5) that by (auto simp: db_inv_def rows_bounded_def text_fields_def list_all_iff split: option.splits)
  have cond: "val \<noteq> [] \<Longrightarrow> (starts_with (fst e) p \<and> row_name (snd e) = Some val) =
        (starts_with (fst e) p \<and> matches_selector c (equals_selector ''metadata.name'' val) (row_value (snd e)))"
    "(starts_with (fst e) p \<and> (row_ns (snd e) = Some val \<or> val = [] \<and> row_ns (snd e) = None)) =
        (starts_with (fst e) p \<and> matches_selector c (equals_selector ''metadata.namespace'' val) (row_value (snd e)))"
    "(starts_with (fst e) p \<and> (case json_extract_node_name c (row_value (snd e)) of
          SqlText s \<Rightarrow> s = val | SqlNull \<Rightarrow> val = [] | SqlOther \<Rightarrow> False)) =
        (starts_with (fst e) p \<and> matches_selector c (equals_selector ''spec.nodeName'' val) (row_value (snd e)))"
    if "e \<in> set (objects d)" for e
    using row [OF that] indexed_conditions [OF _ _ assms(6), of c "snd e"] by blast+
  show "Some (list_by_name d p upper (equals_selector ''metadata.name'' val) ck (clamp_list_limit limit)) =
      list_by_scan (Suc (length (objects d))) c d p upper (equals_selector ''metadata.name'' val) ck limit" if "val \<noteq> []"
    unfolding list_by_name_def val range by (rule scan [symmetric]) (rule cond(1) [OF _ that])
  show "Some (list_by_namespace d p upper (equals_selector ''metadata.namespace'' val) ck (clamp_list_limit limit)) =
      list_by_scan (Suc (length (objects d))) c d p upper (equals_selector ''metadata.namespace'' val) ck limit"
    unfolding list_by_namespace_def val range by (rule scan [symmetric]) (rule cond(2))
  show "Some (list_by_node_name c d p (equals_selector ''spec.nodeName'' val) ck (clamp_list_limit limit)) =
      list_by_scan (Suc (length (objects d))) c d p upper (equals_selector ''spec.nodeName'' val) ck limit" if "like_exact d p"
  proof -
    have "sql_like (p @ ''%'') (fst e) = starts_with (fst e) p" if "e \<in> set (objects d)" for e
      using that \<open>like_exact d p\<close> sql_like_prefix [of p "fst e"] by (auto simp: like_exact_def starts_with_iff_prefix)
    then show ?thesis
      unfolding list_by_node_name_def val by (intro scan [symmetric]) (simp only: cond(3))
  qed
qed

theorem indexed_branches_agree_witness:
  "Some (list_by_name sample_db ''/registry/pods/'' ''/registry/pods0'' (equals_selector ''metadata.name'' ''x'') [] (Some 5)) =
     list_by_scan 3 plain_codec sample_db ''/registry/pods/'' ''/registry/pods0'' (equals_selector ''metadata.name'' ''x'') [] (Some 5) \<and>
   map so_key (fst (list_by_name sample_db ''/registry/pods/'' ''/registry/pods0'' (equals_selector ''metadata.name'' ''x'') [] (Some 5))) =
     [''/registry/pods/a/x'']"
proof -
  have "listable_prefix ''/registry/pods/''" "prefix_upper_bound ''/registry/pods/'' = Some ''/registry/pods0''"
    "text_fields plain_codec sample_db ''/registry/pods/''" "length (objects sample_db) = 2"
    "map so_key (fst (list_by_name sample_db ''/registry/pods/'' ''/registry/pods0'' (equals_selector ''metadata.name'' ''x'') [] (Some 5))) =
       [''/registry/pods/a/x'']" by code_simp+
  then show ?thesis
    using indexed_branches_agree [OF sample_db_inv, of "''/registry/pods/''" "''/registry/pods0''" "''x''" "[]" "Some 5"]
    by (simp add: numeral_3_eq_3 clamp_list_limit_def)
qed

end
