(* ===== verification/Store_Shards.thy ===== *)
theory Store_Shards
  imports Store_Db
begin

text \<open>
  The watch history of \<^verbatim>\<open>crates/store/src/sqlite.rs\<close>: a shard per watched prefix with its ring of
  recent events, its compaction horizon and its two-tier deletion log (\<^verbatim>\<open>push_into_shard\<close>), the
  map of shards and the way a write and a watch find theirs (\<^verbatim>\<open>shard_key\<close>,
  \<^verbatim>\<open>matching_shards\<close>, \<^verbatim>\<open>find_shard\<close>), and the horizons kept of shards that were reclaimed.
  A shard's identity (its \<^verbatim>\<open>Arc\<close>) is a number; the hash maps' iteration order is a parameter.
\<close>

subsection \<open>Events\<close>

record 'b internal_event =
  ie_key :: string
  ie_revision :: rev
  ie_value :: "'b option"
  ie_is_create :: bool
  ie_deleted_body :: "'b option"

datatype 'b watch_event =
    Added "'b store_object"
  | Modified "'b store_object"
  | Deleted string rev "'b option"
  | Bookmark rev
  | Compacted rev rev

definition internal_to_watch :: "'b internal_event \<Rightarrow> 'b watch_event" where
  "internal_to_watch e =
     (case ie_value e of
        Some v \<Rightarrow>
          (let ob = \<lparr>so_key = ie_key e, so_value = v, so_revision = ie_revision e\<rparr>
           in if ie_is_create e then Added ob else Modified ob)
      | None \<Rightarrow> Deleted (ie_key e) (ie_revision e) (ie_deleted_body e))"

subsection \<open>The deletion log\<close>

datatype 'b log_entry = Full "'b internal_event" | Stripped rev

fun entry_revision :: "'b log_entry \<Rightarrow> rev" where
  "entry_revision (Full e) = ie_revision e"
| "entry_revision (Stripped r) = r"

fun to_watch_event :: "string \<Rightarrow> 'b log_entry \<Rightarrow> 'b watch_event" where
  "to_watch_event key (Full e) = internal_to_watch e"
| "to_watch_event key (Stripped r) = Deleted key r None"

record 'b deletion_log =
  by_key :: "(string, 'b log_entry) btree"
  by_revision :: "(rev, string) btree"
  full_revisions :: "(rev, unit) btree"

definition empty_log :: "'b deletion_log" where
  "empty_log = \<lparr>by_key = [], by_revision = [], full_revisions = []\<rparr>"

definition ring_capacity :: nat where
  "ring_capacity = 512"

definition log_insert :: "'b internal_event \<Rightarrow> 'b deletion_log \<Rightarrow> 'b deletion_log" where
  "log_insert e l =
     \<lparr>by_key = bt_insert (ie_key e) (Full e) (by_key l),
      by_revision = bt_insert (ie_revision e) (ie_key e) (by_revision l),
      full_revisions = bt_insert (ie_revision e) () (full_revisions l)\<rparr>"

text \<open>Tier 1: more full tombstones than the ring holds events strip the oldest one of its body.\<close>

definition log_downgrade :: "'b deletion_log \<Rightarrow> 'b deletion_log" where
  "log_downgrade l =
     (if length (full_revisions l) > ring_capacity then
        (case full_revisions l of
           [] \<Rightarrow> l
         | (r, _) # rest \<Rightarrow>
             (case map_of (by_revision l) r of
                Some k \<Rightarrow> l\<lparr>full_revisions := rest, by_key := bt_insert k (Stripped r) (by_key l)\<rparr>
              | None \<Rightarrow> l\<lparr>full_revisions := rest\<rparr>))
      else l)"

text \<open>Tier 2: a log twice as long as the ring loses its oldest tombstone.\<close>

definition log_evict :: "'b deletion_log \<Rightarrow> 'b deletion_log" where
  "log_evict l =
     (if length (by_key l) > 2 * ring_capacity then
        (case by_revision l of
           [] \<Rightarrow> l
         | (r, k) # rest \<Rightarrow>
             \<lparr>by_key = bt_remove k (by_key l), by_revision = rest,
              full_revisions = bt_remove r (full_revisions l)\<rparr>)
      else l)"

definition log_forget :: "string \<Rightarrow> 'b deletion_log \<Rightarrow> 'b deletion_log" where
  "log_forget key l =
     (case map_of (by_key l) key of
        None \<Rightarrow> l
      | Some old \<Rightarrow>
          \<lparr>by_key = bt_remove key (by_key l),
           by_revision = bt_remove (entry_revision old) (by_revision l),
           full_revisions = bt_remove (entry_revision old) (full_revisions l)\<rparr>)"

definition push_log :: "'b internal_event \<Rightarrow> 'b deletion_log \<Rightarrow> 'b deletion_log" where
  "push_log e l =
     (if ie_value e = None then log_evict (log_downgrade (log_insert e l))
      else log_forget (ie_key e) l)"

subsection \<open>The ring\<close>

record 'b ring_shard =
  sh_id :: nat
  sh_ring :: "'b internal_event list"
  sh_push_secs :: "nat list"
  sh_horizon :: rev
  sh_log :: "'b deletion_log"
  sh_watchers :: nat

definition new_shard :: "nat \<Rightarrow> rev \<Rightarrow> 'b ring_shard" where
  "new_shard i h =
     \<lparr>sh_id = i, sh_ring = [], sh_push_secs = [], sh_horizon = h, sh_log = empty_log, sh_watchers = 0\<rparr>"

text \<open>The floor a push sets when it evicts: the revision of the oldest event still held.\<close>

definition evicted_floor :: "'b internal_event list \<Rightarrow> rev" where
  "evicted_floor r =
     (if length r > ring_capacity then (case tl r of [] \<Rightarrow> 0 | oldest # _ \<Rightarrow> ie_revision oldest) else 0)"

definition push_into_shard ::
    "nat \<Rightarrow> 'b internal_event \<Rightarrow> 'b ring_shard \<Rightarrow> rev \<Rightarrow> 'b ring_shard \<times> rev" where
  "push_into_shard now e s global_horizon =
     (let r = sh_ring s @ [e];
          secs = sh_push_secs s @ [now];
          full = length r > ring_capacity
      in (s\<lparr>sh_ring := (if full then tl r else r),
            sh_push_secs := (if full then tl secs else secs),
            sh_horizon := max (sh_horizon s) (evicted_floor r),
            sh_log := push_log e (sh_log s)\<rparr>,
          max global_horizon (evicted_floor r)))"

subsection \<open>Finding shards\<close>

definition parent_prefix :: "string \<Rightarrow> string option" where
  "parent_prefix p =
     (let trimmed = (case strip_suffix p ''/'' of Some t \<Rightarrow> t | None \<Rightarrow> p)
      in map_option (\<lambda>(root, _). root @ ''/'') (rsplit_once CHR ''/'' trimmed))"

definition strip_segment :: "string \<Rightarrow> string" where
  "strip_segment s = (case rsplit_once CHR ''/'' s of Some (head, _) \<Rightarrow> head | None \<Rightarrow> s)"

definition shard_key :: "string \<Rightarrow> string option \<Rightarrow> string" where
  "shard_key key ns =
     (strip_segment ^^ (if ns \<noteq> None then 2 else 1)) key @ ''/''"

type_synonym 'b shards = "(string, 'b ring_shard) btree"

definition find_shard_key :: "'b shards \<Rightarrow> string \<Rightarrow> (string \<times> 'b ring_shard) option" where
  "find_shard_key m p =
     (case map_of m p of
        Some s \<Rightarrow> Some (p, s)
      | None \<Rightarrow>
          (case parent_prefix p of
             None \<Rightarrow> None
           | Some q \<Rightarrow> map_option (\<lambda>s. (q, s)) (map_of m q)))"

definition find_shard :: "'b shards \<Rightarrow> string \<Rightarrow> 'b ring_shard option" where
  "find_shard m p =
     (case map_of m p of
        Some s \<Rightarrow> Some s
      | None \<Rightarrow> (case parent_prefix p of None \<Rightarrow> None | Some q \<Rightarrow> map_of m q))"

definition matching_shards :: "'b shards \<Rightarrow> string \<Rightarrow> string option \<Rightarrow> (string \<times> 'b ring_shard) list" where
  "matching_shards m root ns =
     (case map_of m root of Some s \<Rightarrow> [(root, s)] | None \<Rightarrow> []) @
     (case ns of
        None \<Rightarrow> []
      | Some n \<Rightarrow> (case map_of m (root @ n @ ''/'') of Some s \<Rightarrow> [(root @ n @ ''/'', s)] | None \<Rightarrow> []))"

subsection \<open>Reclaimed horizons\<close>

record reclaimed_horizons =
  rh_entries :: "(string, rev) btree"
  rh_overflow :: rev

definition max_reclaimed_horizons :: nat where
  "max_reclaimed_horizons = 4096"

definition find_reclaimed_horizon :: "reclaimed_horizons \<Rightarrow> string \<Rightarrow> rev" where
  "find_reclaimed_horizon rh p =
     (case map_of (rh_entries rh) p of
        Some h \<Rightarrow> h
      | None \<Rightarrow>
          (case Option.bind (parent_prefix p) (map_of (rh_entries rh)) of
             Some h \<Rightarrow> h
           | None \<Rightarrow> rh_overflow rh))"

fun first_min :: "(string \<times> rev) list \<Rightarrow> (string \<times> rev) option" where
  "first_min [] = None"
| "first_min (e # es) =
     (case first_min es of
        None \<Rightarrow> Some e
      | Some m \<Rightarrow> Some (if snd m < snd e then m else e))"

definition shard_floor :: "'b ring_shard \<Rightarrow> rev" where
  "shard_floor s = max (sh_horizon s) (if sh_ring s = [] then 0 else ie_revision (last (sh_ring s)))"

definition preserve_reclaimed_horizon ::
    "((string \<times> rev) list \<Rightarrow> (string \<times> rev) list) \<Rightarrow> string \<Rightarrow> 'b ring_shard \<Rightarrow>
       reclaimed_horizons \<Rightarrow> reclaimed_horizons" where
  "preserve_reclaimed_horizon hash_order key s rh =
     (let h = shard_floor s in
      if h = 0 then rh
      else
        (let entries = bt_insert key h (rh_entries rh) in
         if length entries \<le> max_reclaimed_horizons then rh\<lparr>rh_entries := entries\<rparr>
         else
           (case first_min (hash_order entries) of
              None \<Rightarrow> rh\<lparr>rh_entries := entries\<rparr>
            | Some (victim, vh) \<Rightarrow>
                \<lparr>rh_entries = bt_remove victim entries, rh_overflow = max (rh_overflow rh) vh\<rparr>)))"

subsection \<open>The log's indices agree\<close>

text \<open>The three indices of the log as maps: revisions name the tombstones, and one set names the full ones.\<close>

definition full_at :: "(string \<rightharpoonup> 'b log_entry) \<Rightarrow> rev \<Rightarrow> string \<Rightarrow> bool" where
  "full_at K r k = (case K k of Some (Full e) \<Rightarrow> ie_revision e = r | _ \<Rightarrow> False)"

definition log_maps ::
    "(string \<rightharpoonup> 'b log_entry) \<Rightarrow> (rev \<rightharpoonup> string) \<Rightarrow> rev set \<Rightarrow> bool" where
  "log_maps K R F =
     ((\<forall>r k. R r = Some k \<longleftrightarrow> (\<exists>en. K k = Some en \<and> entry_revision en = r)) \<and>
      (\<forall>r. r \<in> F \<longleftrightarrow> (\<exists>k. full_at K r k)) \<and>
      (\<forall>k e. K k = Some (Full e) \<longrightarrow> ie_key e = k \<and> ie_value e = None))"

definition log_wf :: "'b deletion_log \<Rightarrow> bool" where
  "log_wf l =
     (bt_wf (by_key l) \<and> bt_wf (by_revision l) \<and> bt_wf (full_revisions l) \<and>
      log_maps (map_of (by_key l)) (map_of (by_revision l)) (fst ` set (full_revisions l)))"

definition log_caps :: "'b deletion_log \<Rightarrow> bool" where
  "log_caps l = (length (full_revisions l) \<le> ring_capacity \<and> length (by_key l) \<le> 2 * ring_capacity)"

lemma full_at_upd:
  "full_at (K(k := v)) r k' =
    (if k' = k then (case v of Some (Full e) \<Rightarrow> ie_revision e = r | _ \<Rightarrow> False) else full_at K r k')"
  by (simp add: full_at_def)

lemma ex_full_at_upd:
  "(\<exists>k'. full_at (K(k := v)) r k') \<longleftrightarrow>
    (case v of Some (Full e) \<Rightarrow> ie_revision e = r | _ \<Rightarrow> False) \<or> (\<exists>k'. k' \<noteq> k \<and> full_at K r k')"
  unfolding full_at_upd by metis

lemma full_at_revision: "full_at K r k \<Longrightarrow> \<exists>en. K k = Some en \<and> entry_revision en = r"
  by (auto simp: full_at_def split: option.splits log_entry.splits)

lemma log_mapsD:
  assumes "log_maps K R F"
  shows "R r = Some k \<longleftrightarrow> (\<exists>en. K k = Some en \<and> entry_revision en = r)"
    and "r \<in> F \<longleftrightarrow> (\<exists>k. full_at K r k)"
    and "K k = Some (Full e) \<Longrightarrow> ie_key e = k \<and> ie_value e = None"
  using assms unfolding log_maps_def by blast+

lemma log_maps_unique:
  assumes "log_maps K R F" and "R r = Some k" and "K k' = Some en" and "entry_revision en = r"
  shows "k' = k"
  using log_mapsD(1) [OF assms(1), of r k'] assms(2-4) by auto

lemma log_maps_insert:
  assumes "log_maps K R F" and "K (ie_key e) = None" and "R (ie_revision e) = None" and "ie_value e = None"
  shows "log_maps (K(ie_key e \<mapsto> Full e)) (R(ie_revision e \<mapsto> ie_key e)) (insert (ie_revision e) F)"
  unfolding log_maps_def
proof (intro conjI allI)
  note D = log_mapsD [OF assms(1)]
  have fresh: "entry_revision en \<noteq> ie_revision e" if "K k = Some en" for k en
    using D(1) [of "ie_revision e" k] assms(3) that by auto
  fix r k
  show "(R(ie_revision e \<mapsto> ie_key e)) r = Some k \<longleftrightarrow>
      (\<exists>en. (K(ie_key e \<mapsto> Full e)) k = Some en \<and> entry_revision en = r)"
    using fresh [of k] D(1) [of r k] assms(2) by (cases "k = ie_key e"; cases "r = ie_revision e") auto
  have "\<not> full_at K r (ie_key e)" using assms(2) by (simp add: full_at_def)
  then show "r \<in> insert (ie_revision e) F \<longleftrightarrow> (\<exists>k. full_at (K(ie_key e \<mapsto> Full e)) r k)"
    unfolding ex_full_at_upd insert_iff D(2) option.case log_entry.case by metis
next
  fix k ev
  show "(K(ie_key e \<mapsto> Full e)) k = Some (Full ev) \<longrightarrow> ie_key ev = k \<and> ie_value ev = None"
    using log_mapsD(3) [OF assms(1), of k ev] assms(4) by auto
qed

lemma log_maps_downgrade:
  assumes "log_maps K R F" and "R r = Some k"
  shows "log_maps (K(k \<mapsto> Stripped r)) R (F - {r})"
  unfolding log_maps_def
proof (intro conjI allI)
  note D = log_mapsD [OF assms(1)]
  obtain en where en: "K k = Some en" "entry_revision en = r" using D(1) assms(2) by blast
  note only = log_maps_unique [OF assms]
  fix r' k'
  show "R r' = Some k' \<longleftrightarrow> (\<exists>en. (K(k \<mapsto> Stripped r)) k' = Some en \<and> entry_revision en = r')"
    using D(1) [of r' k'] en by (cases "k' = k") auto
  have "full_at K r' k' \<Longrightarrow> k' = k \<longleftrightarrow> r' = r" for k'
    using full_at_revision [of K r' k'] only [of k'] en by auto
  then show "r' \<in> F - {r} \<longleftrightarrow> (\<exists>k'. full_at (K(k \<mapsto> Stripped r)) r' k')"
    unfolding ex_full_at_upd Diff_iff D(2) by auto
next
  fix k' e
  show "(K(k \<mapsto> Stripped r)) k' = Some (Full e) \<longrightarrow> ie_key e = k' \<and> ie_value e = None"
    using log_mapsD(3) [OF assms(1), of k' e] by auto
qed

lemma log_maps_remove:
  assumes "log_maps K R F" and "R r = Some k"
  shows "log_maps (K(k := None)) (R(r := None)) (F - {r})"
  unfolding log_maps_def
proof (intro conjI allI)
  note D = log_mapsD [OF assms(1)]
  obtain en where en: "K k = Some en" "entry_revision en = r" using D(1) assms(2) by blast
  note only = log_maps_unique [OF assms]
  fix r' k'
  have "R r' = Some k' \<Longrightarrow> k' = k \<longleftrightarrow> r' = r"
    using D(1) [of r' k'] only [of k'] en assms(2) by auto
  then show "(R(r := None)) r' = Some k' \<longleftrightarrow> (\<exists>en. (K(k := None)) k' = Some en \<and> entry_revision en = r')"
    unfolding fun_upd_apply using D(1) [of r' k'] by (cases "k' = k"; cases "r' = r") auto
  have "full_at K r' k' \<Longrightarrow> k' = k \<longleftrightarrow> r' = r" for k'
    using full_at_revision [of K r' k'] only [of k'] en by auto
  then show "r' \<in> F - {r} \<longleftrightarrow> (\<exists>k'. full_at (K(k := None)) r' k')"
    unfolding ex_full_at_upd Diff_iff D(2) option.case by blast
next
  fix k' e
  show "(K(k := None)) k' = Some (Full e) \<longrightarrow> ie_key e = k' \<and> ie_value e = None"
    using log_mapsD(3) [OF assms(1), of k' e] by auto
qed

text \<open>The observable content of the log: the revision at which a key was deleted.\<close>

definition log_revisions :: "'b deletion_log \<Rightarrow> string \<Rightarrow> rev option" where
  "log_revisions l k = map_option entry_revision (map_of (by_key l) k)"

definition log_fresh :: "'b internal_event \<Rightarrow> 'b deletion_log \<Rightarrow> bool" where
  "log_fresh e l =
     (ie_value e = None \<longrightarrow>
        map_of (by_key l) (ie_key e) = None \<and> (\<forall>x \<in> set (by_revision l). fst x < ie_revision e))"

lemma log_insert_wf:
  assumes "log_wf l" and "log_fresh e l" and "ie_value e = None"
  shows "log_wf (log_insert e l)" and "length (by_key (log_insert e l)) = Suc (length (by_key l))"
    and "length (full_revisions (log_insert e l)) \<le> Suc (length (full_revisions l))"
proof -
  have key: "map_of (by_key l) (ie_key e) = None" "map_of (by_revision l) (ie_revision e) = None"
    using assms(2,3) by (auto simp: log_fresh_def map_of_eq_None_iff)
  then show "log_wf (log_insert e l)"
    using assms(1,3) by (simp add: log_wf_def log_insert_def log_maps_insert)
  have "ie_key e \<notin> fst ` set (by_key l)" using key(1) by (simp add: map_of_eq_None_iff)
  then show "length (by_key (log_insert e l)) = Suc (length (by_key l))"
    using assms(1) by (simp add: log_wf_def log_insert_def length_bt_insert)
  show "length (full_revisions (log_insert e l)) \<le> Suc (length (full_revisions l))"
    using assms(1) by (simp add: log_wf_def log_insert_def length_bt_insert)
qed

lemma log_downgrade_cases:
  assumes "log_wf l"
  obtains (same) "log_downgrade l = l" "length (full_revisions l) \<le> ring_capacity"
    | (down) r k rest where "full_revisions l = (r, ()) # rest" "map_of (by_revision l) r = Some k"
        "log_downgrade l = l\<lparr>full_revisions := rest, by_key := bt_insert k (Stripped r) (by_key l)\<rparr>"
proof (cases "length (full_revisions l) > ring_capacity")
  case False
  then show ?thesis by (intro same) (simp_all add: log_downgrade_def)
next
  case True
  then obtain r rest where full: "full_revisions l = (r, ()) # rest"
    by (cases "full_revisions l") auto
  have maps: "log_maps (map_of (by_key l)) (map_of (by_revision l)) (fst ` set (full_revisions l))"
    using assms by (simp add: log_wf_def)
  have "r \<in> fst ` set (full_revisions l)" by (simp add: full)
  then obtain k where k: "full_at (map_of (by_key l)) r k" using log_mapsD(2) [OF maps] by blast
  then have "map_of (by_revision l) r = Some k"
    using full_at_revision log_mapsD(1) [OF maps] by blast
  then show ?thesis using True full by (intro down [of r rest k]) (simp_all add: log_downgrade_def)
qed

lemma log_downgrade_wf:
  assumes "log_wf l"
  shows "log_wf (log_downgrade l)" and "log_revisions (log_downgrade l) = log_revisions l"
    and "length (by_key (log_downgrade l)) = length (by_key l)"
    and "length (full_revisions l) \<le> Suc ring_capacity \<Longrightarrow> length (full_revisions (log_downgrade l)) \<le> ring_capacity"
    and "by_revision (log_downgrade l) = by_revision l"
proof -
  have wf: "bt_wf (by_key l)" "bt_wf (full_revisions l)" "bt_wf (by_revision l)"
    and maps: "log_maps (map_of (by_key l)) (map_of (by_revision l)) (fst ` set (full_revisions l))"
    using assms by (simp_all add: log_wf_def)
  from assms have "log_wf (log_downgrade l) \<and> log_revisions (log_downgrade l) = log_revisions l \<and>
      length (by_key (log_downgrade l)) = length (by_key l) \<and>
      (length (full_revisions l) \<le> Suc ring_capacity \<longrightarrow> length (full_revisions (log_downgrade l)) \<le> ring_capacity) \<and>
      by_revision (log_downgrade l) = by_revision l"
  proof (cases rule: log_downgrade_cases)
    case same
    then show ?thesis using assms by simp
  next
    case (down r k rest)
    obtain en where en: "map_of (by_key l) k = Some en" "entry_revision en = r"
      using log_mapsD(1) [OF maps] down(2) by blast
    have "k \<in> fst ` set (by_key l)" using en(1) by (metis domI dom_map_of_conv_image_fst)
    then have len: "length (bt_insert k (Stripped r) (by_key l)) = length (by_key l)"
      using wf(1) by (simp add: length_bt_insert)
    have rest: "\<forall>x \<in> set rest. r < fst x" "bt_wf rest" using wf(2) by (simp_all add: down(1) bt_wf_Cons)
    then have "fst ` set rest = fst ` set (full_revisions l) - {r}" by (auto simp: down(1))
    then have "log_wf (log_downgrade l)"
      using wf rest(2) log_maps_downgrade [OF maps down(2)] by (simp add: down(3) log_wf_def)
    moreover have "log_revisions (log_downgrade l) = log_revisions l"
      using en by (auto simp: down(3) log_revisions_def fun_eq_iff)
    ultimately show ?thesis using len by (simp add: down(1,3))
  qed
  then show "log_wf (log_downgrade l)" "log_revisions (log_downgrade l) = log_revisions l"
    "length (by_key (log_downgrade l)) = length (by_key l)"
    "length (full_revisions l) \<le> Suc ring_capacity \<Longrightarrow> length (full_revisions (log_downgrade l)) \<le> ring_capacity"
    "by_revision (log_downgrade l) = by_revision l"
    by blast+
qed

lemma log_remove_wf:
  assumes "log_wf l" and "map_of (by_revision l) r = Some k"
  shows "log_wf \<lparr>by_key = bt_remove k (by_key l), by_revision = bt_remove r (by_revision l),
      full_revisions = bt_remove r (full_revisions l)\<rparr>"
proof -
  have "fst ` set (bt_remove r (full_revisions l)) = fst ` set (full_revisions l) - {r}" by force
  then show ?thesis
    using assms by (simp add: log_wf_def log_maps_remove)
qed

lemma log_evict_wf:
  assumes "log_wf l"
  shows "log_wf (log_evict l)"
    and "length (by_key l) \<le> 2 * ring_capacity \<Longrightarrow> log_evict l = l"
    and "length (by_key l) > 2 * ring_capacity \<Longrightarrow>
      \<exists>k r. log_revisions l k = Some r \<and> (\<forall>k' r'. log_revisions l k' = Some r' \<longrightarrow> r \<le> r') \<and>
        log_revisions (log_evict l) = (log_revisions l)(k := None) \<and>
        Suc (length (by_key (log_evict l))) = length (by_key l)"
    and "length (full_revisions (log_evict l)) \<le> length (full_revisions l)"
proof -
  have wf: "bt_wf (by_key l)" "bt_wf (by_revision l)"
    and maps: "log_maps (map_of (by_key l)) (map_of (by_revision l)) (fst ` set (full_revisions l))"
    using assms by (simp_all add: log_wf_def)
  show "log_evict l = l" if "length (by_key l) \<le> 2 * ring_capacity"
    using that by (simp add: log_evict_def)
  show "length (full_revisions (log_evict l)) \<le> length (full_revisions l)"
    by (auto simp: log_evict_def length_bt_remove_le split: list.split)
  show "\<exists>k r. log_revisions l k = Some r \<and> (\<forall>k' r'. log_revisions l k' = Some r' \<longrightarrow> r \<le> r') \<and>
        log_revisions (log_evict l) = (log_revisions l)(k := None) \<and>
        Suc (length (by_key (log_evict l))) = length (by_key l)"
    if "length (by_key l) > 2 * ring_capacity"
  proof -
    from that obtain k0 en0 where "map_of (by_key l) k0 = Some en0"
      by (cases "by_key l") fastforce+
    then have "map_of (by_revision l) (entry_revision en0) = Some k0" using log_mapsD(1) [OF maps] by blast
    then obtain r k rest where rev: "by_revision l = (r, k) # rest"
      by (cases "by_revision l") auto
    then have "map_of (by_revision l) r = Some k" by simp
    then obtain en where en: "map_of (by_key l) k = Some en" "entry_revision en = r"
      using log_mapsD(1) [OF maps] by blast
    have low: "r \<le> r'" if "log_revisions l k' = Some r'" for k' r'
    proof -
      have "map_of (by_revision l) r' = Some k'"
        using that log_mapsD(1) [OF maps] by (auto simp: log_revisions_def)
      then have "r' \<in> fst ` set (by_revision l)" by (metis domI dom_map_of_conv_image_fst)
      then show ?thesis using wf(2) by (force simp: rev bt_wf_Cons)
    qed
    have "k \<in> fst ` set (by_key l)" using en(1) by (metis domI dom_map_of_conv_image_fst)
    then have "Suc (length (bt_remove k (by_key l))) = length (by_key l)"
      by (rule length_bt_remove [OF wf(1)])
    moreover have "log_revisions (log_evict l) = (log_revisions l)(k := None)"
      using that by (auto simp: log_evict_def rev log_revisions_def fun_eq_iff)
    ultimately show ?thesis
      using that en low by (intro exI [of _ k] exI [of _ r]) (auto simp: log_evict_def rev log_revisions_def)
  qed
  show "log_wf (log_evict l)"
  proof (cases "length (by_key l) > 2 * ring_capacity")
    case True
    show ?thesis
    proof (cases "by_revision l")
      case Nil
      then show ?thesis using assms True by (simp add: log_evict_def)
    next
      case (Cons x rest)
      moreover obtain r k where "x = (r, k)" by (cases x)
      ultimately show ?thesis
        using True assms wf(2) log_remove_wf [of l r k] bt_remove_Cons [of r k rest]
        by (simp add: log_evict_def)
    qed
  qed (simp add: log_evict_def assms)
qed

lemma log_forget_wf:
  assumes "log_wf l"
  shows "log_wf (log_forget k l)" and "log_revisions (log_forget k l) = (log_revisions l)(k := None)"
    and "log_caps l \<Longrightarrow> log_caps (log_forget k l)"
proof -
  have maps: "log_maps (map_of (by_key l)) (map_of (by_revision l)) (fst ` set (full_revisions l))"
    using assms by (simp add: log_wf_def)
  show "log_wf (log_forget k l)"
  proof (cases "map_of (by_key l) k")
    case (Some en)
    then have "map_of (by_revision l) (entry_revision en) = Some k" using log_mapsD(1) [OF maps] by blast
    then show ?thesis using Some log_remove_wf [OF assms] by (simp add: log_forget_def)
  qed (simp add: log_forget_def assms)
  show "log_revisions (log_forget k l) = (log_revisions l)(k := None)"
    by (auto simp: log_forget_def log_revisions_def fun_eq_iff split: option.split)
  show "log_caps (log_forget k l)" if "log_caps l"
    using that by (auto simp: log_forget_def log_caps_def intro: le_trans [OF length_bt_remove_le] split: option.split)
qed

lemma push_log_wf:
  assumes "log_wf l" and "log_caps l" and "log_fresh e l"
  shows "log_wf (push_log e l)" and "log_caps (push_log e l)"
proof -
  have "log_wf (push_log e l) \<and> log_caps (push_log e l)"
  proof (cases "ie_value e")
    case (Some v)
    then show ?thesis using log_forget_wf [OF assms(1)] assms(2) by (simp add: push_log_def)
  next
    case None
    note ins = log_insert_wf [OF assms(1,3) None]
    note down = log_downgrade_wf [OF ins(1)]
    note ev = log_evict_wf [OF down(1)]
    have "length (full_revisions (log_downgrade (log_insert e l))) \<le> ring_capacity"
      using ins(3) assms(2) by (intro down(4)) (simp add: log_caps_def)
    moreover have "length (by_key (log_downgrade (log_insert e l))) \<le> Suc (2 * ring_capacity)"
      using ins(2) down(3) assms(2) by (simp add: log_caps_def)
    ultimately have "log_caps (log_evict (log_downgrade (log_insert e l)))"
      using ev(2,3,4) unfolding log_caps_def by fastforce
    then show ?thesis using ev(1) None by (simp add: push_log_def)
  qed
  then show "log_wf (push_log e l)" "log_caps (push_log e l)" by blast+
qed

subsection \<open>The ring is a window of the history\<close>

definition ring_sorted :: "'b internal_event list \<Rightarrow> bool" where
  "ring_sorted r = sorted_wrt (<) (map ie_revision r)"

definition shard_inv :: "'b ring_shard \<Rightarrow> bool" where
  "shard_inv s =
     (length (sh_ring s) \<le> ring_capacity \<and> length (sh_push_secs s) = length (sh_ring s) \<and>
      ring_sorted (sh_ring s) \<and> log_wf (sh_log s) \<and> log_caps (sh_log s))"

definition event_fresh :: "'b internal_event \<Rightarrow> 'b ring_shard \<Rightarrow> bool" where
  "event_fresh e s =
     ((\<forall>x \<in> set (sh_ring s). ie_revision x < ie_revision e) \<and> log_fresh e (sh_log s))"

lemma ring_sorted_snoc:
  "ring_sorted (r @ [e]) \<longleftrightarrow> ring_sorted r \<and> (\<forall>x \<in> set r. ie_revision x < ie_revision e)"
  by (auto simp: ring_sorted_def sorted_wrt_append)

lemma ring_sorted_Cons:
  "ring_sorted (x # r) \<longleftrightarrow> (\<forall>y \<in> set r. ie_revision x < ie_revision y) \<and> ring_sorted r"
  by (simp add: ring_sorted_def)

lemma empty_log_wf [simp]: "log_wf empty_log" "log_caps empty_log"
  by (simp_all add: empty_log_def log_wf_def log_caps_def log_maps_def full_at_def)

lemma new_shard_inv [simp]: "shard_inv (new_shard i h)"
  by (simp add: shard_inv_def new_shard_def ring_sorted_def)

lemma push_into_shard_inv:
  assumes "shard_inv s" and "event_fresh e s"
  shows "shard_inv (fst (push_into_shard now e s g))"
proof -
  have "ring_sorted (sh_ring s @ [e])" using assms by (simp add: ring_sorted_snoc shard_inv_def event_fresh_def)
  moreover from this have "ring_sorted (tl (sh_ring s @ [e]))"
    by (cases "sh_ring s") (auto simp: ring_sorted_def)
  moreover have "log_wf (push_log e (sh_log s))" "log_caps (push_log e (sh_log s))"
    using assms push_log_wf by (auto simp: shard_inv_def event_fresh_def)
  ultimately show ?thesis
    using assms(1) by (auto simp: shard_inv_def push_into_shard_def Let_def)
qed

lemma push_into_shard_horizon:
  "sh_horizon s \<le> sh_horizon (fst (push_into_shard now e s g))"
  "g \<le> snd (push_into_shard now e s g)"
  by (simp_all add: push_into_shard_def Let_def)

text \<open>Behind the horizon nothing is promised; from the horizon on, the ring is the pushed history.\<close>

lemma push_into_shard_replay:
  assumes "ring_sorted (sh_ring s @ [e])" and "sh_horizon (fst (push_into_shard now e s g)) \<le> f"
  shows "filter (\<lambda>x. P x \<and> f < ie_revision x) (sh_ring (fst (push_into_shard now e s g))) =
    filter (\<lambda>x. P x \<and> f < ie_revision x) (sh_ring s @ [e])"
proof (cases "length (sh_ring s @ [e]) > ring_capacity")
  case False
  then show ?thesis by (simp add: push_into_shard_def Let_def)
next
  case True
  then obtain x y r where r: "sh_ring s @ [e] = x # y # r"
    by (cases "sh_ring s"; cases "tl (sh_ring s @ [e])") (auto simp: ring_capacity_def)
  have "ie_revision y \<le> f"
    using assms(2) True unfolding push_into_shard_def Let_def r by (simp add: evicted_floor_def)
  moreover have "ie_revision x < ie_revision y" using assms(1) unfolding r by (simp add: ring_sorted_Cons)
  ultimately show ?thesis
    using True unfolding push_into_shard_def Let_def r by simp
qed

subsection \<open>Routing\<close>

text \<open>Keys of the registry: the resource type's root, a namespace segment for namespaced kinds, a name.\<close>

definition registry_key :: "string \<Rightarrow> string option \<Rightarrow> string \<Rightarrow> string" where
  "registry_key root ns name =
     root @ (case ns of Some n \<Rightarrow> n @ ''/'' | None \<Rightarrow> []) @ name"

definition no_slash :: "string \<Rightarrow> bool" where
  "no_slash s = (CHR ''/'' \<notin> set s)"

lemma strip_segment_snoc [simp]: "no_slash b \<Longrightarrow> strip_segment (a @ CHR ''/'' # b) = a"
  by (simp add: strip_segment_def no_slash_def rsplit_once_snoc)

lemma shard_key_registry:
  assumes "no_slash name" and "\<forall>n. ns = Some n \<longrightarrow> no_slash n"
  shows "shard_key (registry_key (root @ ''/'') ns name) ns = root @ ''/''"
proof (cases ns)
  case None
  have "strip_segment (root @ CHR ''/'' # name) = root" by (rule strip_segment_snoc [OF assms(1)])
  then show ?thesis by (simp add: None shard_key_def registry_key_def)
next
  case (Some n)
  have "strip_segment ((root @ CHR ''/'' # n) @ CHR ''/'' # name) = root @ CHR ''/'' # n"
    by (rule strip_segment_snoc [OF assms(1)])
  moreover have "strip_segment (root @ CHR ''/'' # n) = root"
    using assms(2) Some by (intro strip_segment_snoc) simp
  ultimately show ?thesis by (simp add: Some shard_key_def registry_key_def numeral_2_eq_2)
qed

lemma parent_prefix_child:
  "no_slash n \<Longrightarrow> parent_prefix (root @ CHR ''/'' # n @ ''/'') = Some (root @ ''/'')"
proof -
  assume n: "no_slash n"
  have "strip_suffix (root @ CHR ''/'' # n @ ''/'') ''/'' = Some (root @ CHR ''/'' # n)"
    by (simp add: strip_suffix_Some_iff)
  then show ?thesis
    using n rsplit_once_snoc [of "CHR ''/''" n root] by (simp add: parent_prefix_def no_slash_def)
qed

subsection \<open>Reclaimed floors\<close>

definition reclaimed_wf :: "reclaimed_horizons \<Rightarrow> bool" where
  "reclaimed_wf rh = (bt_wf (rh_entries rh) \<and> length (rh_entries rh) \<le> max_reclaimed_horizons)"

lemma first_min_None: "first_min es = None \<longleftrightarrow> es = []"
  by (cases es) (auto split: option.splits)

lemma first_min_Some: "first_min es = Some m \<Longrightarrow> m \<in> set es \<and> (\<forall>e \<in> set es. snd m \<le> snd e)"
proof (induction es arbitrary: m)
  case (Cons e es)
  show ?case
  proof (cases "first_min es")
    case None
    then show ?thesis using Cons.prems by (simp add: first_min_None)
  next
    case (Some a)
    have "m = (if snd a < snd e then a else e)" using Cons.prems Some by simp
    then show ?thesis using Cons.IH [OF Some] by (auto intro: order_trans)
  qed
qed simp

lemma find_reclaimed_cases:
  assumes "\<And>h. map_of (rh_entries rh) p = Some h \<Longrightarrow> b \<le> h"
    and "map_of (rh_entries rh) p = None \<Longrightarrow> b \<le> rh_overflow rh \<and> (\<forall>e \<in> set (rh_entries rh). b \<le> snd e)"
  shows "b \<le> find_reclaimed_horizon rh p"
proof (cases "map_of (rh_entries rh) p")
  case (Some h)
  then show ?thesis using assms(1) by (simp add: find_reclaimed_horizon_def)
next
  case None
  then show ?thesis
    using assms(2) map_of_SomeD
    by (fastforce simp: find_reclaimed_horizon_def bind_eq_Some_conv split: option.split)
qed

lemma preserve_cases:
  assumes "reclaimed_wf rh" and "\<And>xs. mset (ho xs) = mset xs" and "shard_floor s \<noteq> 0"
  obtains (room) "preserve_reclaimed_horizon ho key s rh = rh\<lparr>rh_entries := bt_insert key (shard_floor s) (rh_entries rh)\<rparr>"
      "length (bt_insert key (shard_floor s) (rh_entries rh)) \<le> max_reclaimed_horizons"
    | (evict) victim vh where
        "preserve_reclaimed_horizon ho key s rh =
          \<lparr>rh_entries = bt_remove victim (bt_insert key (shard_floor s) (rh_entries rh)), rh_overflow = max (rh_overflow rh) vh\<rparr>"
        "map_of (bt_insert key (shard_floor s) (rh_entries rh)) victim = Some vh"
        "\<forall>e \<in> set (bt_insert key (shard_floor s) (rh_entries rh)). vh \<le> snd e"
proof (cases "length (bt_insert key (shard_floor s) (rh_entries rh)) \<le> max_reclaimed_horizons")
  case True
  then show ?thesis using assms(3) room by (simp add: preserve_reclaimed_horizon_def Let_def)
next
  case False
  let ?es = "bt_insert key (shard_floor s) (rh_entries rh)"
  have set: "set (ho ?es) = set ?es" using assms(2) mset_eq_setD by blast
  have "ho ?es \<noteq> []" using False assms(2) [of ?es] by (metis le0 list.size(3) mset_eq_length)
  then obtain victim vh where v: "first_min (ho ?es) = Some (victim, vh)"
    by (metis first_min_None option.exhaust surj_pair)
  from first_min_Some [OF v] have m: "(victim, vh) \<in> set ?es" "\<forall>e \<in> set ?es. vh \<le> snd e"
    unfolding set by auto
  have wf: "bt_wf ?es" using assms(1) by (simp add: reclaimed_wf_def)
  have "map_of ?es victim = Some vh" using m(1) bt_wf_map_of_iff [OF wf] by blast
  then show ?thesis
    using evict [of victim vh] False v m(2) assms(3) by (simp add: preserve_reclaimed_horizon_def Let_def)
qed

subsection \<open>Properties\<close>

definition sample_event :: "nat \<Rightarrow> string \<Rightarrow> json option \<Rightarrow> json internal_event" where
  "sample_event r k v =
     \<lparr>ie_key = k, ie_revision = r, ie_value = v, ie_is_create = True, ie_deleted_body = None\<rparr>"

text \<open>C27: every push of a newer event keeps a shard well formed: at most 512 events in strictly
  increasing revision order, the push times in lockstep, the three indices of the deletion log in
  agreement, at most 512 full and at most 1024 tombstones in all.\<close>

theorem push_keeps_shard_inv:
  assumes "shard_inv s" and "event_fresh e s"
  shows "shard_inv (fst (push_into_shard now e s g))"
  by (rule push_into_shard_inv [OF assms])

theorem push_keeps_shard_inv_witness:
  "shard_inv (fst (push_into_shard 7 (sample_event 3 ''/registry/pods/a/x'' None) (new_shard 0 0) 0))"
proof (rule push_keeps_shard_inv)
  show "shard_inv (new_shard 0 0)" by simp
  show "event_fresh (sample_event 3 ''/registry/pods/a/x'' None) (new_shard 0 0)"
    by (simp add: event_fresh_def new_shard_def log_fresh_def empty_log_def)
qed

text \<open>C28: what the deletion log remembers. A delete is remembered at its revision; no other
  tombstone is lost unless the log is full, and then it is the one with the lowest revision; a
  write forgets the tombstone of its own key and no other. Stripping a body loses no tombstone.\<close>

theorem deletion_log_contract:
  assumes "log_wf l" and "log_caps l" and "log_fresh e l"
  shows "(ie_value e \<noteq> None \<longrightarrow> log_revisions (push_log e l) = (log_revisions l)(ie_key e := None)) \<and>
    (ie_value e = None \<and> length (by_key l) < 2 * ring_capacity \<longrightarrow>
       log_revisions (push_log e l) = (log_revisions l)(ie_key e \<mapsto> ie_revision e)) \<and>
    (ie_value e = None \<and> length (by_key l) = 2 * ring_capacity \<longrightarrow>
       (\<exists>k r. log_revisions l k = Some r \<and> (\<forall>k' r'. log_revisions l k' = Some r' \<longrightarrow> r \<le> r') \<and>
          log_revisions (push_log e l) = (log_revisions l)(ie_key e \<mapsto> ie_revision e, k := None)))"
proof (intro conjI impI)
  assume "ie_value e \<noteq> None"
  then show "log_revisions (push_log e l) = (log_revisions l)(ie_key e := None)"
    using log_forget_wf(2) [OF assms(1)] by (auto simp: push_log_def)
next
  assume del: "ie_value e = None \<and> length (by_key l) < 2 * ring_capacity"
  note ins = log_insert_wf [OF assms(1,3) conjunct1 [OF del]]
  note down = log_downgrade_wf [OF ins(1)]
  have "log_evict (log_downgrade (log_insert e l)) = log_downgrade (log_insert e l)"
    using del ins(2) down(3) by (intro log_evict_wf(2) [OF down(1)]) simp
  then show "log_revisions (push_log e l) = (log_revisions l)(ie_key e \<mapsto> ie_revision e)"
    using del down(2) by (auto simp: push_log_def log_revisions_def log_insert_def fun_eq_iff)
next
  assume del: "ie_value e = None \<and> length (by_key l) = 2 * ring_capacity"
  note ins = log_insert_wf [OF assms(1,3) conjunct1 [OF del]]
  note down = log_downgrade_wf [OF ins(1)]
  have revs: "log_revisions (log_downgrade (log_insert e l)) = (log_revisions l)(ie_key e \<mapsto> ie_revision e)"
    using down(2) by (auto simp: log_revisions_def log_insert_def fun_eq_iff)
  have old: "r < ie_revision e" if "log_revisions l k = Some r" for k r
  proof -
    have "map_of (by_revision l) r = Some k"
      using that assms(1) by (auto simp: log_wf_def log_maps_def log_revisions_def)
    then have "r \<in> fst ` set (by_revision l)" by (metis domI dom_map_of_conv_image_fst)
    then show ?thesis using assms(3) del by (auto simp: log_fresh_def)
  qed
  obtain k r where kr: "log_revisions (log_downgrade (log_insert e l)) k = Some r"
    "\<forall>k' r'. log_revisions (log_downgrade (log_insert e l)) k' = Some r' \<longrightarrow> r \<le> r'"
    "log_revisions (log_evict (log_downgrade (log_insert e l))) =
       (log_revisions (log_downgrade (log_insert e l)))(k := None)"
    using log_evict_wf(3) [OF down(1)] del ins(2) down(3) by auto
  have "by_key l \<noteq> []" using del by (auto simp: ring_capacity_def)
  then have "log_revisions l (fst (hd (by_key l))) \<noteq> None"
    by (cases "by_key l") (simp_all add: log_revisions_def)
  then obtain k0 r0 where "log_revisions l k0 = Some r0" by blast
  moreover have none: "log_revisions l (ie_key e) = None"
    using assms(3) del by (simp add: log_fresh_def log_revisions_def)
  ultimately have "((log_revisions l)(ie_key e \<mapsto> ie_revision e)) k0 = Some r0" "r0 < ie_revision e"
    using old by auto
  then have "r \<le> r0" "r0 < ie_revision e" using kr(2) unfolding revs by blast+
  then have "k \<noteq> ie_key e" using kr(1) unfolding revs by auto
  moreover have "r \<le> r'" if "log_revisions l k' = Some r'" for k' r'
  proof -
    have "((log_revisions l)(ie_key e \<mapsto> ie_revision e)) k' = Some r'" using that none by auto
    then show ?thesis using kr(2) unfolding revs by blast
  qed
  ultimately show "\<exists>k r. log_revisions l k = Some r \<and> (\<forall>k' r'. log_revisions l k' = Some r' \<longrightarrow> r \<le> r') \<and>
      log_revisions (push_log e l) = (log_revisions l)(ie_key e \<mapsto> ie_revision e, k := None)"
    using kr(1,3) del unfolding revs
    by (intro exI [of _ k] exI [of _ r]) (auto simp: push_log_def)
qed

theorem deletion_log_contract_witness:
  "log_revisions (push_log (sample_event 3 ''k'' None) empty_log) = [''k'' \<mapsto> 3]"
proof -
  have sample: "ie_value (sample_event 3 ''k'' None) = None" "ie_key (sample_event 3 ''k'' None) = ''k''"
    "ie_revision (sample_event 3 ''k'' None) = 3" "by_key (empty_log :: json deletion_log) = []"
    by (simp_all add: sample_event_def empty_log_def)
  have "log_fresh (sample_event 3 ''k'' None) empty_log"
    by (simp add: log_fresh_def empty_log_def)
  then have "log_revisions (push_log (sample_event 3 ''k'' None) empty_log) =
      (log_revisions (empty_log :: json deletion_log))(''k'' \<mapsto> 3)"
    using deletion_log_contract [of empty_log "sample_event 3 ''k'' None"] sample
    by (simp add: ring_capacity_def)
  then show ?thesis by (simp add: log_revisions_def empty_log_def fun_eq_iff)
qed

text \<open>reclaiming a shard never forgets its floor. Whatever the hash map's iteration order and
  also when the cap of 4096 entries evicts an entry into the overflow floor, a later lookup of the
  reclaimed prefix, and of every prefix that had an entry, answers at least the floor that was
  kept; the map stays within its cap.\<close>

theorem reclaimed_floor_kept:
  assumes "reclaimed_wf rh" and "\<And>xs. mset (ho xs) = mset xs"
  shows "reclaimed_wf (preserve_reclaimed_horizon ho key s rh) \<and>
    shard_floor s \<le> find_reclaimed_horizon (preserve_reclaimed_horizon ho key s rh) key \<and>
    (\<forall>q h. q \<noteq> key \<and> map_of (rh_entries rh) q = Some h \<longrightarrow>
       h \<le> find_reclaimed_horizon (preserve_reclaimed_horizon ho key s rh) q)"
proof (cases "shard_floor s = 0")
  case True
  then show ?thesis
    using assms(1) by (simp add: preserve_reclaimed_horizon_def Let_def find_reclaimed_horizon_def)
next
  case False
  let ?es = "bt_insert key (shard_floor s) (rh_entries rh)"
  have wf: "bt_wf ?es" "bt_wf (rh_entries rh)" using assms(1) by (simp_all add: reclaimed_wf_def)
  from assms False show ?thesis
  proof (cases rule: preserve_cases [where key = key])
    case room
    then show ?thesis using wf by (simp add: reclaimed_wf_def find_reclaimed_horizon_def)
  next
    case (evict victim vh)
    have "victim \<in> fst ` set ?es" using evict(2) by (metis domI dom_map_of_conv_image_fst)
    from length_bt_remove [OF wf(1) this] have "length (bt_remove victim ?es) \<le> max_reclaimed_horizons"
      using assms(1) wf(2) by (simp add: reclaimed_wf_def length_bt_insert split: if_splits)
    then have "reclaimed_wf (preserve_reclaimed_horizon ho key s rh)"
      using wf by (simp add: evict(1) reclaimed_wf_def)
    moreover have floor: "h \<le> find_reclaimed_horizon (preserve_reclaimed_horizon ho key s rh) q"
      if "map_of ?es q = Some h" for q h
      using that evict(2,3) unfolding evict(1)
      by (intro find_reclaimed_cases) (auto split: if_splits)
    ultimately show ?thesis by simp
  qed
qed

theorem reclaimed_floor_kept_witness:
  "find_reclaimed_horizon (preserve_reclaimed_horizon rev ''/registry/pods/''
     ((new_shard 0 9) :: json ring_shard) \<lparr>rh_entries = [], rh_overflow = 0\<rparr>) ''/registry/pods/'' \<ge> 9"
proof -
  have "reclaimed_wf \<lparr>rh_entries = [], rh_overflow = 0\<rparr>"
    by (simp add: reclaimed_wf_def)
  moreover have "shard_floor ((new_shard 0 9) :: json ring_shard) = 9"
    by (simp add: shard_floor_def new_shard_def)
  ultimately show ?thesis
    using reclaimed_floor_kept [of "\<lparr>rh_entries = [], rh_overflow = 0\<rparr>" rev "''/registry/pods/''"
        "(new_shard 0 9) :: json ring_shard"] by simp
qed

text \<open>a write reaches the shard a watch reads. For a registry key under a root, and a watch on
  that root or on the key's namespace under it, the shard the watch resolves (its own or the
  root's) is among those the write is pushed into, provided no shard is keyed above the root.\<close>

theorem write_reaches_watch_shard:
  assumes "no_slash name" and "\<forall>n. ns = Some n \<longrightarrow> no_slash n"
    and "p = root @ ''/'' \<or> (\<exists>n. ns = Some n \<and> p = root @ ''/'' @ n @ ''/'')"
    and "\<forall>q. parent_prefix (root @ ''/'') = Some q \<longrightarrow> map_of m q = None"
    and "find_shard_key m p = Some (q, s)"
  shows "(q, s) \<in> set (matching_shards m (shard_key (registry_key (root @ ''/'') ns name) ns) ns) \<and>
    starts_with (registry_key (root @ ''/'') ns name) p"
proof -
  have key: "shard_key (registry_key (root @ ''/'') ns name) ns = root @ ''/''"
    by (rule shard_key_registry [OF assms(1,2)])
  from assms(3) show ?thesis
  proof
    assume p: "p = root @ ''/''"
    then have "map_of m (root @ ''/'') = Some s \<and> q = root @ ''/''"
      using assms(4,5) by (auto simp: find_shard_key_def split: option.splits)
    then show ?thesis unfolding key p by (simp add: matching_shards_def registry_key_def starts_with_def)
  next
    assume "\<exists>n. ns = Some n \<and> p = root @ ''/'' @ n @ ''/''"
    then obtain n where n: "ns = Some n" "p = root @ CHR ''/'' # n @ ''/''" by auto
    have "parent_prefix p = Some (root @ ''/'')" unfolding n(2) using assms(2) n(1) by (intro parent_prefix_child) simp
    then have "map_of m p = Some s \<and> q = p \<or> map_of m (root @ ''/'') = Some s \<and> q = root @ ''/''"
      using assms(5) by (auto simp: find_shard_key_def split: option.splits)
    moreover have "starts_with (registry_key (root @ ''/'') ns name) p"
      by (simp add: n registry_key_def starts_with_def)
    ultimately show ?thesis unfolding key by (auto simp: n matching_shards_def)
  qed
qed

theorem write_reaches_watch_shard_witness:
  "let m = [(''/registry/pods/'', (new_shard 0 0) :: json ring_shard)] in
   (''/registry/pods/'', new_shard 0 0) \<in>
     set (matching_shards m (shard_key ''/registry/pods/a/x'' (Some ''a'')) (Some ''a'')) \<and>
   starts_with ''/registry/pods/a/x'' ''/registry/pods/a/''"
proof -
  let ?m = "[(''/registry/pods/'', (new_shard 0 0) :: json ring_shard)]"
  have "parent_prefix ''/registry/pods/'' = Some ''/registry/''" by code_simp
  moreover have "parent_prefix ''/registry/pods/a/'' = Some ''/registry/pods/''" by code_simp
  then have "find_shard_key ?m ''/registry/pods/a/'' = Some (''/registry/pods/'', new_shard 0 0)"
    by (simp add: find_shard_key_def)
  ultimately show ?thesis
    using write_reaches_watch_shard [of "''x''" "Some ''a''" "''/registry/pods/a/''" "''/registry/pods''" ?m
        "''/registry/pods/''" "new_shard 0 0"]
    by (simp add: no_slash_def registry_key_def)
qed

end
