(* ===== verification/Store_Watch.thy ===== *)
theory Store_Watch
  imports Store_List Store_Shards
begin

text \<open>
  The store as its clients see it (\<^verbatim>\<open>impl Store for SqliteStore\<close>): a write procedure followed, under
  the same lock, by the push of its event into the matching shards and onto the broadcast channel;
  the opening of a watch (resolve or create a shard, backfill a fresh one, snapshot its ring), one
  phase per step because writes and other openings run between the phases, and the stream it
  returns, as a state machine over what the stream receives. The broadcast channel is the list of
  all events ever sent; a receiver that falls behind is told that it lagged.
\<close>

subsection \<open>The store\<close>

record 'b sqlite_store =
  sq_db :: "'b db"
  sq_shards :: "'b shards"
  sq_reclaimed :: reclaimed_horizons
  sq_horizon :: rev
  sq_tx :: "'b internal_event list"
  sq_bookmarks :: "(string \<times> rev) list"
  sq_next_id :: nat
  sq_gc :: "(string \<times> nat) list"

definition open_store :: "'b db \<Rightarrow> 'b sqlite_store" where
  "open_store d =
     \<lparr>sq_db = d, sq_shards = [], sq_reclaimed = \<lparr>rh_entries = [], rh_overflow = 0\<rparr>, sq_horizon = 0,
      sq_tx = [], sq_bookmarks = [], sq_next_id = 0, sq_gc = []\<rparr>"

definition compaction_horizon_for :: "'b sqlite_store \<Rightarrow> string \<Rightarrow> rev" where
  "compaction_horizon_for s p =
     (case find_shard (sq_shards s) p of
        Some sh \<Rightarrow> sh_horizon sh
      | None \<Rightarrow> find_reclaimed_horizon (sq_reclaimed s) p)"

definition get_or_create_shard :: "string \<Rightarrow> 'b sqlite_store \<Rightarrow> 'b sqlite_store" where
  "get_or_create_shard p s =
     (case map_of (sq_shards s) p of
        Some _ \<Rightarrow> s
      | None \<Rightarrow>
          (let seeded = find_reclaimed_horizon (sq_reclaimed s) p
           in s\<lparr>sq_reclaimed := (sq_reclaimed s)\<lparr>rh_entries := bt_remove p (rh_entries (sq_reclaimed s))\<rparr>,
                sq_shards := bt_insert p (new_shard (sq_next_id s) seeded) (sq_shards s),
                sq_next_id := Suc (sq_next_id s),
                sq_gc := sq_gc s @ [(p, sq_next_id s)]\<rparr>))"

text \<open>Push one event into the shard that lives under a key.\<close>

definition push_at :: "nat \<Rightarrow> 'b internal_event \<Rightarrow> string \<Rightarrow> 'b sqlite_store \<Rightarrow> 'b sqlite_store" where
  "push_at now e k s =
     (case map_of (sq_shards s) k of
        None \<Rightarrow> s
      | Some sh \<Rightarrow>
          (let (sh', g) = push_into_shard now e sh (sq_horizon s)
           in s\<lparr>sq_shards := bt_insert k sh' (sq_shards s), sq_horizon := g\<rparr>))"

definition push_event_locked ::
    "nat \<Rightarrow> string \<Rightarrow> string option \<Rightarrow> 'b internal_event \<Rightarrow> 'b sqlite_store \<Rightarrow> 'b sqlite_store" where
  "push_event_locked now root ns e s =
     (let matched = map fst (matching_shards (sq_shards s) root ns);
          s' = (if matched = [] \<and> ie_value e = None
                then push_at now e root (get_or_create_shard root s)
                else fold (push_at now e) matched s)
      in s'\<lparr>sq_tx := sq_tx s' @ [e], sq_bookmarks := sq_bookmarks s' @ [(root, ie_revision e)]\<rparr>)"

subsection \<open>Writes\<close>

definition put_event :: "string \<Rightarrow> 'b put_result \<Rightarrow> 'b internal_event" where
  "put_event key res =
     \<lparr>ie_key = key, ie_revision = pr_revision res, ie_value = pr_body res,
      ie_is_create = pr_is_create res, ie_deleted_body = None\<rparr>"

definition delete_event :: "string \<Rightarrow> rev \<Rightarrow> 'b \<Rightarrow> 'b internal_event" where
  "delete_event key r body =
     \<lparr>ie_key = key, ie_revision = r, ie_value = None, ie_is_create = False, ie_deleted_body = Some body\<rparr>"

definition store_put ::
    "'b codec \<Rightarrow> nat \<Rightarrow> 'b sqlite_store \<Rightarrow> string \<Rightarrow> 'b \<Rightarrow> rev option \<Rightarrow> 'b sqlite_store \<times> (store_error + rev)" where
  "store_put c now s key value expected =
     (case put_sync c (sq_db s) key value expected of
        Inl e \<Rightarrow> (s, Inl e)
      | Inr (d, res) \<Rightarrow>
          ((if pr_is_noop res then s
            else push_event_locked now (shard_key key (pr_ns res)) (pr_ns res) (put_event key res) (s\<lparr>sq_db := d\<rparr>)),
           Inr (pr_revision res)))"

definition store_create_if_namespace_active ::
    "'b codec \<Rightarrow> nat \<Rightarrow> 'b sqlite_store \<Rightarrow> string option \<Rightarrow> string \<Rightarrow> 'b \<Rightarrow>
       'b sqlite_store \<times> (create_error + rev)" where
  "store_create_if_namespace_active c now s ns_key key value =
     (case create_if_namespace_active_sync c (sq_db s) ns_key key value of
        Inl e \<Rightarrow> (s, Inl e)
      | Inr (d, (r, body, ns)) \<Rightarrow>
          (push_event_locked now (shard_key key ns) ns
             \<lparr>ie_key = key, ie_revision = r, ie_value = Some body, ie_is_create = True, ie_deleted_body = None\<rparr>
             (s\<lparr>sq_db := d\<rparr>), Inr r))"

definition store_delete ::
    "nat \<Rightarrow> 'b sqlite_store \<Rightarrow> string \<Rightarrow> rev option \<Rightarrow> 'b sqlite_store \<times> (store_error + rev \<times> 'b)" where
  "store_delete now s key expected =
     (case delete_sync (sq_db s) key expected of
        Inl e \<Rightarrow> (s, Inl e)
      | Inr (d, (r, body, ns)) \<Rightarrow>
          (push_event_locked now (shard_key key ns) ns (delete_event key r body) (s\<lparr>sq_db := d\<rparr>), Inr (r, body)))"

definition store_delete_namespace ::
    "((string \<times> 'b) list \<Rightarrow> (string \<times> 'b) list) \<Rightarrow> nat \<Rightarrow> 'b sqlite_store \<Rightarrow> string \<Rightarrow>
       'b sqlite_store \<times> string list" where
  "store_delete_namespace scan_order now s ns =
     (let (d, deleted) = delete_namespace_sync scan_order (sq_db s) ns
      in (fold (\<lambda>(key, body, r). push_event_locked now (shard_key key (Some ns)) (Some ns) (delete_event key r body))
            deleted (s\<lparr>sq_db := d\<rparr>), map fst deleted))"

subsection \<open>Life of a shard\<close>

definition tear_down_shard ::
    "((string \<times> rev) list \<Rightarrow> (string \<times> rev) list) \<Rightarrow> string \<Rightarrow> 'b sqlite_store \<Rightarrow> 'b sqlite_store" where
  "tear_down_shard hash_order k s =
     (case map_of (sq_shards s) k of
        None \<Rightarrow> s
      | Some sh \<Rightarrow>
          s\<lparr>sq_shards := bt_remove k (sq_shards s),
            sq_reclaimed := preserve_reclaimed_horizon hash_order k sh (sq_reclaimed s)\<rparr>)"

definition evict_resource_type ::
    "((string \<times> rev) list \<Rightarrow> (string \<times> rev) list) \<Rightarrow> string \<Rightarrow> 'b sqlite_store \<Rightarrow> 'b sqlite_store" where
  "evict_resource_type hash_order p s =
     (let rooted = map fst (takeWhile (\<lambda>e. starts_with (fst e) p) (dropWhile (\<lambda>e. fst e < p) (sq_shards s)))
      in fold (tear_down_shard hash_order) rooted s)"

text \<open>
  The idle timer of a shard, when it fires; and the guard a stream holds. A holder names its shard
  by key and identity. Once torn down, a shard is out of reach of writes and of other watches, and
  what its last holders do with it changes nothing in the store.
\<close>

definition idle_gc ::
    "((string \<times> rev) list \<Rightarrow> (string \<times> rev) list) \<Rightarrow> string \<times> nat \<Rightarrow> 'b sqlite_store \<Rightarrow> 'b sqlite_store" where
  "idle_gc hash_order timer s =
     (case map_of (sq_shards s) (fst timer) of
        None \<Rightarrow> s
      | Some sh \<Rightarrow>
          (if sh_id sh = snd timer \<and> sh_watchers sh = 0 then tear_down_shard hash_order (fst timer) s else s))"

definition guard_attach :: "string \<times> nat \<Rightarrow> 'b sqlite_store \<Rightarrow> 'b sqlite_store" where
  "guard_attach handle s =
     (case map_of (sq_shards s) (fst handle) of
        None \<Rightarrow> s
      | Some sh \<Rightarrow>
          (if sh_id sh \<noteq> snd handle then s
           else s\<lparr>sq_shards := bt_insert (fst handle) (sh\<lparr>sh_watchers := Suc (sh_watchers sh)\<rparr>) (sq_shards s)\<rparr>))"

definition guard_drop :: "string \<times> nat \<Rightarrow> 'b sqlite_store \<Rightarrow> 'b sqlite_store" where
  "guard_drop handle s =
     (case map_of (sq_shards s) (fst handle) of
        None \<Rightarrow> s
      | Some sh \<Rightarrow>
          (if sh_id sh \<noteq> snd handle then s
           else
             (let s' = s\<lparr>sq_shards := bt_insert (fst handle) (sh\<lparr>sh_watchers := sh_watchers sh - 1\<rparr>) (sq_shards s)\<rparr>
              in if sh_watchers sh = 1 then s'\<lparr>sq_gc := sq_gc s' @ [handle]\<rparr> else s')))"

subsection \<open>Opening a watch\<close>

text \<open>
  The phases of \<^verbatim>\<open>watch\<close> before the stream runs: the shard is looked up under the read lock; one
  that was not found is created under the write lock, unless another task did so in between; a
  created one is listed, the listed objects are pushed into it one lock at a time, and the watch
  attaches. Writes and other openings run between any two of these.
\<close>

datatype 'b opening_phase =
    Creating string
  | Listing string nat
  | Seeding string nat "'b store_object list"
  | Attaching string nat

definition watch_find :: "string \<Rightarrow> 'b sqlite_store \<Rightarrow> 'b opening_phase" where
  "watch_find p s =
     (case find_shard_key (sq_shards s) p of
        Some (k, sh) \<Rightarrow> Attaching k (sh_id sh)
      | None \<Rightarrow> Creating p)"

definition watch_create :: "string \<Rightarrow> 'b sqlite_store \<Rightarrow> 'b sqlite_store \<times> 'b opening_phase option" where
  "watch_create p s =
     (let s' = get_or_create_shard p s
      in (s', map_option (\<lambda>sh. Listing p (sh_id sh)) (map_of (sq_shards s') p)))"

definition default_options :: list_options where
  "default_options = \<lparr>lo_selector = None, lo_limit = None, lo_continue = None\<rparr>"

definition watch_list :: "'b codec \<Rightarrow> string \<Rightarrow> 'b sqlite_store \<Rightarrow> store_error + 'b store_object list" where
  "watch_list c p s =
     (case list_sync 0 c (sq_db s) p default_options of
        Some (Inr resp) \<Rightarrow> Inr (sort_key so_revision (lr_items resp))
      | Some (Inl e) \<Rightarrow> Inl e
      | None \<Rightarrow> Inl Join)"

definition seed_event :: "'b store_object \<Rightarrow> 'b internal_event" where
  "seed_event ob =
     \<lparr>ie_key = so_key ob, ie_revision = so_revision ob, ie_value = Some (so_value ob),
      ie_is_create = True, ie_deleted_body = None\<rparr>"

definition watch_seed ::
    "nat \<Rightarrow> string \<times> nat \<Rightarrow> 'b store_object \<Rightarrow> 'b sqlite_store \<Rightarrow> 'b sqlite_store" where
  "watch_seed now handle ob s =
     (case map_of (sq_shards s) (fst handle) of
        None \<Rightarrow> s
      | Some sh \<Rightarrow> if sh_id sh = snd handle then push_at now (seed_event ob) (fst handle) s else s)"

text \<open>One phase of an opening; \<^const>\<open>None\<close> when it attached or its LIST failed, which leaves the
  created shard behind.\<close>

fun open_step :: "'b codec \<Rightarrow> nat \<Rightarrow> 'b opening_phase \<Rightarrow> 'b sqlite_store \<Rightarrow> 'b sqlite_store \<times> 'b opening_phase option" where
  "open_step c now (Creating p) s = watch_create p s"
| "open_step c now (Listing p i) s =
     (case watch_list c p s of
        Inl e \<Rightarrow> (s, None)
      | Inr items \<Rightarrow> (s, Some (Seeding p i items)))"
| "open_step c now (Seeding p i []) s = (s, Some (Attaching p i))"
| "open_step c now (Seeding p i (ob # obs)) s = (watch_seed now (p, i) ob s, Some (Seeding p i obs))"
| "open_step c now (Attaching k i) s = (guard_attach (k, i) s, None)"

definition replay_filter :: "string \<Rightarrow> rev \<Rightarrow> 'b internal_event list \<Rightarrow> 'b internal_event list" where
  "replay_filter p f evs = filter (\<lambda>e. starts_with (ie_key e) p \<and> f < ie_revision e) evs"

definition watch_snapshot :: "string \<Rightarrow> rev \<Rightarrow> string \<Rightarrow> 'b sqlite_store \<Rightarrow> rev \<times> 'b internal_event list" where
  "watch_snapshot p f k s =
     (case map_of (sq_shards s) k of
        None \<Rightarrow> (0, [])
      | Some sh \<Rightarrow> (sh_horizon sh, replay_filter p f (sh_ring sh)))"

subsection \<open>The stream\<close>

record watch_stream =
  ws_prefix :: string
  ws_from :: rev
  ws_last_replayed :: rev
  ws_bookmark_rv :: rev
  ws_pending :: bool

definition log_tombstones ::
    "((string \<times> 'b log_entry) list \<Rightarrow> (string \<times> 'b log_entry) list) \<Rightarrow> 'b shards \<Rightarrow> string \<Rightarrow> rev \<Rightarrow>
       (string \<times> 'b log_entry) list" where
  "log_tombstones log_order shards p f =
     (case find_shard shards p of
        None \<Rightarrow> []
      | Some sh \<Rightarrow>
          filter (\<lambda>(k, en). starts_with k p \<and> f < entry_revision en) (log_order (by_key (sh_log sh))))"

definition max_revision :: "rev \<Rightarrow> 'b internal_event list \<Rightarrow> rev" where
  "max_revision r evs = fold (\<lambda>e m. max m (ie_revision e)) evs r"

text \<open>What the stream yields first, and its state when it goes on; \<^const>\<open>None\<close> means that it ended.\<close>

definition stream_start ::
    "((string \<times> 'b log_entry) list \<Rightarrow> (string \<times> 'b log_entry) list) \<Rightarrow> 'b shards \<Rightarrow> string \<Rightarrow> rev \<Rightarrow>
       rev \<times> 'b internal_event list \<Rightarrow> 'b watch_event list \<times> watch_stream option" where
  "stream_start log_order shards p f snapshot =
     (let (horizon, replayed) = snapshot in
      if f > 0 \<and> f < horizon then
        (map (\<lambda>(k, en). to_watch_event k en) (log_tombstones log_order shards p f) @ [Compacted f horizon], None)
      else
        (map internal_to_watch replayed,
         Some \<lparr>ws_prefix = p, ws_from = f, ws_last_replayed = max_revision f replayed, ws_bookmark_rv = f,
               ws_pending = False\<rparr>))"

definition stream_recv :: "'b internal_event \<Rightarrow> watch_stream \<Rightarrow> 'b watch_event list \<times> watch_stream" where
  "stream_recv e st =
     (if \<not> starts_with (ie_key e) (ws_prefix st) then ([], st)
      else if ie_revision e \<le> ws_last_replayed st then ([], st)
      else ([internal_to_watch e, Bookmark (ie_revision e)], st\<lparr>ws_last_replayed := ie_revision e\<rparr>))"

definition stream_lagged ::
    "((string \<times> 'b log_entry) list \<Rightarrow> (string \<times> 'b log_entry) list) \<Rightarrow> 'b shards \<Rightarrow> watch_stream \<Rightarrow>
       'b watch_event list \<times> watch_stream option" where
  "stream_lagged log_order shards st =
     (let p = ws_prefix st;
          catchup = (case find_shard shards p of
                       None \<Rightarrow> []
                     | Some sh \<Rightarrow> replay_filter p (ws_last_replayed st) (sh_ring sh));
          last_replayed = max_revision (ws_last_replayed st) catchup;
          current_horizon = (case find_shard shards p of None \<Rightarrow> 0 | Some sh \<Rightarrow> sh_horizon sh)
      in if current_horizon > last_replayed then
           (let tombstones = log_tombstones log_order shards p (ws_from st);
                requested = fold (\<lambda>(k, en) m. max m (entry_revision en)) tombstones last_replayed
            in (map internal_to_watch catchup @ map (\<lambda>(k, en). to_watch_event k en) tombstones @
                  [Compacted requested current_horizon], None))
         else (map internal_to_watch catchup, Some (st\<lparr>ws_last_replayed := last_replayed\<rparr>)))"

definition stream_bookmark :: "string \<times> rev \<Rightarrow> watch_stream \<Rightarrow> watch_stream" where
  "stream_bookmark b st =
     (if starts_with (ws_prefix st) (fst b) then st
      else if snd b > ws_bookmark_rv st then st\<lparr>ws_bookmark_rv := snd b, ws_pending := True\<rparr>
      else st)"

definition stream_debounce :: "watch_stream \<Rightarrow> 'b watch_event list \<times> watch_stream" where
  "stream_debounce st =
     (if ws_pending st
      then ([Bookmark (max (ws_bookmark_rv st) (ws_last_replayed st))], st\<lparr>ws_pending := False\<rparr>)
      else ([], st))"

fun stream_recv_all :: "'b internal_event list \<Rightarrow> watch_stream \<Rightarrow> 'b watch_event list \<times> watch_stream" where
  "stream_recv_all [] st = ([], st)"
| "stream_recv_all (e # es) st =
     (let (out, st') = stream_recv e st; (outs, st'') = stream_recv_all es st' in (out @ outs, st''))"

subsection \<open>What a push changes\<close>

definition push_targets :: "string \<Rightarrow> string option \<Rightarrow> string set" where
  "push_targets root ns = insert root (case ns of None \<Rightarrow> {} | Some n \<Rightarrow> {root @ n @ ''/''})"

definition pushed :: "nat \<Rightarrow> 'b internal_event \<Rightarrow> 'b ring_shard \<Rightarrow> 'b ring_shard" where
  "pushed now e sh = fst (push_into_shard now e sh 0)"

lemma new_shard_id [simp]: "sh_id (new_shard i h) = i"
  by (simp add: new_shard_def)

lemma fst_push [simp]: "fst (push_into_shard now e sh g) = pushed now e sh"
  by (simp add: pushed_def push_into_shard_def Let_def)

lemma pushed_id [simp]: "sh_id (pushed now e sh) = sh_id sh"
  by (simp add: pushed_def push_into_shard_def Let_def)

lemma push_at_shards:
  "map_of (sq_shards (push_at now e k s)) =
     (case map_of (sq_shards s) k of
        None \<Rightarrow> map_of (sq_shards s)
      | Some sh \<Rightarrow> (map_of (sq_shards s))(k \<mapsto> pushed now e sh))"
  by (auto simp: push_at_def Let_def split_beta split: option.split)

lemma push_at_rest [simp]:
  "sq_db (push_at now e k s) = sq_db s" "sq_tx (push_at now e k s) = sq_tx s"
  "sq_next_id (push_at now e k s) = sq_next_id s" "sq_reclaimed (push_at now e k s) = sq_reclaimed s"
  by (simp_all add: push_at_def Let_def split_beta split: option.split)

lemma fold_push_at_rest [simp]:
  "sq_db (fold (push_at now e) ks s) = sq_db s" "sq_tx (fold (push_at now e) ks s) = sq_tx s"
  "sq_next_id (fold (push_at now e) ks s) = sq_next_id s"
  by (induction ks arbitrary: s) simp_all

lemma fold_push_at_shards:
  "distinct ks \<Longrightarrow> map_of (sq_shards (fold (push_at now e) ks s)) k =
     (if k \<in> set ks then map_option (pushed now e) (map_of (sq_shards s) k) else map_of (sq_shards s) k)"
proof (induction ks arbitrary: s)
  case (Cons k' ks)
  then show ?case by (auto simp: push_at_shards split: option.split)
qed simp

lemma get_or_create_shards:
  "map_of (sq_shards (get_or_create_shard p s)) =
     (case map_of (sq_shards s) p of
        Some _ \<Rightarrow> map_of (sq_shards s)
      | None \<Rightarrow> (map_of (sq_shards s))(p \<mapsto> new_shard (sq_next_id s) (find_reclaimed_horizon (sq_reclaimed s) p)))"
  by (simp add: get_or_create_shard_def Let_def split: option.split)

lemma get_or_create_rest [simp]:
  "sq_db (get_or_create_shard p s) = sq_db s" "sq_tx (get_or_create_shard p s) = sq_tx s"
  "sq_next_id s \<le> sq_next_id (get_or_create_shard p s)"
  by (simp_all add: get_or_create_shard_def Let_def split: option.split)

lemma matching_shards_keys:
  "set (map fst (matching_shards m root ns)) = {k \<in> push_targets root ns. map_of m k \<noteq> None}"
  "distinct (map fst (matching_shards m root ns))"
proof -
  show "set (map fst (matching_shards m root ns)) = {k \<in> push_targets root ns. map_of m k \<noteq> None}"
  proof (cases ns)
    case None
    then show ?thesis by (cases "map_of m root") (auto simp: matching_shards_def push_targets_def)
  next
    case (Some n)
    then show ?thesis
      by (cases "map_of m root"; cases "map_of m (root @ n @ ''/'')")
        (auto simp: matching_shards_def push_targets_def)
  qed
qed (auto simp: matching_shards_def split: option.split)

lemma push_event_locked_shards:
  "map_of (sq_shards (push_event_locked now root ns e s)) k =
     (if k \<in> push_targets root ns \<and> map_of (sq_shards s) k \<noteq> None
      then map_option (pushed now e) (map_of (sq_shards s) k)
      else if k = root \<and> (\<forall>k' \<in> push_targets root ns. map_of (sq_shards s) k' = None) \<and> ie_value e = None
      then Some (pushed now e (new_shard (sq_next_id s) (find_reclaimed_horizon (sq_reclaimed s) root)))
      else map_of (sq_shards s) k)"
proof -
  let ?ks = "map fst (matching_shards (sq_shards s) root ns)"
  have empty: "?ks = [] \<longleftrightarrow> (\<forall>k' \<in> push_targets root ns. map_of (sq_shards s) k' = None)"
    unfolding set_empty [symmetric] matching_shards_keys(1) by auto
  have root: "root \<in> push_targets root ns" by (simp add: push_targets_def)
  show ?thesis
  proof (cases "?ks = [] \<and> ie_value e = None")
    case True
    with root show ?thesis
      using empty by (auto simp: push_event_locked_def Let_def push_at_shards get_or_create_shards)
  next
    case False
    with root show ?thesis
      using empty matching_shards_keys(1) [of "sq_shards s" root ns]
      unfolding push_event_locked_def Let_def
      by (auto simp: fold_push_at_shards [OF matching_shards_keys(2)])
  qed
qed

lemma push_event_locked_rest [simp]:
  "sq_db (push_event_locked now root ns e s) = sq_db s"
  "sq_tx (push_event_locked now root ns e s) = sq_tx s @ [e]"
  "sq_next_id s \<le> sq_next_id (push_event_locked now root ns e s)"
  by (simp_all add: push_event_locked_def Let_def)

subsection \<open>The history a shard covers\<close>

text \<open>Nothing in a ring is newer than \<open>m\<close>, and identities are not reused.\<close>

definition rings_below :: "rev \<Rightarrow> 'b sqlite_store \<Rightarrow> bool" where
  "rings_below m s =
     (\<forall>k sh. map_of (sq_shards s) k = Some sh \<longrightarrow>
        (\<forall>x \<in> set (sh_ring sh). ie_revision x \<le> m) \<and> sh_id sh < sq_next_id s)"

text \<open>
  A backfill that races with writes leaves a ring out of order. What came after the revision \<open>b\<close> is
  in order, and everything older is in front of it.
\<close>

definition sorted_since :: "rev \<Rightarrow> 'b internal_event list \<Rightarrow> bool" where
  "sorted_since b = sorted_wrt (\<lambda>x y. ie_revision x \<le> b \<or> ie_revision x < ie_revision y)"

text \<open>
  The shard with identity \<open>i\<close> under \<open>q\<close> covers the prefix \<open>p\<close> since \<open>b\<close>: from every revision that is
  neither before \<open>b\<close> nor behind its horizon, its ring replays what was sent.
\<close>

definition covers :: "string \<Rightarrow> string \<Rightarrow> nat \<Rightarrow> rev \<Rightarrow> 'b sqlite_store \<Rightarrow> bool" where
  "covers p q i b s =
     (i < sq_next_id s \<and>
      (\<forall>sh. map_of (sq_shards s) q = Some sh \<and> sh_id sh = i \<longrightarrow>
         sorted_since b (sh_ring sh) \<and>
         (\<forall>f. b \<le> f \<and> sh_horizon sh \<le> f \<longrightarrow>
            replay_filter p f (sh_ring sh) = replay_filter p f (sq_tx s))))"

lemma replay_filter_append [simp]: "replay_filter p f (xs @ ys) = replay_filter p f xs @ replay_filter p f ys"
  by (simp add: replay_filter_def)

lemma pushed_parts:
  "sh_ring (pushed now e sh) =
     (if length (sh_ring sh) < ring_capacity then sh_ring sh @ [e] else tl (sh_ring sh @ [e]))"
  "sh_horizon (pushed now e sh) = max (sh_horizon sh) (evicted_floor (sh_ring sh @ [e]))"
  by (auto simp: pushed_def push_into_shard_def Let_def)

lemma pushed_horizon: "sh_horizon sh \<le> sh_horizon (pushed now e sh)"
  unfolding pushed_def by (rule push_into_shard_horizon)

lemma pushed_subset: "set (sh_ring (pushed now e sh)) \<subseteq> insert e (set (sh_ring sh))"
  by (cases "sh_ring sh") (auto simp: pushed_parts)

lemma sorted_since_tl: "sorted_since b xs \<Longrightarrow> sorted_since b (tl xs)"
  by (cases xs) (simp_all add: sorted_since_def)

lemma sorted_since_snoc:
  "sorted_since b xs \<Longrightarrow> \<forall>x \<in> set xs. ie_revision x < ie_revision e \<Longrightarrow> sorted_since b (xs @ [e])"
  by (simp add: sorted_since_def sorted_wrt_append)

text \<open>A push that evicts takes nothing that a replay from the new horizon would have found.\<close>

lemma pushed_replay:
  assumes "sorted_since b (sh_ring sh @ [e])" and "b \<le> f" and "sh_horizon (pushed now e sh) \<le> f"
  shows "replay_filter p f (sh_ring (pushed now e sh)) = replay_filter p f (sh_ring sh @ [e])"
proof (cases "length (sh_ring sh) < ring_capacity")
  case False
  then obtain x y r where r: "sh_ring sh @ [e] = x # y # r"
    by (cases "sh_ring sh"; cases "tl (sh_ring sh)") (auto simp: ring_capacity_def)
  have "length (x # y # r) > ring_capacity" using False unfolding r [symmetric] by simp
  then have "ie_revision y \<le> f" using assms(3) unfolding pushed_parts r by (simp add: evicted_floor_def)
  moreover have "ie_revision x \<le> b \<or> ie_revision x < ie_revision y"
    using assms(1) unfolding r by (auto simp: sorted_since_def)
  ultimately have "\<not> f < ie_revision x" using assms(2) by linarith
  then show ?thesis using False unfolding pushed_parts r by (simp add: replay_filter_def)
qed (simp add: pushed_parts)

lemma rings_below_push:
  assumes "rings_below m s" and "m < ie_revision e"
  shows "rings_below (ie_revision e) (push_event_locked now root ns e s)"
  unfolding rings_below_def
proof (intro allI impI)
  fix k sh' assume sh': "map_of (sq_shards (push_event_locked now root ns e s)) k = Some sh'"
  have below: "(\<forall>x \<in> set (sh_ring sh). ie_revision x \<le> m) \<and> sh_id sh < sq_next_id s"
    if "map_of (sq_shards s) k = Some sh" for sh using assms(1) that by (simp add: rings_below_def)
  have nxt: "sq_next_id s \<le> sq_next_id (push_event_locked now root ns e s)" by simp
  consider (old) "map_of (sq_shards s) k = Some sh'"
    | (push) sh where "map_of (sq_shards s) k = Some sh" "sh' = pushed now e sh"
    | (new) h where "sh' = pushed now e (new_shard (sq_next_id s) h)" "map_of (sq_shards s) root = None"
        "ie_value e = None" "\<forall>k' \<in> push_targets root ns. map_of (sq_shards s) k' = None"
    using sh' unfolding push_event_locked_shards by (auto simp: push_targets_def split: if_splits)
  then show "(\<forall>x \<in> set (sh_ring sh'). ie_revision x \<le> ie_revision e) \<and>
      sh_id sh' < sq_next_id (push_event_locked now root ns e s)"
  proof cases
    case old
    from below [OF this] assms(2) show ?thesis by (auto intro: less_le_trans [OF _ nxt])
  next
    case push
    have "\<forall>x \<in> set (sh_ring sh'). ie_revision x \<le> ie_revision e"
      using below [OF push(1)] pushed_subset [of now e sh] assms(2) push(2) by fastforce
    then show ?thesis using below [OF push(1)] push(2) by (auto intro: less_le_trans [OF _ nxt])
  next
    case new
    have "map fst (matching_shards (sq_shards s) root ns) = []"
      unfolding set_empty [symmetric] matching_shards_keys(1) using new(4) by auto
    then have "sq_next_id (push_event_locked now root ns e s) = Suc (sq_next_id s)"
      using new(2,3) by (simp add: push_event_locked_def Let_def get_or_create_shard_def)
    then show ?thesis
      using pushed_subset [of now e "new_shard (sq_next_id s) h"] new(1) by (auto simp: new_shard_def)
  qed
qed

lemma covers_push:
  assumes "covers p q i b s" and "rings_below m s" and "m < ie_revision e"
    and "starts_with (ie_key e) p \<Longrightarrow> q \<in> push_targets root ns"
  shows "covers p q i b (push_event_locked now root ns e s)"
  unfolding covers_def
proof (intro conjI allI impI)
  let ?s' = "push_event_locked now root ns e s"
  show "i < sq_next_id ?s'"
    using assms(1) by (auto simp: covers_def intro: less_le_trans [OF _ push_event_locked_rest(3)])
  fix sh' assume a: "map_of (sq_shards ?s') q = Some sh' \<and> sh_id sh' = i"
  have i: "i < sq_next_id s" using assms(1) by (simp add: covers_def)
  have cov: "sorted_since b (sh_ring sh)"
    "b \<le> f \<and> sh_horizon sh \<le> f \<Longrightarrow> replay_filter p f (sh_ring sh) = replay_filter p f (sq_tx s)"
    if "map_of (sq_shards s) q = Some sh" "sh_id sh = i" for sh f
    using assms(1) that by (auto simp: covers_def)
  have "sorted_since b (sh_ring sh') \<and> (\<forall>f. b \<le> f \<and> sh_horizon sh' \<le> f \<longrightarrow>
      replay_filter p f (sh_ring sh') = replay_filter p f (sq_tx ?s'))"
  proof (cases "q \<in> push_targets root ns \<and> map_of (sq_shards s) q \<noteq> None")
    case True
    then obtain sh where sh: "map_of (sq_shards s) q = Some sh" "sh' = pushed now e sh"
      using a by (auto simp: push_event_locked_shards)
    have shi: "sh_id sh = i" using a sh(2) by simp
    have srt: "sorted_since b (sh_ring sh @ [e])"
      using cov(1) [OF sh(1) shi] assms(2,3) sh(1) by (intro sorted_since_snoc) (fastforce simp: rings_below_def)+
    then have "sorted_since b (sh_ring sh')" using sorted_since_tl [OF srt] by (simp add: sh(2) pushed_parts)
    moreover have "replay_filter p f (sh_ring sh') = replay_filter p f (sq_tx ?s')" if "b \<le> f" "sh_horizon sh' \<le> f" for f
      using pushed_replay [OF srt that(1)] cov(2) [OF sh(1) shi, of f] pushed_horizon [of sh now e] that sh(2) by simp
    ultimately show ?thesis by blast
  next
    case False
    then have same: "map_of (sq_shards s) q = Some sh'"
      using a i unfolding push_event_locked_shards by (auto split: if_splits)
    then have "\<not> starts_with (ie_key e) p" using assms(4) False by auto
    then have "replay_filter p f [e] = []" for f by (simp add: replay_filter_def)
    then show ?thesis using cov [OF same] a by simp
  qed
  then show "sorted_since b (sh_ring sh')"
    "b \<le> f \<and> sh_horizon sh' \<le> f \<Longrightarrow> replay_filter p f (sh_ring sh') = replay_filter p f (sq_tx ?s')" for f
    by blast+
qed

text \<open>Several pushes in a row, as the events of one write or of a namespace delete.\<close>

type_synonym 'b send = "string \<times> string option \<times> 'b internal_event"

definition push_all :: "nat \<Rightarrow> 'b send list \<Rightarrow> 'b sqlite_store \<Rightarrow> 'b sqlite_store" where
  "push_all now = fold (\<lambda>(root, ns, e). push_event_locked now root ns e)"

lemma push_all_simps [simp]:
  "push_all now [] s = s"
  "push_all now ((root, ns, e) # L) s = push_all now L (push_event_locked now root ns e s)"
  by (simp_all add: push_all_def)

lemma push_all_rest [simp]:
  "sq_db (push_all now L s) = sq_db s" "sq_tx (push_all now L s) = sq_tx s @ map (snd \<circ> snd) L"
  by (induction L arbitrary: s) auto

lemma push_all_covers:
  assumes "rings_below m s" and "map (\<lambda>(_, _, e). ie_revision e) L = [Suc m..<Suc (m + length L)]"
    and "covers p q i b s"
    and "\<And>root ns e. (root, ns, e) \<in> set L \<Longrightarrow> starts_with (ie_key e) p \<Longrightarrow> q \<in> push_targets root ns"
  shows "rings_below (m + length L) (push_all now L s) \<and> covers p q i b (push_all now L s)"
  using assms
proof (induction L arbitrary: m s)
  case (Cons x L)
  obtain root ns e where x: "x = (root, ns, e)" by (cases x)
  have revs: "ie_revision e = Suc m" "map (\<lambda>(_, _, e). ie_revision e) L = [Suc (Suc m)..<Suc (Suc m + length L)]"
    using Cons.prems(2) by (simp_all add: x upt_conv_Cons del: upt_Suc)
  have "rings_below (Suc m) (push_event_locked now root ns e s)"
    using rings_below_push [OF Cons.prems(1), of e] revs(1) by simp
  moreover have "covers p q i b (push_event_locked now root ns e s)"
    using Cons.prems(1,3,4) revs(1) x by (intro covers_push [where m = m]) auto
  moreover have "q \<in> push_targets root' ns'" if "(root', ns', e') \<in> set L" "starts_with (ie_key e') p" for root' ns' e'
    using Cons.prems(4) that by auto
  ultimately show ?case
    using Cons.IH [OF _ revs(2), of "push_event_locked now root ns e s"] x by simp
qed simp

subsection \<open>Runs of the store\<close>

text \<open>
  \<open>route\<close> says which keys are written with which namespace; it is what relates a key to the
  shards its events are pushed into.
\<close>

inductive store_write ::
    "'b codec \<Rightarrow> (string \<Rightarrow> string option \<Rightarrow> bool) \<Rightarrow> 'b sqlite_store \<Rightarrow> 'b sqlite_store \<Rightarrow> bool"
  for c :: "'b codec" and route where
  write_put:
    "store_put c now s key value expected = (s', out) \<Longrightarrow>
     (\<And>d res. put_sync c (sq_db s) key value expected = Inr (d, res) \<Longrightarrow> \<not> pr_is_noop res \<Longrightarrow> route key (pr_ns res)) \<Longrightarrow>
     store_write c route s s'"
| write_create:
    "store_create_if_namespace_active c now s ns_key key value = (s', out) \<Longrightarrow>
     (\<And>d r body ns. create_if_namespace_active_sync c (sq_db s) ns_key key value = Inr (d, (r, body, ns)) \<Longrightarrow> route key ns) \<Longrightarrow>
     store_write c route s s'"
| write_delete:
    "store_delete now s key expected = (s', out) \<Longrightarrow>
     (\<And>row. row_at (sq_db s) key = Some row \<Longrightarrow> route key (row_ns row)) \<Longrightarrow> store_write c route s s'"
| write_delete_namespace:
    "scan_ok f \<Longrightarrow> store_delete_namespace f now s ns = (s', out) \<Longrightarrow>
     (\<And>k row. row_at (sq_db s) k = Some row \<Longrightarrow> row_ns row = Some ns \<Longrightarrow> route k (Some ns)) \<Longrightarrow>
     store_write c route s s'"

inductive store_other :: "'b sqlite_store \<Rightarrow> 'b sqlite_store \<Rightarrow> bool" where
  other_drop: "store_other s (guard_drop h s)"
| other_gc: "store_other s (idle_gc ho t s)"
| other_evict: "store_other s (evict_resource_type ho p s)"

text \<open>
  The store with the watches that are being opened. Writes, openings at every phase, openings given
  up, watches that close, idle timers and evicted types interleave without restriction.
\<close>

fun option_list :: "'a option \<Rightarrow> 'a list" where
  "option_list None = []"
| "option_list (Some x) = [x]"

record 'b watch_world =
  ww_store :: "'b sqlite_store"
  ww_openings :: "'b opening_phase list"

inductive watch_step ::
    "'b codec \<Rightarrow> (string \<Rightarrow> string option \<Rightarrow> bool) \<Rightarrow> 'b watch_world \<Rightarrow> 'b watch_world \<Rightarrow> bool"
  for c :: "'b codec" and route where
  step_write: "store_write c route (ww_store w) s' \<Longrightarrow> watch_step c route w (w\<lparr>ww_store := s'\<rparr>)"
| step_other: "store_other (ww_store w) s' \<Longrightarrow> watch_step c route w (w\<lparr>ww_store := s'\<rparr>)"
| step_find: "watch_step c route w (w\<lparr>ww_openings := ww_openings w @ [watch_find p (ww_store w)]\<rparr>)"
| step_open:
    "ww_openings w = xs @ ph # ys \<Longrightarrow> open_step c now ph (ww_store w) = (s', ph') \<Longrightarrow>
     watch_step c route w \<lparr>ww_store = s', ww_openings = xs @ option_list ph' @ ys\<rparr>"
| step_cancel: "ww_openings w = xs @ ph # ys \<Longrightarrow> watch_step c route w (w\<lparr>ww_openings := xs @ ys\<rparr>)"

inductive watch_run ::
    "'b codec \<Rightarrow> (string \<Rightarrow> string option \<Rightarrow> bool) \<Rightarrow> 'b watch_world \<Rightarrow> 'b watch_world \<Rightarrow> bool"
  for c :: "'b codec" and route where
  run_refl: "watch_run c route w w"
| run_step: "watch_run c route w w' \<Longrightarrow> watch_step c route w' w'' \<Longrightarrow> watch_run c route w w''"

text \<open>
  A shard is settled when it is live and no opening in flight can still push into it: none is about
  to list or seed it, and none is about to create the key it lives under.
\<close>

fun will_seed :: "string \<Rightarrow> nat \<Rightarrow> 'b opening_phase \<Rightarrow> bool" where
  "will_seed q i (Listing k j) = (k = q \<and> j = i)"
| "will_seed q i (Seeding k j items) = (k = q \<and> j = i)"
| "will_seed q i _ = False"

definition live :: "string \<Rightarrow> nat \<Rightarrow> 'b sqlite_store \<Rightarrow> bool" where
  "live q i s = (case map_of (sq_shards s) q of None \<Rightarrow> False | Some sh \<Rightarrow> sh_id sh = i)"

definition settled :: "string \<Rightarrow> nat \<Rightarrow> 'b watch_world \<Rightarrow> bool" where
  "settled q i w =
     (live q i (ww_store w) \<and> list_all (\<lambda>ph. \<not> will_seed q i ph \<and> ph \<noteq> Creating q) (ww_openings w))"

text \<open>Every write is a step of the tables followed by the pushes of its events, one per revision.\<close>

definition sends_of ::
    "(string \<Rightarrow> string option \<Rightarrow> bool) \<Rightarrow> rev \<Rightarrow> 'b send list \<Rightarrow> bool" where
  "sends_of route m L =
     (map (\<lambda>(_, _, e). ie_revision e) L = [Suc m..<Suc (m + length L)] \<and>
      (\<forall>(root, ns, e) \<in> set L. root = shard_key (ie_key e) ns \<and> route (ie_key e) ns))"

lemma delete_namespace_sends:
  assumes "scan_ok f" and "delete_namespace_sync f d ns = (d', out)" and "db_inv c d"
    and "\<And>k row. row_at d k = Some row \<Longrightarrow> row_ns row = Some ns \<Longrightarrow> route k (Some ns)"
  defines "L \<equiv> map (\<lambda>(k, b, r). (shard_key k (Some ns), Some ns, delete_event k r b)) out"
  shows "sends_of route (meta_revision d) L" and "meta_revision d' = meta_revision d + length L"
proof -
  have wf: "bt_wf (objects d)" "last_written d \<le> meta_revision d" using assms(3) by (auto simp: db_inv_def)
  note spec = delete_namespace_spec [OF assms(1,2) wf]
  show "meta_revision d' = meta_revision d + length L" using spec(4) by (simp add: L_def)
  have "map (\<lambda>(_, _, e). ie_revision e) L = map (\<lambda>(k, b, r). r) out"
    by (auto simp: L_def delete_event_def)
  moreover have "route k (Some ns)" if "(k, b, r) \<in> set out" for k b r
  proof -
    have "(k, b) \<in> set (map (\<lambda>(k, b, r). (k, b)) out)" using that by force
    then have "(k, b) \<in> set (rows_in_namespace d ns)" using mset_eq_setD [OF spec(2)] by blast
    then obtain row where "(k, row) \<in> set (objects d)" "row_ns row = Some ns"
      by (auto simp: rows_in_namespace_def)
    then show ?thesis using assms(4) bt_wf_map_of_iff [OF wf(1)] by (simp add: row_at_def)
  qed
  ultimately show "sends_of route (meta_revision d) L"
    using spec(3) unfolding sends_of_def by (auto simp: L_def delete_event_def)
qed

definition write_effect ::
    "'b codec \<Rightarrow> (string \<Rightarrow> string option \<Rightarrow> bool) \<Rightarrow> 'b sqlite_store \<Rightarrow> 'b sqlite_store \<Rightarrow> bool" where
  "write_effect c route s s' =
     (\<exists>now L d. s' = push_all now L (s\<lparr>sq_db := d\<rparr>) \<and> (d = sq_db s \<or> db_step c (sq_db s) d) \<and>
        sends_of route (meta_revision (sq_db s)) L \<and> meta_revision d = meta_revision (sq_db s) + length L)"

lemma write_effect_refl: "write_effect c route s s"
proof -
  have "s = push_all 0 [] (s\<lparr>sq_db := sq_db s\<rparr>)" by simp
  then show ?thesis unfolding write_effect_def sends_of_def by fastforce
qed

lemma write_effectI:
  "s' = push_all now L (s\<lparr>sq_db := d\<rparr>) \<Longrightarrow> db_step c (sq_db s) d \<Longrightarrow>
     sends_of route (meta_revision (sq_db s)) L \<Longrightarrow> meta_revision d = meta_revision (sq_db s) + length L \<Longrightarrow>
     write_effect c route s s'"
  unfolding write_effect_def by blast

lemma put_effect:
  assumes "\<And>d res. put_sync c (sq_db s) key val expected = Inr (d, res) \<Longrightarrow> \<not> pr_is_noop res \<Longrightarrow> route key (pr_ns res)"
  shows "write_effect c route s (fst (store_put c now s key val expected))"
proof (cases "put_sync c (sq_db s) key val expected")
  case (Inl e)
  then show ?thesis by (simp add: store_put_def write_effect_refl)
next
  case (Inr x)
  then obtain d res where put: "put_sync c (sq_db s) key val expected = Inr (d, res)" by (cases x) auto
  then show ?thesis
  proof (cases rule: put_sync_cases)
    case noop
    then show ?thesis using put by (simp add: store_put_def write_effect_refl)
  next
    case (wrote stamped ns name)
    let ?L = "[(shard_key key (pr_ns res), pr_ns res, put_event key res)]"
    have "sends_of route (meta_revision (sq_db s)) ?L"
      using assms [OF put] wrote(3) by (simp add: sends_of_def put_event_def)
    moreover have "fst (store_put c now s key val expected) = push_all now ?L (s\<lparr>sq_db := d\<rparr>)"
      using put wrote(3) by (simp add: store_put_def)
    moreover have "meta_revision d = meta_revision (sq_db s) + length ?L"
      using wrote(2) by (simp add: write_row_def)
    ultimately show ?thesis using step_put [OF put] by (intro write_effectI)
  qed
qed

lemma create_effect:
  assumes "\<And>d r body ns. create_if_namespace_active_sync c (sq_db s) ns_key key val = Inr (d, (r, body, ns)) \<Longrightarrow> route key ns"
  shows "write_effect c route s (fst (store_create_if_namespace_active c now s ns_key key val))"
proof (cases "create_if_namespace_active_sync c (sq_db s) ns_key key val")
  case (Inl e)
  then show ?thesis by (simp add: store_create_if_namespace_active_def write_effect_refl)
next
  case (Inr x)
  then obtain d r body ns where cr: "create_if_namespace_active_sync c (sq_db s) ns_key key val = Inr (d, (r, body, ns))"
    by (cases x) auto
  let ?e = "\<lparr>ie_key = key, ie_revision = r, ie_value = Some body, ie_is_create = True, ie_deleted_body = None\<rparr>"
  let ?L = "[(shard_key key ns, ns, ?e)]"
  have eff: "r = Suc (meta_revision (sq_db s))" "meta_revision d = meta_revision (sq_db s) + length ?L"
    using create_sync_cases [OF cr] by (fastforce simp: write_row_def)+
  have "fst (store_create_if_namespace_active c now s ns_key key val) = push_all now ?L (s\<lparr>sq_db := d\<rparr>)"
    using cr by (simp add: store_create_if_namespace_active_def)
  moreover have "sends_of route (meta_revision (sq_db s)) ?L"
    using assms [OF cr] eff(1) by (simp add: sends_of_def)
  ultimately show ?thesis using eff(2) step_create [OF cr] by (intro write_effectI)
qed

lemma store_delete_effect:
  assumes "\<And>row. row_at (sq_db s) key = Some row \<Longrightarrow> route key (row_ns row)"
  shows "write_effect c route s (fst (store_delete now s key expected))"
proof (cases "delete_sync (sq_db s) key expected")
  case (Inl e)
  then show ?thesis by (simp add: store_delete_def write_effect_refl)
next
  case (Inr x)
  then obtain d r body ns where del: "delete_sync (sq_db s) key expected = Inr (d, (r, body, ns))"
    by (cases x) auto
  let ?L = "[(shard_key key ns, ns, delete_event key r body)]"
  from del obtain row where row: "row_at (sq_db s) key = Some row" "d = delete_row (sq_db s) key (Suc (meta_revision (sq_db s)))"
    "r = Suc (meta_revision (sq_db s))" "ns = row_ns row" by (rule delete_sync_cases) auto
  have "fst (store_delete now s key expected) = push_all now ?L (s\<lparr>sq_db := d\<rparr>)"
    using del by (simp add: store_delete_def)
  moreover have "sends_of route (meta_revision (sq_db s)) ?L"
    using assms [OF row(1)] row(3,4) by (simp add: sends_of_def delete_event_def)
  moreover have "meta_revision d = meta_revision (sq_db s) + length ?L" using row(2) by (simp add: delete_row_def)
  ultimately show ?thesis using step_delete [OF del] by (intro write_effectI)
qed

lemma delete_namespace_effect:
  assumes "scan_ok f" and "db_inv c (sq_db s)"
    and "\<And>k row. row_at (sq_db s) k = Some row \<Longrightarrow> row_ns row = Some ns \<Longrightarrow> route k (Some ns)"
  shows "write_effect c route s (fst (store_delete_namespace f now s ns))"
proof -
  obtain d deleted where del: "delete_namespace_sync f (sq_db s) ns = (d, deleted)" by fastforce
  let ?L = "map (\<lambda>(k, b, r). (shard_key k (Some ns), Some ns, delete_event k r b)) deleted"
  have "fst (store_delete_namespace f now s ns) = push_all now ?L (s\<lparr>sq_db := d\<rparr>)"
    using del by (simp add: store_delete_namespace_def push_all_def fold_map comp_def split_def)
  then show ?thesis
    using delete_namespace_sends [where route = route, OF assms(1) del assms(2,3)] step_delete_namespace [OF assms(1) del]
    by (intro write_effectI)
qed

lemma store_write_effect:
  assumes "store_write c route s s'" and "db_inv c (sq_db s)"
  shows "write_effect c route s s'"
  using assms(1)
proof cases
  case (write_put now key val expected out)
  then show ?thesis using put_effect [of c s key val expected route now] by simp
next
  case (write_create now ns_key key val out)
  then show ?thesis using create_effect [of c s ns_key key val route now] by simp
next
  case (write_delete now key expected out)
  then show ?thesis using store_delete_effect [of s key route c now expected] by simp
next
  case (write_delete_namespace f now ns out)
  then show ?thesis using delete_namespace_effect [OF _ assms(2), of f ns route now] by simp
qed

subsection \<open>Steps that do not write\<close>

text \<open>Shards may go and watchers come and go; the history of those that stay is untouched.\<close>

definition sub_history :: "'b sqlite_store \<Rightarrow> 'b sqlite_store \<Rightarrow> bool" where
  "sub_history s s' =
     (sq_db s' = sq_db s \<and> sq_tx s' = sq_tx s \<and> sq_next_id s' = sq_next_id s \<and>
      (\<forall>k sh'. map_of (sq_shards s') k = Some sh' \<longrightarrow>
         (\<exists>sh. map_of (sq_shards s) k = Some sh \<and> sh_id sh' = sh_id sh \<and> sh_ring sh' = sh_ring sh \<and>
            sh_horizon sh' = sh_horizon sh)))"

lemma sub_history_refl: "sub_history s s"
  by (simp add: sub_history_def)

lemma sub_history_trans:
  assumes "sub_history s s'" and "sub_history s' s''"
  shows "sub_history s s''"
  unfolding sub_history_def
proof (intro conjI allI impI)
  fix k sh'' assume "map_of (sq_shards s'') k = Some sh''"
  with assms(2) obtain sh' where sh': "map_of (sq_shards s') k = Some sh'" "sh_id sh'' = sh_id sh'"
    "sh_ring sh'' = sh_ring sh'" "sh_horizon sh'' = sh_horizon sh'" unfolding sub_history_def by blast
  with assms(1) obtain sh where "map_of (sq_shards s) k = Some sh" "sh_id sh' = sh_id sh"
    "sh_ring sh' = sh_ring sh" "sh_horizon sh' = sh_horizon sh" unfolding sub_history_def by blast
  with sh' show "\<exists>sh. map_of (sq_shards s) k = Some sh \<and> sh_id sh'' = sh_id sh \<and> sh_ring sh'' = sh_ring sh \<and>
      sh_horizon sh'' = sh_horizon sh" by auto
qed (use assms in \<open>auto simp: sub_history_def\<close>)

lemma sub_history_attach: "sub_history s (guard_attach h s)"
  by (auto simp: sub_history_def guard_attach_def split: option.splits)

lemma sub_history_drop: "sub_history s (guard_drop h s)"
  by (auto simp: sub_history_def guard_drop_def Let_def split: option.splits)

lemma sub_history_tear_down: "sub_history s (tear_down_shard ho k s)"
  by (auto simp: sub_history_def tear_down_shard_def split: option.splits)

lemma sub_history_gc: "sub_history s (idle_gc ho t s)"
  using sub_history_tear_down sub_history_refl by (auto simp: idle_gc_def split: option.split)

lemma sub_history_evict: "sub_history s (evict_resource_type ho p s)"
proof -
  have "sub_history s (fold (tear_down_shard ho) ks s)" for ks
  proof (induction ks arbitrary: s)
    case (Cons k ks)
    then show ?case using sub_history_trans [OF sub_history_tear_down] by fastforce
  qed (simp add: sub_history_refl)
  then show ?thesis by (simp add: evict_resource_type_def Let_def)
qed

lemma rings_below_sub:
  assumes "rings_below m s" and "sub_history s s'"
  shows "rings_below m s'"
  unfolding rings_below_def
proof (intro allI impI)
  fix k sh' assume "map_of (sq_shards s') k = Some sh'"
  with assms(2) obtain sh where "map_of (sq_shards s) k = Some sh" "sh_id sh' = sh_id sh"
    "sh_ring sh' = sh_ring sh" unfolding sub_history_def by blast
  moreover have "sq_next_id s' = sq_next_id s" using assms(2) by (simp add: sub_history_def)
  ultimately show "(\<forall>x \<in> set (sh_ring sh'). ie_revision x \<le> m) \<and> sh_id sh' < sq_next_id s'"
    using assms(1) by (simp add: rings_below_def)
qed

lemma covers_sub:
  assumes "covers p q i b s" and "sub_history s s'"
  shows "covers p q i b s'"
  unfolding covers_def
proof (intro conjI allI impI)
  show "i < sq_next_id s'" using assms by (simp add: covers_def sub_history_def)
  fix sh' assume a: "map_of (sq_shards s') q = Some sh' \<and> sh_id sh' = i"
  with assms(2) obtain sh where sh: "map_of (sq_shards s) q = Some sh" "sh_id sh' = sh_id sh"
    "sh_ring sh' = sh_ring sh" "sh_horizon sh' = sh_horizon sh" unfolding sub_history_def by blast
  with a assms show "sorted_since b (sh_ring sh')" by (simp add: covers_def)
  show "replay_filter p f (sh_ring sh') = replay_filter p f (sq_tx s')" if "b \<le> f \<and> sh_horizon sh' \<le> f" for f
    using a assms sh that by (simp add: covers_def sub_history_def)
qed

lemma live_sub: "sub_history s s' \<Longrightarrow> live q i s' \<Longrightarrow> live q i s"
  unfolding live_def sub_history_def by (cases "map_of (sq_shards s') q") fastforce+

lemma store_other_sub: "store_other s s' \<Longrightarrow> sub_history s s'"
  by (induction rule: store_other.induct) (rule sub_history_drop sub_history_gc sub_history_evict)+

lemma find_shard_key_None: "find_shard_key m p = None \<Longrightarrow> map_of m p = None"
  by (auto simp: find_shard_key_def split: option.splits)

lemma watch_list_below:
  assumes "db_inv c (sq_db s)" and "watch_list c p s = Inr items"
  shows "\<forall>ob \<in> set items. so_revision ob \<le> meta_revision (sq_db s)"
proof -
  obtain resp where resp: "list_sync 0 c (sq_db s) p default_options = Some (Inr resp)"
    "items = sort_key so_revision (lr_items resp)"
    using assms(2) by (auto simp: watch_list_def split: option.splits sum.splits)
  obtain P where P: "lr_items resp = map to_object (filter P (objects (sq_db s)))"
    using resp(1)
    by (auto simp: list_sync_def list_page_def default_options_def clamp_list_limit_def list_unfiltered_def
        query_rows_def limit_rows_def Let_def split: option.splits)
  have "\<forall>e \<in> set (objects (sq_db s)). row_revision (snd e) \<le> meta_revision (sq_db s)"
    using assms(1) by (auto simp: db_inv_def rows_bounded_def)
  then show ?thesis by (auto simp: resp(2) P to_object_def)
qed

subsection \<open>Steps of an opening\<close>

definition seeds_below :: "rev \<Rightarrow> 'b opening_phase \<Rightarrow> bool" where
  "seeds_below m ph = (case ph of Seeding k i items \<Rightarrow> \<forall>ob \<in> set items. so_revision ob \<le> m | _ \<Rightarrow> True)"

text \<open>What a step that is not a write keeps of a shard's coverage.\<close>

definition keeps_cover :: "rev \<Rightarrow> string \<Rightarrow> string \<Rightarrow> nat \<Rightarrow> rev \<Rightarrow> 'b sqlite_store \<Rightarrow> 'b sqlite_store \<Rightarrow> bool" where
  "keeps_cover m p q i b s s' =
     (sq_db s' = sq_db s \<and> sq_tx s' = sq_tx s \<and> rings_below m s' \<and> covers p q i b s' \<and>
      (live q i s' \<longrightarrow> live q i s))"

lemma keeps_cover_refl: "rings_below m s \<Longrightarrow> covers p q i b s \<Longrightarrow> keeps_cover m p q i b s s"
  by (simp add: keeps_cover_def)

lemma sub_history_same: "sub_history s s' \<Longrightarrow> sq_db s' = sq_db s \<and> sq_tx s' = sq_tx s"
  by (simp add: sub_history_def)

lemma keeps_cover_sub:
  "sub_history s s' \<Longrightarrow> rings_below m s \<Longrightarrow> covers p q i b s \<Longrightarrow> keeps_cover m p q i b s s'"
  using rings_below_sub covers_sub live_sub sub_history_same unfolding keeps_cover_def by blast

lemma create_keeps_cover:
  assumes "rings_below m s" and "covers p q i b s"
  shows "keeps_cover m p q i b s (get_or_create_shard k s)"
proof (cases "map_of (sq_shards s) k")
  case None
  have nxt: "sq_next_id (get_or_create_shard k s) = Suc (sq_next_id s)"
    using None by (simp add: get_or_create_shard_def Let_def)
  have shards: "map_of (sq_shards (get_or_create_shard k s)) =
      (map_of (sq_shards s))(k \<mapsto> new_shard (sq_next_id s) (find_reclaimed_horizon (sq_reclaimed s) k))"
    using None by (simp add: get_or_create_shards)
  have "sh_ring (new_shard j h :: 'a ring_shard) = []" for j h by (simp add: new_shard_def)
  then have "rings_below m (get_or_create_shard k s)"
    using assms(1) by (auto simp: rings_below_def shards nxt less_Suc_eq)
  moreover have "covers p q i b (get_or_create_shard k s)" using assms(2) by (auto simp: covers_def shards nxt)
  moreover have "live q i (get_or_create_shard k s) \<longrightarrow> live q i s"
    using assms(2) by (auto simp: covers_def live_def shards)
  ultimately show ?thesis by (simp add: keeps_cover_def)
next
  case Some
  then show ?thesis using keeps_cover_refl [OF assms] by (simp add: get_or_create_shard_def)
qed

lemma seed_keeps_cover:
  assumes "rings_below m s" and "covers p q i b s" and "so_revision ob \<le> m" and "(k, j) \<noteq> (q, i)"
  shows "keeps_cover m p q i b s (watch_seed now (k, j) ob s)"
proof (cases "live k j s")
  case True
  then obtain sh where sh: "map_of (sq_shards s) k = Some sh" "sh_id sh = j"
    by (auto simp: live_def split: option.splits)
  let ?s' = "push_at now (seed_event ob) k s"
  have shards: "map_of (sq_shards ?s') = (map_of (sq_shards s))(k \<mapsto> pushed now (seed_event ob) sh)"
    using sh(1) by (simp add: push_at_shards)
  have "\<forall>x \<in> set (sh_ring (pushed now (seed_event ob) sh)). ie_revision x \<le> m"
    using pushed_subset [of now "seed_event ob" sh] assms(1,3) sh(1) by (fastforce simp: rings_below_def seed_event_def)
  then have "rings_below m ?s'" using assms(1) sh(1) by (auto simp: rings_below_def shards)
  moreover have "covers p q i b ?s'" using assms(2,4) sh(2) by (auto simp: covers_def shards)
  moreover have "live q i ?s' \<longrightarrow> live q i s" using sh by (auto simp: live_def shards)
  ultimately show ?thesis using sh by (simp add: keeps_cover_def watch_seed_def)
next
  case False
  then have "watch_seed now (k, j) ob s = s" by (auto simp: watch_seed_def live_def split: option.splits)
  then show ?thesis using keeps_cover_refl [OF assms(1,2)] by simp
qed

lemma open_step_keeps:
  assumes "open_step c now ph s = (s', ph')" and "db_inv c (sq_db s)" and "seeds_below (meta_revision (sq_db s)) ph"
    and "rings_below (meta_revision (sq_db s)) s" and "covers p q i b s"
    and "\<not> will_seed q i ph" and "live q i s \<Longrightarrow> ph \<noteq> Creating q"
  shows "keeps_cover (meta_revision (sq_db s)) p q i b s s'"
    and "\<forall>x \<in> set (option_list ph'). seeds_below (meta_revision (sq_db s)) x \<and> \<not> will_seed q i x \<and> x \<noteq> Creating q"
proof -
  let ?m = "meta_revision (sq_db s)"
  have "keeps_cover ?m p q i b s s' \<and>
    (\<forall>x \<in> set (option_list ph'). seeds_below ?m x \<and> \<not> will_seed q i x \<and> x \<noteq> Creating q)"
  proof (cases ph)
    case (Creating k)
    have s': "s' = get_or_create_shard k s" and ph': "ph' = map_option (\<lambda>sh. Listing k (sh_id sh)) (map_of (sq_shards s') k)"
      using assms(1) by (auto simp: Creating watch_create_def Let_def)
    have keep: "keeps_cover ?m p q i b s s'" unfolding s' by (rule create_keeps_cover [OF assms(4,5)])
    have "\<not> live q i s'" if "k = q" using assms(7) Creating that keep by (auto simp: keeps_cover_def)
    then have "\<not> will_seed q i x" if "x \<in> set (option_list ph')" for x
      using that ph' by (cases "map_of (sq_shards s') k") (auto simp: live_def)
    moreover have "seeds_below ?m x \<and> x \<noteq> Creating q" if "x \<in> set (option_list ph')" for x
      using that ph' by (cases "map_of (sq_shards s') k") (auto simp: seeds_below_def)
    ultimately show ?thesis using keep by blast
  next
    case (Listing k j)
    then have "s' = s" "ph' = None \<or> (\<exists>items. watch_list c k s = Inr items \<and> ph' = Some (Seeding k j items))"
      using assms(1) by (auto split: sum.splits)
    then show ?thesis
      using keeps_cover_refl [OF assms(4,5)] watch_list_below [OF assms(2)] assms(6) Listing
      by (auto simp: seeds_below_def)
  next
    case (Seeding k j items)
    then show ?thesis
      using assms(1,3,6) keeps_cover_refl [OF assms(4,5)] seed_keeps_cover [OF assms(4,5), of _ k j now]
      by (cases items) (auto simp: seeds_below_def)
  next
    case (Attaching k j)
    then show ?thesis using assms(1) keeps_cover_sub [OF sub_history_attach assms(4,5)] by auto
  qed
  then show "keeps_cover ?m p q i b s s'"
    "\<forall>x \<in> set (option_list ph'). seeds_below ?m x \<and> \<not> will_seed q i x \<and> x \<noteq> Creating q" by blast+
qed

subsection \<open>Invariant of the store\<close>

definition store_inv :: "'b codec \<Rightarrow> 'b sqlite_store \<Rightarrow> bool" where
  "store_inv c s =
     (db_inv c (sq_db s) \<and> rings_below (meta_revision (sq_db s)) s \<and> ring_sorted (sq_tx s) \<and>
      (\<forall>e \<in> set (sq_tx s). ie_revision e \<le> meta_revision (sq_db s)))"

definition watch_inv :: "'b codec \<Rightarrow> 'b watch_world \<Rightarrow> bool" where
  "watch_inv c w =
     (store_inv c (ww_store w) \<and>
      (\<forall>ph \<in> set (ww_openings w). seeds_below (meta_revision (sq_db (ww_store w))) ph))"

text \<open>A settled shard stays so: while it lives nothing seeds it or creates its key.\<close>

definition undisturbed :: "string \<Rightarrow> nat \<Rightarrow> 'b watch_world \<Rightarrow> bool" where
  "undisturbed q i w =
     (\<forall>ph \<in> set (ww_openings w). \<not> will_seed q i ph \<and> (live q i (ww_store w) \<longrightarrow> ph \<noteq> Creating q))"

definition covered :: "'b codec \<Rightarrow> string \<Rightarrow> string \<Rightarrow> nat \<Rightarrow> rev \<Rightarrow> 'b watch_world \<Rightarrow> bool" where
  "covered c p q i b w = (watch_inv c w \<and> covers p q i b (ww_store w) \<and> undisturbed q i w)"

lemma settled_covered:
  assumes "watch_inv c w" and "settled q i w"
  shows "covered c p q i (meta_revision (sq_db (ww_store w))) w"
proof -
  let ?s = "ww_store w"
  have below: "ie_revision x \<le> meta_revision (sq_db ?s)" if "map_of (sq_shards ?s) q = Some sh" "x \<in> set (sh_ring sh)" for sh x
    using assms(1) that by (auto simp: watch_inv_def store_inv_def rings_below_def)
  have none: "replay_filter p f (sh_ring sh) = []"
    if "map_of (sq_shards ?s) q = Some sh" "meta_revision (sq_db ?s) \<le> f" for sh f
    using below [OF that(1)] that(2) by (fastforce simp: replay_filter_def filter_empty_conv)
  have sent: "replay_filter p f (sq_tx ?s) = []" if "meta_revision (sq_db ?s) \<le> f" for f
    using assms(1) that by (fastforce simp: watch_inv_def store_inv_def replay_filter_def filter_empty_conv)
  have "sorted_since (meta_revision (sq_db ?s)) (sh_ring sh)" if "map_of (sq_shards ?s) q = Some sh" for sh
    unfolding sorted_since_def by (rule sorted_wrt_mono_rel [of _ "\<lambda>_ _. True"]) (simp_all add: below [OF that])
  then have "covers p q i (meta_revision (sq_db ?s)) ?s"
    using assms none sent
    by (auto simp: covers_def settled_def live_def watch_inv_def store_inv_def rings_below_def split: option.splits)
  then show ?thesis using assms by (auto simp: covered_def undisturbed_def settled_def list_all_iff)
qed

definition watch_scope ::
    "(string \<Rightarrow> string option \<Rightarrow> bool) \<Rightarrow> string \<Rightarrow> string \<Rightarrow> bool" where
  "watch_scope route p q =
     (\<forall>key ns. route key ns \<and> starts_with key p \<longrightarrow> q \<in> push_targets (shard_key key ns) ns)"

lemma ring_sorted_append_upt:
  assumes "ring_sorted xs" and "\<forall>e \<in> set xs. ie_revision e \<le> m" and "map ie_revision ys = [Suc m..<Suc (m + length ys)]"
  shows "ring_sorted (xs @ ys)" and "\<forall>e \<in> set (xs @ ys). ie_revision e \<le> m + length ys"
proof -
  have ys: "ie_revision e \<in> set [Suc m..<Suc (m + length ys)]" if "e \<in> set ys" for e
    using that by (metis assms(3) image_eqI list.set_map)
  have "ring_sorted ys" unfolding ring_sorted_def assms(3) by (simp del: upt_Suc)
  then show "ring_sorted (xs @ ys)"
    using assms(1,2) ys by (fastforce simp: ring_sorted_def sorted_wrt_append)
  show "\<forall>e \<in> set (xs @ ys). ie_revision e \<le> m + length ys"
    using assms(2) ys by fastforce
qed

lemma store_write_keeps:
  assumes "codec_ok c" and "store_write c route s s'" and "store_inv c s" and "watch_scope route p q"
    and "covers p q i b s"
  shows "store_inv c s' \<and> covers p q i b s' \<and> (\<exists>new. sq_tx s' = sq_tx s @ new)"
proof -
  let ?m = "meta_revision (sq_db s)"
  have inv: "db_inv c (sq_db s)" "rings_below ?m s" "ring_sorted (sq_tx s)" "\<forall>e \<in> set (sq_tx s). ie_revision e \<le> ?m"
    using assms(3) by (auto simp: store_inv_def)
  from store_write_effect [OF assms(2) inv(1)] obtain now L d where
    eff: "s' = push_all now L (s\<lparr>sq_db := d\<rparr>)" "d = sq_db s \<or> db_step c (sq_db s) d"
      "sends_of route ?m L" "meta_revision d = ?m + length L" unfolding write_effect_def by blast
  have revs: "map (\<lambda>(_, _, e). ie_revision e) L = [Suc ?m..<Suc (?m + length L)]"
    using eff(3) by (simp add: sends_of_def)
  have "q \<in> push_targets root ns" if "(root, ns, e) \<in> set L" "starts_with (ie_key e) p" for root ns e
    using eff(3) assms(4) that by (fastforce simp: sends_of_def watch_scope_def)
  moreover have "rings_below ?m (s\<lparr>sq_db := d\<rparr>)" "covers p q i b (s\<lparr>sq_db := d\<rparr>)"
    using inv(2) assms(5) by (simp_all add: rings_below_def covers_def)
  ultimately have "rings_below (meta_revision d) s'" "covers p q i b s'"
    using push_all_covers [OF _ revs, of "s\<lparr>sq_db := d\<rparr>"] eff(1,4) by auto
  moreover have "map ie_revision (map (snd \<circ> snd) L) = [Suc ?m..<Suc (?m + length (map (snd \<circ> snd) L))]"
    using revs by (simp add: comp_def split_beta' del: upt_Suc)
  note ring_sorted_append_upt [OF inv(3,4) this]
  moreover have "db_inv c d" using eff(2) inv(1) db_step_inv [OF assms(1)] by blast
  ultimately show ?thesis by (simp add: store_inv_def eff(1,4))
qed

lemma seeds_below_mono: "seeds_below m ph \<Longrightarrow> m \<le> m' \<Longrightarrow> seeds_below m' ph"
  unfolding seeds_below_def by (auto split: opening_phase.splits)

lemma live_push: "i < sq_next_id s \<Longrightarrow> live q i (push_event_locked now root ns e s) \<Longrightarrow> live q i s"
  unfolding live_def push_event_locked_shards by (auto split: option.splits if_splits)

lemma live_push_all: "i < sq_next_id s \<Longrightarrow> live q i (push_all now L s) \<Longrightarrow> live q i s"
proof (induction L arbitrary: s)
  case (Cons x L)
  obtain root ns e where x: "x = (root, ns, e)" by (cases x)
  let ?s' = "push_event_locked now root ns e s"
  have "i < sq_next_id ?s'" using Cons.prems(1) by (rule less_le_trans) simp
  then have "live q i ?s'" using Cons.IH Cons.prems(2) x by simp
  then show ?case using live_push Cons.prems(1) by blast
qed simp

lemma write_step_keeps:
  assumes "codec_ok c" and "store_write c route (ww_store w) s'" and "watch_scope route p q" and "covered c p q i b w"
  shows "covered c p q i b (w\<lparr>ww_store := s'\<rparr>) \<and> (\<exists>new. sq_tx s' = sq_tx (ww_store w) @ new)"
proof -
  let ?s = "ww_store w"
  have w: "store_inv c ?s" "covers p q i b ?s" "undisturbed q i w"
    "\<forall>ph \<in> set (ww_openings w). seeds_below (meta_revision (sq_db ?s)) ph"
    using assms(4) by (auto simp: covered_def watch_inv_def)
  note keep = store_write_keeps [OF assms(1,2) w(1) assms(3) w(2)]
  from store_write_effect [OF assms(2)] w(1) obtain now L d where
    eff: "s' = push_all now L (?s\<lparr>sq_db := d\<rparr>)" "meta_revision d = meta_revision (sq_db ?s) + length L"
    unfolding write_effect_def store_inv_def by blast
  have "live q i (?s\<lparr>sq_db := d\<rparr>)" if "live q i s'"
    using live_push_all [of i "?s\<lparr>sq_db := d\<rparr>"] that w(2) eff(1) by (simp add: covers_def)
  then have "live q i s' \<Longrightarrow> live q i ?s" by (simp add: live_def)
  then have "undisturbed q i (w\<lparr>ww_store := s'\<rparr>)" using w(3) by (auto simp: undisturbed_def)
  moreover have "\<forall>ph \<in> set (ww_openings w). seeds_below (meta_revision (sq_db s')) ph"
    using w(4) eff by (auto intro: seeds_below_mono)
  ultimately show ?thesis using keep by (simp add: covered_def watch_inv_def)
qed

lemma keeps_cover_covered:
  assumes "covered c p q i b w" and "keeps_cover (meta_revision (sq_db (ww_store w))) p q i b (ww_store w) s'"
    and "\<forall>x \<in> set phs. x \<in> set (ww_openings w) \<or>
      seeds_below (meta_revision (sq_db (ww_store w))) x \<and> \<not> will_seed q i x \<and> (live q i s' \<longrightarrow> x \<noteq> Creating q)"
  shows "covered c p q i b \<lparr>ww_store = s', ww_openings = phs\<rparr>"
proof -
  have "undisturbed q i \<lparr>ww_store = s', ww_openings = phs\<rparr>"
    using assms unfolding covered_def undisturbed_def keeps_cover_def by fastforce
  moreover have "store_inv c s'"
    using assms(1,2) by (simp add: covered_def watch_inv_def store_inv_def keeps_cover_def)
  moreover have "\<forall>x \<in> set phs. seeds_below (meta_revision (sq_db s')) x"
    using assms unfolding covered_def watch_inv_def keeps_cover_def by fastforce
  ultimately show ?thesis using assms(2) by (simp add: covered_def watch_inv_def keeps_cover_def)
qed

lemma watch_step_keeps:
  assumes "watch_step c route w w'" and "codec_ok c" and "watch_scope route p q" and "covered c p q i b w"
  shows "covered c p q i b w' \<and> (\<exists>new. sq_tx (ww_store w') = sq_tx (ww_store w) @ new)"
proof -
  let ?s = "ww_store w" and ?m = "meta_revision (sq_db (ww_store w))"
  have w: "db_inv c (sq_db ?s)" "rings_below ?m ?s" "covers p q i b ?s" "undisturbed q i w"
    "\<forall>ph \<in> set (ww_openings w). seeds_below ?m ph"
    using assms(4) by (auto simp: covered_def watch_inv_def store_inv_def)
  note idle = keeps_cover_covered [OF assms(4) keeps_cover_refl [OF w(2,3)]]
  from assms(1) show ?thesis
  proof cases
    case (step_write s')
    then show ?thesis using write_step_keeps [OF assms(2) step_write(2) assms(3,4)] by simp
  next
    case (step_other s')
    have keep: "keeps_cover ?m p q i b ?s s'" by (rule keeps_cover_sub [OF store_other_sub [OF step_other(2)] w(2,3)])
    then show ?thesis
      using keeps_cover_covered [OF assms(4) keep, of "ww_openings w"] step_other(1) by (cases w) (simp add: keeps_cover_def)
  next
    case (step_find k)
    have "seeds_below ?m (watch_find k ?s) \<and> \<not> will_seed q i (watch_find k ?s) \<and>
        (live q i ?s \<longrightarrow> watch_find k ?s \<noteq> Creating q)"
      using find_shard_key_None [of "sq_shards ?s" k]
      by (auto simp: watch_find_def seeds_below_def live_def split: option.splits)
    then show ?thesis using idle [of "ww_openings w @ [watch_find k ?s]"] step_find by (cases w) simp
  next
    case (step_open xs ph ys now s' ph')
    have ph: "seeds_below ?m ph" "\<not> will_seed q i ph" "live q i ?s \<Longrightarrow> ph \<noteq> Creating q"
      using w(4,5) step_open(2) by (auto simp: undisturbed_def)
    note keep = open_step_keeps [OF step_open(3) w(1) ph(1) w(2,3) ph(2,3)]
    show ?thesis
      using keeps_cover_covered [OF assms(4) keep(1), of "xs @ option_list ph' @ ys"] keep step_open(1,2)
      by (auto simp: keeps_cover_def)
  next
    case (step_cancel xs ph ys)
    then show ?thesis using idle [of "xs @ ys"] by (cases w) simp
  qed
qed

lemma watch_run_keeps:
  assumes "watch_run c route w w'" and "codec_ok c" and "watch_scope route p q" and "covered c p q i b w"
  shows "covered c p q i b w' \<and> (\<exists>new. sq_tx (ww_store w') = sq_tx (ww_store w) @ new)"
  using assms
proof (induction rule: watch_run.induct)
  case (run_step w w' w'')
  then obtain new where "covered c p q i b w'" "sq_tx (ww_store w') = sq_tx (ww_store w) @ new" by blast
  with watch_step_keeps [OF run_step.hyps(2) run_step.prems(1,2), of i b] show ?case by fastforce
qed simp

subsection \<open>The stream delivers each event once\<close>

fun is_bookmark :: "'b watch_event \<Rightarrow> bool" where
  "is_bookmark (Bookmark _) = True"
| "is_bookmark _ = False"

definition object_events :: "'b watch_event list \<Rightarrow> 'b watch_event list" where
  "object_events evs = filter (\<lambda>e. \<not> is_bookmark e) evs"

lemma not_bookmark [simp]: "\<not> is_bookmark (internal_to_watch e)"
  by (simp add: internal_to_watch_def Let_def split: option.split)

lemma object_events_replay [simp]: "object_events (map internal_to_watch evs) = map internal_to_watch evs"
  by (simp add: object_events_def filter_id_conv)

lemma object_events_append [simp]: "object_events (xs @ ys) = object_events xs @ object_events ys"
  by (simp add: object_events_def)

lemma ring_sorted_drop: "ring_sorted xs \<Longrightarrow> ring_sorted (drop k xs)"
  unfolding ring_sorted_def drop_map [symmetric] by (rule sorted_wrt_drop)

lemma stream_recv_all_exact:
  "ring_sorted es \<Longrightarrow> object_events (fst (stream_recv_all es st)) =
     map internal_to_watch (replay_filter (ws_prefix st) (ws_last_replayed st) es)"
proof (induction es arbitrary: st)
  case (Cons e es)
  have newer: "\<forall>y \<in> set es. ie_revision e < ie_revision y" and srt: "ring_sorted es"
    using Cons.prems by (simp_all add: ring_sorted_Cons)
  show ?case
  proof (cases "starts_with (ie_key e) (ws_prefix st) \<and> ws_last_replayed st < ie_revision e")
    case True
    have "replay_filter (ws_prefix st) (ie_revision e) es = replay_filter (ws_prefix st) (ws_last_replayed st) es"
      unfolding replay_filter_def using newer True by (intro filter_cong) auto
    then show ?thesis
      using True Cons.IH [OF srt, of "st\<lparr>ws_last_replayed := ie_revision e\<rparr>"]
      by (simp add: stream_recv_def Let_def split_beta object_events_def replay_filter_def)
  next
    case False
    then have "stream_recv e st = ([], st)" by (auto simp: stream_recv_def)
    then show ?thesis using False Cons.IH [OF srt, of st] by (simp add: Let_def split_beta replay_filter_def)
  qed
qed (simp add: object_events_def replay_filter_def)

lemma max_revision_ge: "r \<le> max_revision r evs \<and> (\<forall>e \<in> set evs. ie_revision e \<le> max_revision r evs)"
proof (induction evs arbitrary: r)
  case (Cons e evs)
  show ?case using Cons.IH [of "max r (ie_revision e)"] by (simp add: max_revision_def)
qed (simp add: max_revision_def)

lemma max_revision_less: "max_revision r evs < x \<longleftrightarrow> r < x \<and> (\<forall>e \<in> set evs. ie_revision e < x)"
proof (induction evs arbitrary: r)
  case (Cons e evs)
  then show ?case using Cons.IH [of "max r (ie_revision e)"] by (auto simp: max_revision_def)
qed (simp add: max_revision_def)

text \<open>Replay and then the channel from any point before the snapshot: the overlap is recognised.\<close>

lemma resume_exact:
  assumes "ring_sorted (tx1 @ new)" and "k \<le> length tx1" and "replayed = replay_filter p f tx1"
  shows "replay_filter p f (tx1 @ new) = replayed @ replay_filter p (max_revision f replayed) (drop k (tx1 @ new))"
proof -
  have "\<not> max_revision f replayed < ie_revision e" if "e \<in> set (drop k tx1)" "starts_with (ie_key e) p" for e
  proof (cases "f < ie_revision e")
    case True
    then have "e \<in> set replayed" using that by (auto simp: assms(3) replay_filter_def dest: in_set_dropD)
    then show ?thesis using max_revision_ge [of f replayed] by (auto simp: not_less)
  next
    case False
    then show ?thesis using max_revision_ge [of f replayed] by simp
  qed
  then have "replay_filter p (max_revision f replayed) (drop k tx1) = []"
    by (auto simp: replay_filter_def filter_empty_conv)
  moreover have "ie_revision x < ie_revision e" if "x \<in> set replayed" "e \<in> set new" for x e
    using that assms(1,3) by (auto simp: replay_filter_def ring_sorted_def sorted_wrt_append)
  then have "replay_filter p (max_revision f replayed) new = replay_filter p f new"
    unfolding replay_filter_def max_revision_less by (intro filter_cong) auto
  ultimately show ?thesis using assms(2) by (simp add: assms(3))
qed

lemma resume_covered:
  assumes "codec_ok c" and "watch_scope route p q" and "covered c p q i b w1" and "watch_run c route w1 w2"
    and "map_of (sq_shards (ww_store w1)) q = Some sh" and "sh_id sh = i" and "b \<le> f" and "sh_horizon sh \<le> f"
    and "k \<le> length (sq_tx (ww_store w1))"
    and "ws_prefix st = p" and "ws_last_replayed st = max_revision f (replay_filter p f (sh_ring sh))"
  shows "map internal_to_watch (replay_filter p f (sh_ring sh)) @
      object_events (fst (stream_recv_all (drop k (sq_tx (ww_store w2))) st)) =
    map internal_to_watch (replay_filter p f (sq_tx (ww_store w2)))"
proof -
  obtain new where new: "sq_tx (ww_store w2) = sq_tx (ww_store w1) @ new" "covered c p q i b w2"
    using watch_run_keeps [OF assms(4,1,2,3)] by blast
  then have srt: "ring_sorted (sq_tx (ww_store w1) @ new)" by (simp add: covered_def watch_inv_def store_inv_def)
  have ring: "replay_filter p f (sh_ring sh) = replay_filter p f (sq_tx (ww_store w1))"
    using assms(3,5-8) by (simp add: covered_def covers_def)
  show ?thesis
    using stream_recv_all_exact [OF ring_sorted_drop [OF srt], of k st] resume_exact [OF srt assms(9) ring]
      assms(10,11) new(1) by simp
qed

subsection \<open>Properties\<close>

definition any_key :: "string \<Rightarrow> string option \<Rightarrow> bool" where
  "any_key key ns = (shard_key key ns = ''/registry/pods/'')"

text \<open>An opening that runs to its end with nothing in between.\<close>

fun open_alone :: "nat \<Rightarrow> 'b codec \<Rightarrow> nat \<Rightarrow> 'b opening_phase \<Rightarrow> 'b sqlite_store \<Rightarrow> 'b sqlite_store" where
  "open_alone 0 c now ph s = s"
| "open_alone (Suc fuel) c now ph s =
     (case open_step c now ph s of
        (s', None) \<Rightarrow> s'
      | (s', Some ph') \<Rightarrow> open_alone fuel c now ph' s')"

definition watched :: "nat \<Rightarrow> string \<Rightarrow> json sqlite_store \<Rightarrow> json sqlite_store" where
  "watched now p s = open_alone 9 plain_codec now (watch_find p s) s"

definition pods_world :: "json watch_world" where
  "pods_world = \<lparr>ww_store = watched 0 ''/registry/pods/'' (open_store empty_db),
     ww_openings = [Creating ''/registry/nodes/'']\<rparr>"

definition put_in :: "nat \<Rightarrow> string \<Rightarrow> string \<Rightarrow> json watch_world \<Rightarrow> json watch_world" where
  "put_in now ns name w = w\<lparr>ww_store :=
     fst (store_put plain_codec now (ww_store w) (''/registry/pods/'' @ ns @ ''/'' @ name) (sample_doc ns name) None)\<rparr>"

definition pods_world1 :: "json watch_world" where
  "pods_world1 = put_in 1 ''a'' ''x'' pods_world"

definition pods_world2 :: "json watch_world" where
  "pods_world2 = put_in 2 ''b'' ''y'' pods_world1"

lemma pods_world_inv: "watch_inv plain_codec pods_world" "settled ''/registry/pods/'' 0 pods_world"
proof -
  have "sq_shards (ww_store pods_world) = [(''/registry/pods/'', (new_shard 0 0)\<lparr>sh_watchers := 1\<rparr>)]"
    "sq_tx (ww_store pods_world) = []" "sq_next_id (ww_store pods_world) = 1" "sq_db (ww_store pods_world) = empty_db"
    "ww_openings pods_world = [Creating ''/registry/nodes/'']" by code_simp+
  then show "watch_inv plain_codec pods_world" "settled ''/registry/pods/'' 0 pods_world"
    using empty_db_inv
    by (auto simp: watch_inv_def store_inv_def rings_below_def ring_sorted_def new_shard_def seeds_below_def
        settled_def live_def)
qed

lemma pods_scope: "watch_scope any_key p ''/registry/pods/''"
  by (simp add: watch_scope_def any_key_def push_targets_def)

lemma put_in_run:
  assumes "case put_sync plain_codec (sq_db (ww_store w)) (''/registry/pods/'' @ ns @ ''/'' @ name) (sample_doc ns name) None of
      Inl _ \<Rightarrow> True | Inr (d, res) \<Rightarrow> any_key (''/registry/pods/'' @ ns @ ''/'' @ name) (pr_ns res)"
  shows "watch_run plain_codec any_key w (put_in now ns name w)"
  unfolding put_in_def using assms
  by (intro run_step [OF run_refl] step_write write_put [OF prod.collapse [symmetric]]) auto

lemma pods_run1: "watch_run plain_codec any_key pods_world pods_world1"
  unfolding pods_world1_def by (rule put_in_run) code_simp

lemma pods_run2: "watch_run plain_codec any_key pods_world1 pods_world2"
  unfolding pods_world2_def by (rule put_in_run) code_simp

lemma pods_shard:
  "\<exists>sh. map_of (sq_shards (ww_store pods_world1)) ''/registry/pods/'' = Some sh \<and> sh_id sh = 0 \<and> sh_horizon sh = 0"
  "meta_revision (sq_db (ww_store pods_world)) = 0"
proof -
  have "case map_of (sq_shards (ww_store pods_world1)) ''/registry/pods/'' of
      None \<Rightarrow> False | Some sh \<Rightarrow> sh_id sh = 0 \<and> sh_horizon sh = 0" by code_simp
  then show "\<exists>sh. map_of (sq_shards (ww_store pods_world1)) ''/registry/pods/'' = Some sh \<and> sh_id sh = 0 \<and> sh_horizon sh = 0"
    by (auto split: option.splits)
qed code_simp

lemma sent_after: "filter (\<lambda>e. starts_with (ie_key e) p \<and> f < ie_revision e) evs = replay_filter p f evs"
  by (simp add: replay_filter_def)

text \<open>C4: a resumed watch misses nothing. Take a shard that is settled in some state: it is live and no
  watch that is still being opened will list or seed it or create its key. After any interleaving of
  writes, namespace deletes, phases of watches being opened, watches closed, shards reclaimed and types
  evicted, if that same shard is still live, a watch that resumes on it from a revision not older than
  the settled state and not behind the shard's horizon replays exactly the events sent under its prefix
  after that revision, each once and in revision order, provided every write under the prefix is routed
  to the shard.\<close>

theorem watch_replay_complete:
  assumes "codec_ok c" and "watch_inv c w" and "watch_scope route p q" and "settled q i w"
    and "watch_run c route w w'"
    and "map_of (sq_shards (ww_store w')) q = Some sh" and "sh_id sh = i"
    and "meta_revision (sq_db (ww_store w)) \<le> f" and "sh_horizon sh \<le> f"
  shows "watch_snapshot p f q (ww_store w') = (sh_horizon sh, filter (\<lambda>e. starts_with (ie_key e) p \<and> f < ie_revision e) (sq_tx (ww_store w'))) \<and>
    sorted_wrt (<) (map ie_revision (sq_tx (ww_store w')))"
proof -
  have "covered c p q i (meta_revision (sq_db (ww_store w))) w'"
    using watch_run_keeps [OF assms(5,1,3) settled_covered [OF assms(2,4)]] by blast
  then show ?thesis
    unfolding sent_after using assms(6-9) by (simp add: watch_snapshot_def covered_def covers_def watch_inv_def store_inv_def ring_sorted_def)
qed

theorem watch_replay_complete_witness:
  "watch_snapshot ''/registry/pods/a/'' 0 ''/registry/pods/'' (ww_store pods_world1) =
     (0, replay_filter ''/registry/pods/a/'' 0 (sq_tx (ww_store pods_world1))) \<and>
   length (replay_filter ''/registry/pods/a/'' 0 (sq_tx (ww_store pods_world1))) = 1"
proof -
  have "length (replay_filter ''/registry/pods/a/'' 0 (sq_tx (ww_store pods_world1))) = 1" by code_simp
  then show ?thesis
    unfolding replay_filter_def
    using watch_replay_complete [OF plain_codec_ok pods_world_inv(1) pods_scope pods_world_inv(2) pods_run1,
        of _ 0 "''/registry/pods/a/''"] pods_shard by auto
qed

text \<open>C3: exactly once, across replay and live stream. The watch resumes on a shard that was settled in
  some state of the store and is still live when the watch reads its ring, from a revision that is
  neither older than the settled state nor behind the shard's horizon when the ring is read. It
  subscribed to the channel at any time before it read the ring, and then receives everything the
  channel carries. Whatever else happens meanwhile, other watches being opened included, it yields,
  bookmarks aside, exactly the events sent under its prefix after its start revision: the overlap of
  replay and channel is neither repeated nor dropped. Every write under the prefix is assumed to be
  routed to the shard.\<close>

theorem watch_exactly_once:
  assumes "codec_ok c" and "watch_inv c w" and "watch_scope route p q" and "settled q i w"
    and "watch_run c route w w1"
    and "map_of (sq_shards (ww_store w1)) q = Some sh" and "sh_id sh = i"
    and "meta_revision (sq_db (ww_store w)) \<le> f" and "sh_horizon sh \<le> f"
    and "watch_run c route w1 w2" and "k \<le> length (sq_tx (ww_store w1))"
    and "stream_start log_order shards p f (h, snd (watch_snapshot p f q (ww_store w1))) = (out0, Some st)"
    and "stream_recv_all (drop k (sq_tx (ww_store w2))) st = (out1, st')"
  shows "object_events (out0 @ out1) = map internal_to_watch
    (filter (\<lambda>e. starts_with (ie_key e) p \<and> f < ie_revision e) (sq_tx (ww_store w2)))"
proof -
  have w1: "covered c p q i (meta_revision (sq_db (ww_store w))) w1"
    using watch_run_keeps [OF assms(5,1,3) settled_covered [OF assms(2,4)]] by blast
  have st: "out0 = map internal_to_watch (replay_filter p f (sh_ring sh))" "ws_prefix st = p"
    "ws_last_replayed st = max_revision f (replay_filter p f (sh_ring sh))"
    using assms(6,12) by (auto simp: stream_start_def watch_snapshot_def split: if_splits)
  show ?thesis
    unfolding sent_after using resume_covered [OF assms(1,3) w1 assms(10,6-9,11) st(2,3)] assms(13) st(1) by simp
qed

theorem watch_exactly_once_witness:
  "\<exists>out0 st out1 st'.
     stream_start id [] ''/registry/pods/'' 0
       (0, snd (watch_snapshot ''/registry/pods/'' 0 ''/registry/pods/'' (ww_store pods_world1))) = (out0, Some st) \<and>
     stream_recv_all (sq_tx (ww_store pods_world2)) st = (out1, st') \<and>
     object_events (out0 @ out1) =
       map internal_to_watch (replay_filter ''/registry/pods/'' 0 (sq_tx (ww_store pods_world2))) \<and>
     length (object_events (out0 @ out1)) = 2"
proof -
  let ?p = "''/registry/pods/''"
  define start where "start = stream_start id [] ?p 0 (0, snd (watch_snapshot ?p 0 ?p (ww_store pods_world1)))"
  define live_part where "live_part = stream_recv_all (sq_tx (ww_store pods_world2)) (the (snd start))"
  obtain sh where sh: "map_of (sq_shards (ww_store pods_world1)) ?p = Some sh" "sh_id sh = 0" "sh_horizon sh = 0"
    using pods_shard(1) by blast
  have "snd start \<noteq> None" unfolding start_def by code_simp
  then have start: "start = (fst start, Some (the (snd start)))" by (metis option.collapse prod.collapse)
  have "object_events (fst start @ fst live_part) =
      map internal_to_watch (replay_filter ?p 0 (sq_tx (ww_store pods_world2)))"
    unfolding replay_filter_def using sh pods_shard(2)
    by (intro watch_exactly_once [OF plain_codec_ok pods_world_inv(1) pods_scope pods_world_inv(2) pods_run1 sh(1,2) _ _ pods_run2,
        where k = 0 and h = 0 and log_order = id and shards = "[]" and st = "the (snd start)" and st' = "snd live_part"])
      (auto simp: live_part_def start [symmetric] start_def [symmetric])
  moreover have "length (object_events (fst start @ fst live_part)) = 2" unfolding start_def live_part_def by code_simp
  ultimately show ?thesis using start unfolding start_def [symmetric] by (metis live_part_def prod.collapse)
qed




subsection \<open>Where events are lost\<close>

lemma window_snoc:
  assumes "0 < cap" and "w = drop (length xs - cap) xs"
  shows "(if length w < cap then w @ [e] else tl (w @ [e])) = drop (length (xs @ [e]) - cap) (xs @ [e])"
proof (cases "length xs < cap")
  case True
  then show ?thesis using assms(2) by simp
next
  case False
  then have "length (xs @ [e]) - cap = Suc (length xs - cap)" by simp
  moreover have "length w = cap" using False assms(2) by simp
  moreover from this have "tl (w @ [e]) = tl w @ [e]" using assms(1) by (cases w) auto
  ultimately show ?thesis using False assms by (simp add: drop_Suc tl_drop)
qed

lemma fold_pushed_ring:
  assumes "sh_ring sh = []"
  shows "sh_ring (fold (pushed now) es sh) = drop (length es - ring_capacity) es"
proof (induction es rule: rev_induct)
  case (snoc e es)
  show ?case
    using window_snoc [OF _ snoc.IH, of e] by (simp add: pushed_parts ring_capacity_def)
qed (simp add: assms)

lemma fold_pushed_no_eviction:
  assumes "sh_ring sh = []" and "sh_horizon sh = 0"
  shows "length es \<le> ring_capacity \<Longrightarrow> sh_horizon (fold (pushed now) es sh) = 0"
proof (induction es rule: rev_induct)
  case (snoc e es)
  have "sh_ring (fold (pushed now) es sh) = es"
    using fold_pushed_ring [OF assms(1), of now es] snoc.prems by simp
  then show ?case
    using snoc by (simp add: pushed_parts evicted_floor_def)
qed (simp add: assms(2))

lemma evicted_floor_window:
  assumes "ring_capacity \<le> length es"
  shows "evicted_floor (drop (length es - ring_capacity) es @ [e]) =
    ie_revision ((es @ [e]) ! (length (es @ [e]) - ring_capacity))"
proof -
  let ?n = "length (es @ [e]) - ring_capacity"
  have n: "?n = Suc (length es - ring_capacity)" using assms by (simp add: Suc_diff_le)
  have pos: "0 < ring_capacity" by (simp add: ring_capacity_def)
  have "tl (drop (length es - ring_capacity) es @ [e]) = drop ?n (es @ [e])"
    using assms pos unfolding n by (simp add: drop_Suc tl_drop)
  moreover have "drop ?n (es @ [e]) = (es @ [e]) ! ?n # drop (Suc ?n) (es @ [e])"
    using assms pos by (intro Cons_nth_drop_Suc [symmetric]) simp
  ultimately show ?thesis using assms by (simp add: evicted_floor_def)
qed

lemma fold_pushed_horizon:
  assumes "ring_sorted es" and "ring_capacity < length es" and "sh_ring sh = []" and "sh_horizon sh = 0"
  shows "sh_horizon (fold (pushed now) es sh) = ie_revision (es ! (length es - ring_capacity))"
  using assms(1,2)
proof (induction es rule: rev_induct)
  case (snoc e es)
  let ?s = "fold (pushed now) es sh" and ?n = "length (es @ [e]) - ring_capacity"
  have ring: "sh_ring ?s = drop (length es - ring_capacity) es"
    by (rule fold_pushed_ring [OF assms(3)])
  have len: "ring_capacity \<le> length es" using snoc.prems(2) by simp
  have "sh_horizon ?s \<le> ie_revision ((es @ [e]) ! ?n)"
  proof (cases "ring_capacity < length es")
    case True
    have "ring_sorted es" using snoc.prems(1) by (simp add: ring_sorted_snoc)
    moreover have "length es - ring_capacity < length es" using True by (simp add: ring_capacity_def)
    ultimately have "sh_horizon ?s = ie_revision ((es @ [e]) ! (length es - ring_capacity))"
      using snoc.IH True by (simp add: nth_append)
    moreover have "sorted_wrt (<) (map ie_revision (es @ [e]))" using snoc.prems(1) by (simp only: ring_sorted_def)
    then have "map ie_revision (es @ [e]) ! (length es - ring_capacity) < map ie_revision (es @ [e]) ! ?n"
      using True by (elim sorted_wrt_nth_less) (simp_all add: ring_capacity_def)
    ultimately show ?thesis using len by (simp add: nth_map ring_capacity_def del: map_append)
  next
    case False
    then show ?thesis using fold_pushed_no_eviction [OF assms(3,4), of es now] len by simp
  qed
  then show ?case
    using evicted_floor_window [OF len, of e] ring by (simp add: pushed_parts max_def)
qed simp

definition busy_events :: "json internal_event list" where
  "busy_events = map (\<lambda>r. sample_event r ''/registry/pods/a/x'' (Some JNull)) [1..<601]"

definition busy_shard :: "json ring_shard" where
  "busy_shard = fold (pushed 0) busy_events (new_shard 0 0)"

lemma busy_shard_history:
  "sh_ring busy_shard = drop 88 busy_events" "sh_horizon busy_shard = 89"
proof -
  have len: "length busy_events = 600" by (simp add: busy_events_def del: upt_Suc upt_rec_numeral)
  have new: "sh_ring (new_shard 0 0 :: json ring_shard) = []" "sh_horizon (new_shard 0 0 :: json ring_shard) = 0"
    by (simp_all add: new_shard_def)
  show "sh_ring busy_shard = drop 88 busy_events"
    using fold_pushed_ring [OF new(1), of 0 busy_events] len
    by (simp add: busy_shard_def ring_capacity_def)
  have "ring_sorted busy_events"
    by (simp add: ring_sorted_def busy_events_def sample_event_def comp_def del: upt_Suc upt_rec_numeral)
  then have "sh_horizon busy_shard = ie_revision (busy_events ! 88)"
    using fold_pushed_horizon [OF _ _ new, of busy_events 0] len by (simp add: busy_shard_def ring_capacity_def)
  then show "sh_horizon busy_shard = 89"
    by (simp add: busy_events_def sample_event_def del: upt_Suc upt_rec_numeral)
qed

text \<open>lag recovery can skip events silently. A shard saw 600 writes under the watched prefix and
  its ring holds the last 512, so its horizon is 89; a stream that had delivered revision 1 when its
  channel overflowed recovers revisions 89 to 600 and goes on: it does not report that it was
  compacted, although revisions 2 to 88 were sent under its prefix and are never delivered. The
  position is advanced by the recovered events before it is compared with the horizon.\<close>

theorem lag_recovery_skips_evicted:
  "stream_lagged id [(''/registry/pods/'', busy_shard)]
     \<lparr>ws_prefix = ''/registry/pods/'', ws_from = 1, ws_last_replayed = 1, ws_bookmark_rv = 1, ws_pending = False\<rparr> =
   (map internal_to_watch (drop 88 busy_events),
    Some \<lparr>ws_prefix = ''/registry/pods/'', ws_from = 1, ws_last_replayed = 600, ws_bookmark_rv = 1, ws_pending = False\<rparr>) \<and>
   replay_filter ''/registry/pods/'' 1 (drop 1 busy_events) = drop 1 busy_events \<and> sh_horizon busy_shard > 1"
proof -
  let ?p = "''/registry/pods/''"
  have dropped: "drop n busy_events = map (\<lambda>r. sample_event r ''/registry/pods/a/x'' (Some JNull)) [1 + n..<601]" for n
    by (simp add: busy_events_def drop_map del: upt_Suc upt_rec_numeral)
  have all: "replay_filter ?p 1 (drop (Suc n) busy_events) = drop (Suc n) busy_events" for n
    unfolding dropped replay_filter_def filter_id_conv
    by (auto simp: sample_event_def starts_with_def simp del: upt_Suc upt_rec_numeral)
  have catchup: "replay_filter ?p 1 (sh_ring busy_shard) = drop 88 busy_events"
    using all [of 87] by (simp add: busy_shard_history)
  have "max_revision 1 (drop 88 busy_events) = 600"
  proof (rule antisym)
    show "max_revision 1 (drop 88 busy_events) \<le> 600"
    proof -
      have "\<forall>e \<in> set (drop 88 busy_events). ie_revision e < 601"
        unfolding dropped by (simp add: sample_event_def del: upt_Suc upt_rec_numeral)
      then have "max_revision 1 (drop 88 busy_events) < 601" unfolding max_revision_less by simp
      then show ?thesis by simp
    qed
    have "sample_event 600 ''/registry/pods/a/x'' (Some JNull) \<in> set (drop 88 busy_events)"
      unfolding dropped by (simp del: upt_Suc upt_rec_numeral)
    from bspec [OF conjunct2 [OF max_revision_ge] this] show "600 \<le> max_revision 1 (drop 88 busy_events)"
      by (simp add: sample_event_def)
  qed
  moreover have "replay_filter ?p 1 (drop 1 busy_events) = drop 1 busy_events" using all [of 0] by simp
  ultimately show ?thesis
    using catchup by (simp add: stream_lagged_def Let_def find_shard_def busy_shard_history)
qed

definition put_pod :: "nat \<Rightarrow> string \<Rightarrow> string \<Rightarrow> json sqlite_store \<Rightarrow> json sqlite_store" where
  "put_pod now ns name s =
     fst (store_put plain_codec now s (''/registry/pods/'' @ ns @ ''/'' @ name) (sample_doc ns name) None)"

definition delete_pod :: "nat \<Rightarrow> string \<Rightarrow> string \<Rightarrow> json sqlite_store \<Rightarrow> json sqlite_store" where
  "delete_pod now ns name s = fst (store_delete now s (''/registry/pods/'' @ ns @ ''/'' @ name) None)"

definition open_watch :: "string \<Rightarrow> rev \<Rightarrow> json sqlite_store \<Rightarrow> json watch_event list \<times> watch_stream option" where
  "open_watch p f s =
     (let s' = watched 0 p s
      in case find_shard_key (sq_shards s') p of
           None \<Rightarrow> ([], None)
         | Some (k, _) \<Rightarrow> stream_start id (sq_shards s') p f (watch_snapshot p f k s'))"

fun event_line :: "'b watch_event \<Rightarrow> string \<times> string \<times> rev" where
  "event_line (Added ob) = (''ADDED'', so_key ob, so_revision ob)"
| "event_line (Modified ob) = (''MODIFIED'', so_key ob, so_revision ob)"
| "event_line (Deleted k r _) = (''DELETED'', k, r)"
| "event_line (Bookmark r) = (''BOOKMARK'', [], r)"
| "event_line (Compacted r h) = (''COMPACTED'', [], r)"

text \<open>a delete that only a namespace's shard recorded is lost to a later watch of the whole type.
  Pod \<^verbatim>\<open>a/x\<close> is created (revision 1), a watch on namespace \<^verbatim>\<open>a\<close> brings its shard into being, the pod
  is deleted (revision 2). A watch on all pods that resumes from revision 1 gets a fresh shard with
  horizon 0, backfilled from the live objects: it replays nothing, is not told that it was
  compacted, and goes on; the DELETE at revision 2 is never delivered. The same watch opened on the
  namespace does deliver it.\<close>

theorem fresh_root_watch_misses_delete:
  "let s = delete_pod 2 ''a'' ''x'' (watched 1 ''/registry/pods/a/'' (put_pod 0 ''a'' ''x'' (open_store empty_db))) in
     map event_line (fst (open_watch ''/registry/pods/'' 1 s)) = [] \<and>
     snd (open_watch ''/registry/pods/'' 1 s) \<noteq> None \<and>
     map (event_line \<circ> internal_to_watch) (replay_filter ''/registry/pods/'' 1 (sq_tx s)) =
       [(''DELETED'', ''/registry/pods/a/x'', 2)] \<and>
     map event_line (fst (open_watch ''/registry/pods/a/'' 1 s)) = [(''DELETED'', ''/registry/pods/a/x'', 2)]"
  by code_simp

text \<open>a shard that a delete created is mistaken for one with history. Pods \<^verbatim>\<open>a/x\<close>, \<^verbatim>\<open>a/y\<close> and
  \<^verbatim>\<open>a/z\<close> are created with no watch open (revisions 1 to 3) and \<^verbatim>\<open>a/z\<close> is deleted (revision 4), which
  creates the type's shard holding that one event. A first watch on all pods then finds a shard,
  does not backfill it, and replays only the DELETE: resumed from revision 1 it never sees \<^verbatim>\<open>a/y\<close>,
  and from revision 0 it sees neither of the two pods that exist.\<close>

theorem delete_created_shard_hides_objects:
  "let s = delete_pod 3 ''a'' ''z'' (put_pod 2 ''a'' ''z'' (put_pod 1 ''a'' ''y'' (put_pod 0 ''a'' ''x'' (open_store empty_db)))) in
     map fst (objects (sq_db s)) = [''/registry/pods/a/x'', ''/registry/pods/a/y''] \<and>
     map event_line (fst (open_watch ''/registry/pods/'' 1 s)) = [(''DELETED'', ''/registry/pods/a/z'', 4)] \<and>
     map event_line (fst (open_watch ''/registry/pods/'' 0 s)) = [(''DELETED'', ''/registry/pods/a/z'', 4)] \<and>
     snd (open_watch ''/registry/pods/'' 1 s) \<noteq> None \<and>
     map event_line (map internal_to_watch (replay_filter ''/registry/pods/'' 1 (take 2 (sq_tx s)))) =
       [(''ADDED'', ''/registry/pods/a/y'', 2)]"
  by code_simp

text \<open>the backfill of a fresh shard races with deletes. If pod \<^verbatim>\<open>a/x\<close> (revision 1) is deleted
  (revision 2) after the backfill's LIST read it and before the backfill pushed it, the ring holds
  the DELETE before the ADDED, and the watch that opens replays the two in that order: its client
  ends with a pod that no longer exists.\<close>

definition step_on :: "json opening_phase option \<times> json sqlite_store \<Rightarrow> json opening_phase option \<times> json sqlite_store" where
  "step_on x =
     (case x of
        (Some ph, s) \<Rightarrow> (case open_step plain_codec 0 ph s of (s', ph') \<Rightarrow> (ph', s'))
      | (None, s) \<Rightarrow> (None, s))"

definition find_on :: "string \<Rightarrow> json sqlite_store \<Rightarrow> json opening_phase option \<times> json sqlite_store" where
  "find_on p s = (Some (watch_find p s), s)"

definition replayed_lines :: "json sqlite_store \<Rightarrow> (string \<times> string \<times> rev) list" where
  "replayed_lines s = (let p = ''/registry/pods/'' in
     map event_line (fst (stream_start id (sq_shards s) p 0 (watch_snapshot p 0 p s))))"

theorem backfill_race_resurrects:
  "let listed = step_on (step_on (find_on ''/registry/pods/'' (put_pod 0 ''a'' ''x'' (open_store empty_db))));
       opened = (step_on ^^ 3) (map_prod id (delete_pod 1 ''a'' ''x'') listed)
   in fst opened = None \<and> row_at (sq_db (snd opened)) ''/registry/pods/a/x'' = None \<and>
      replayed_lines (snd opened) = [(''DELETED'', ''/registry/pods/a/x'', 2), (''ADDED'', ''/registry/pods/a/x'', 1)]"
  by code_simp

text \<open>the backfill also races with writes. A pod that is created after the shard was and before the
  backfill's LIST is pushed by the write and seeded again by the backfill, at the same revision: the
  watch that opens replays it twice.\<close>

theorem backfill_race_repeats:
  "let created = step_on (find_on ''/registry/pods/'' (open_store empty_db));
       opened = (step_on ^^ 4) (map_prod id (put_pod 1 ''a'' ''x'') created)
   in fst opened = None \<and> length (sq_tx (snd opened)) = 1 \<and>
      replayed_lines (snd opened) = [(''ADDED'', ''/registry/pods/a/x'', 1), (''ADDED'', ''/registry/pods/a/x'', 1)]"
  by code_simp

end
