(* ===== verification/Rbac.thy ===== *)
theory Rbac
  imports Json_Value
begin

text \<open>
  The RBAC authorizer of \<^verbatim>\<open>crates/apiserver/src/rbac.rs\<close>: the index of roles and bindings
  with its resource-version floors (\<^verbatim>\<open>apply_object\<close>, \<^verbatim>\<open>remove_object\<close>, \<^verbatim>\<open>accept_update\<close>), the
  decision procedure \<^verbatim>\<open>is_allowed\<close>, and escalation prevention (\<^verbatim>\<open>user_holds_all_rules\<close>).
  The derived deserialisers are parameters; hash maps that are only looked up are maps.
\<close>

subsection \<open>Data\<close>

record policy_rule =
  api_groups :: "string list"
  resources :: "string list"
  verbs :: "string list"
  resource_names :: "string list"
  non_resource_urls :: "string list"

record subject =
  subj_kind :: string
  subj_name :: string
  subj_namespace :: "string option"

record role_ref =
  ref_api_group :: string
  ref_kind :: string
  ref_name :: string

record rbac_binding =
  b_subjects :: "subject list"
  b_role_ref :: role_ref
  b_namespace :: "string option"

record authz_request =
  rq_username :: string
  rq_groups :: "string list"
  rq_verb :: string
  rq_api_group :: string
  rq_resource :: string
  rq_subresource :: string
  rq_namespace :: "string option"
  rq_name :: "string option"
  rq_non_resource_url :: "string option"

record rv_tracker =
  rv_versions :: "string \<rightharpoonup> nat \<times> nat"
  rv_lru :: "(nat, string) btree"
  rv_tick :: nat

record rbac_inner =
  cluster_roles :: "string \<rightharpoonup> policy_rule list"
  cluster_role_aggregations :: "string \<rightharpoonup> json"
  roles :: "string \<times> string \<rightharpoonup> policy_rule list"
  cluster_bindings :: "(string \<times> rbac_binding) list"
  namespace_bindings :: "(string \<times> rbac_binding) list"
  versions :: rv_tracker

record rbac_codec =
  decode_role :: "json \<Rightarrow> policy_rule list option"
  decode_binding :: "json \<Rightarrow> rbac_binding option"

definition new_index :: rbac_inner where
  "new_index =
     \<lparr>cluster_roles = Map.empty, cluster_role_aggregations = Map.empty, roles = Map.empty,
      cluster_bindings = [], namespace_bindings = [],
      versions = \<lparr>rv_versions = Map.empty, rv_lru = [], rv_tick = 0\<rparr>\<rparr>"

subsection \<open>Resource-version floors\<close>

definition max_tracked_resource_versions :: nat where
  "max_tracked_resource_versions = 4096"

definition touch_existing :: "rv_tracker \<Rightarrow> string \<Rightarrow> rv_tracker" where
  "touch_existing t key =
     (case rv_versions t key of
        None \<Rightarrow> t
      | Some (r, old_tick) \<Rightarrow>
          (let tick = rv_tick t
           in \<lparr>rv_versions = (rv_versions t)(key \<mapsto> (r, tick)),
               rv_lru = bt_insert tick key (bt_remove old_tick (rv_lru t)),
               rv_tick = Suc tick\<rparr>))"

definition lru_evict :: "rv_tracker \<Rightarrow> rv_tracker" where
  "lru_evict t =
     (if length (rv_lru t) > max_tracked_resource_versions then
        (case rv_lru t of
           [] \<Rightarrow> t
         | (_, evicted) # rest \<Rightarrow> t\<lparr>rv_lru := rest, rv_versions := (rv_versions t)(evicted := None)\<rparr>)
      else t)"

definition accept_update :: "rv_tracker \<Rightarrow> string \<Rightarrow> nat option \<Rightarrow> rv_tracker \<times> bool" where
  "accept_update t key incoming =
     (case incoming of
        None \<Rightarrow> (t, True)
      | Some r \<Rightarrow>
          (if (case rv_versions t key of Some (recorded, _) \<Rightarrow> recorded \<ge> r | None \<Rightarrow> False)
           then (touch_existing t key, False)
           else
             (let tick = rv_tick t;
                  lru = (case rv_versions t key of Some (_, old_tick) \<Rightarrow> bt_remove old_tick (rv_lru t) | None \<Rightarrow> rv_lru t)
              in (lru_evict \<lparr>rv_versions = (rv_versions t)(key \<mapsto> (r, tick)),
                             rv_lru = bt_insert tick key lru, rv_tick = Suc tick\<rparr>, True))))"

subsection \<open>Keys\<close>

datatype rbac_key =
    ClusterRole string
  | ClusterRoleBinding
  | Role string string
  | RoleBinding string

definition parse_rbac_key :: "string \<Rightarrow> rbac_key option" where
  "parse_rbac_key key =
     (case filter (\<lambda>s. s \<noteq> []) (split_char CHR ''/'' key) of
        a # g # _ # rest \<Rightarrow>
          (if a = ''apis'' \<and> g = ''rbac.authorization.k8s.io'' then
             (case rest of
                [k, n] \<Rightarrow>
                  (if k = ''clusterroles'' then Some (ClusterRole n)
                   else if k = ''clusterrolebindings'' then Some ClusterRoleBinding
                   else None)
              | [k, ns, plural, n] \<Rightarrow>
                  (if k = ''namespaces'' \<and> plural = ''roles'' then Some (Role ns n)
                   else if k = ''namespaces'' \<and> plural = ''rolebindings'' then Some (RoleBinding ns)
                   else None)
              | _ \<Rightarrow> None)
           else None)
      | _ \<Rightarrow> None)"

subsection \<open>The index\<close>

definition aggregation_selectors :: "json \<Rightarrow> json option" where
  "aggregation_selectors body =
     (let sel = json_idx (json_idx body ''aggregationRule'') ''clusterRoleSelectors''
      in case as_array sel of Some (x # xs) \<Rightarrow> Some sel | _ \<Rightarrow> None)"

definition replace_binding :: "string \<Rightarrow> rbac_binding \<Rightarrow> (string \<times> rbac_binding) list \<Rightarrow> (string \<times> rbac_binding) list" where
  "replace_binding key b bs = filter (\<lambda>e. fst e \<noteq> key) bs @ [(key, b)]"

definition incoming_version :: "json \<Rightarrow> nat option" where
  "incoming_version v =
     Option.bind (as_str (json_idx (json_idx v ''metadata'') ''resourceVersion'')) parse_u64"

definition apply_object :: "rbac_codec \<Rightarrow> string \<Rightarrow> json \<Rightarrow> rbac_inner \<Rightarrow> rbac_inner" where
  "apply_object rc key v i =
     (let (t, ok) = accept_update (versions i) key (incoming_version v) in
      case parse_rbac_key key of
        None \<Rightarrow> i
      | Some (ClusterRole name) \<Rightarrow>
          (case decode_role rc v of
             None \<Rightarrow> i
           | Some rules \<Rightarrow>
               (if ok then
                  i\<lparr>versions := t, cluster_roles := (cluster_roles i)(name \<mapsto> rules),
                    cluster_role_aggregations := (cluster_role_aggregations i)(name := aggregation_selectors v)\<rparr>
                else i\<lparr>versions := t\<rparr>))
      | Some ClusterRoleBinding \<Rightarrow>
          (case decode_binding rc v of
             None \<Rightarrow> i
           | Some b \<Rightarrow>
               (if ok then i\<lparr>versions := t, cluster_bindings := replace_binding key b (cluster_bindings i)\<rparr>
                else i\<lparr>versions := t\<rparr>))
      | Some (Role ns name) \<Rightarrow>
          (case decode_role rc v of
             None \<Rightarrow> i
           | Some rules \<Rightarrow>
               (if ok then i\<lparr>versions := t, roles := (roles i)((ns, name) \<mapsto> rules)\<rparr> else i\<lparr>versions := t\<rparr>))
      | Some (RoleBinding ns) \<Rightarrow>
          (case decode_binding rc v of
             None \<Rightarrow> i
           | Some b \<Rightarrow>
               (if ok then
                  i\<lparr>versions := t,
                    namespace_bindings := replace_binding key (b\<lparr>b_namespace := Some ns\<rparr>) (namespace_bindings i)\<rparr>
                else i\<lparr>versions := t\<rparr>)))"

definition remove_object :: "string \<Rightarrow> rbac_inner \<Rightarrow> rbac_inner" where
  "remove_object key i0 =
     (let i = i0\<lparr>versions := touch_existing (versions i0) key\<rparr> in
      case parse_rbac_key key of
        Some (ClusterRole name) \<Rightarrow>
          i\<lparr>cluster_roles := (cluster_roles i)(name := None),
            cluster_role_aggregations := (cluster_role_aggregations i)(name := None)\<rparr>
      | Some ClusterRoleBinding \<Rightarrow> i\<lparr>cluster_bindings := filter (\<lambda>e. fst e \<noteq> key) (cluster_bindings i)\<rparr>
      | Some (Role ns name) \<Rightarrow> i\<lparr>roles := (roles i)((ns, name) := None)\<rparr>
      | Some (RoleBinding _) \<Rightarrow> i\<lparr>namespace_bindings := filter (\<lambda>e. fst e \<noteq> key) (namespace_bindings i)\<rparr>
      | None \<Rightarrow> i)"

subsection \<open>Matching\<close>

definition subject_matches :: "rbac_binding \<Rightarrow> string \<Rightarrow> string list \<Rightarrow> bool" where
  "subject_matches b username groups =
     list_ex (\<lambda>s.
       if subj_kind s = ''User'' then subj_name s = username
       else if subj_kind s = ''Group'' then list_ex (\<lambda>g. g = subj_name s) groups
       else if subj_kind s = ''ServiceAccount'' then
         username = ''system:serviceaccount:'' @ (case subj_namespace s of Some n \<Rightarrow> n | None \<Rightarrow> []) @ '':'' @ subj_name s
       else False) (b_subjects b)"

definition rbac_group :: string where
  "rbac_group = ''rbac.authorization.k8s.io''"

definition resolve_cluster_role_rules :: "rbac_inner \<Rightarrow> role_ref \<Rightarrow> policy_rule list" where
  "resolve_cluster_role_rules i r =
     (if ref_kind r = ''ClusterRole'' \<and> ref_api_group r = rbac_group
      then (case cluster_roles i (ref_name r) of Some rules \<Rightarrow> rules | None \<Rightarrow> [])
      else [])"

definition resolve_role_rules :: "rbac_inner \<Rightarrow> role_ref \<Rightarrow> string \<Rightarrow> policy_rule list" where
  "resolve_role_rules i r namespace =
     (if ref_api_group r \<noteq> rbac_group then []
      else if ref_kind r = ''Role'' then (case roles i (namespace, ref_name r) of Some rules \<Rightarrow> rules | None \<Rightarrow> [])
      else if ref_kind r = ''ClusterRole'' then (case cluster_roles i (ref_name r) of Some rules \<Rightarrow> rules | None \<Rightarrow> [])
      else [])"

definition wildcard_match :: "string list \<Rightarrow> string \<Rightarrow> bool" where
  "wildcard_match xs x = list_ex (\<lambda>g. g = ''*'' \<or> g = x) xs"

definition resource_matches :: "string list \<Rightarrow> string \<Rightarrow> string \<Rightarrow> bool" where
  "resource_matches rule_resources resource subresource =
     list_ex (\<lambda>r.
       r = ''*'' \<or>
       (case split_once CHR ''/'' r of
          Some (res, sub) \<Rightarrow> res = resource \<and> sub = subresource
        | None \<Rightarrow> subresource = [] \<and> r = resource) \<or>
       (subresource \<noteq> [] \<and> strip_prefix r ''*/'' = Some subresource)) rule_resources"

definition rule_covers :: "policy_rule \<Rightarrow> authz_request \<Rightarrow> bool" where
  "rule_covers rule req =
     (wildcard_match (api_groups rule) (rq_api_group req) \<and>
      wildcard_match (verbs rule) (rq_verb req) \<and>
      resource_matches (resources rule) (rq_resource req) (rq_subresource req) \<and>
      (resource_names rule \<noteq> [] \<longrightarrow>
         (case rq_name req of Some n \<Rightarrow> list_ex (\<lambda>rn. rn = n) (resource_names rule) | None \<Rightarrow> False)))"

definition rules_allow :: "policy_rule list \<Rightarrow> authz_request \<Rightarrow> bool" where
  "rules_allow rules req = list_ex (\<lambda>rule. rule_covers rule req) rules"

definition non_resource_url_matches :: "string \<Rightarrow> string \<Rightarrow> bool" where
  "non_resource_url_matches pattern url =
     (if pattern = ''*'' then True
      else case strip_suffix pattern ''*'' of
        Some p \<Rightarrow> starts_with url p
      | None \<Rightarrow> pattern = url)"

definition rules_allow_non_resource :: "policy_rule list \<Rightarrow> string \<Rightarrow> string \<Rightarrow> bool" where
  "rules_allow_non_resource rules verb url =
     list_ex (\<lambda>rule.
       non_resource_urls rule \<noteq> [] \<and> wildcard_match (verbs rule) verb \<and>
       list_ex (\<lambda>pattern. non_resource_url_matches pattern url) (non_resource_urls rule)) rules"

subsection \<open>Decisions\<close>

definition in_namespace :: "rbac_binding \<Rightarrow> string \<Rightarrow> bool" where
  "in_namespace b namespace = ((case b_namespace b of Some n \<Rightarrow> n | None \<Rightarrow> []) = namespace)"

definition is_allowed :: "rbac_inner \<Rightarrow> authz_request \<Rightarrow> bool" where
  "is_allowed i req =
     (case rq_non_resource_url req of
        Some url \<Rightarrow>
          list_ex (\<lambda>(_, b). subject_matches b (rq_username req) (rq_groups req) \<and>
            rules_allow_non_resource (resolve_cluster_role_rules i (b_role_ref b)) (rq_verb req) url) (cluster_bindings i) \<or>
          (case rq_namespace req of
             None \<Rightarrow> False
           | Some ns \<Rightarrow>
               list_ex (\<lambda>(_, b). in_namespace b ns \<and> subject_matches b (rq_username req) (rq_groups req) \<and>
                 rules_allow_non_resource (resolve_role_rules i (b_role_ref b) ns) (rq_verb req) url) (namespace_bindings i))
      | None \<Rightarrow>
          list_ex (\<lambda>(_, b). subject_matches b (rq_username req) (rq_groups req) \<and>
            rules_allow (resolve_cluster_role_rules i (b_role_ref b)) req) (cluster_bindings i) \<or>
          (case rq_namespace req of
             None \<Rightarrow> False
           | Some ns \<Rightarrow>
               list_ex (\<lambda>(_, b). in_namespace b ns \<and> subject_matches b (rq_username req) (rq_groups req) \<and>
                 rules_allow (resolve_role_rules i (b_role_ref b) ns) req) (namespace_bindings i)))"

definition enumerate_rules :: "rbac_inner \<Rightarrow> string \<Rightarrow> string list \<Rightarrow> string \<Rightarrow> policy_rule list" where
  "enumerate_rules i username groups namespace =
     concat (map (\<lambda>(_, b). resolve_cluster_role_rules i (b_role_ref b))
       (filter (\<lambda>(_, b). subject_matches b username groups) (cluster_bindings i))) @
     concat (map (\<lambda>(_, b). resolve_role_rules i (b_role_ref b) namespace)
       (filter (\<lambda>(_, b). in_namespace b namespace \<and> subject_matches b username groups) (namespace_bindings i)))"

subsection \<open>Escalation prevention\<close>

definition resource_probe :: "string \<Rightarrow> string list \<Rightarrow> string option \<Rightarrow> string \<Rightarrow> string \<Rightarrow> string \<Rightarrow> authz_request" where
  "resource_probe username groups ns verb api_group resource =
     \<lparr>rq_username = username, rq_groups = groups, rq_verb = verb, rq_api_group = api_group,
      rq_resource = resource, rq_subresource = [], rq_namespace = ns, rq_name = None, rq_non_resource_url = None\<rparr>"

definition url_probe :: "string \<Rightarrow> string list \<Rightarrow> string \<Rightarrow> string \<Rightarrow> authz_request" where
  "url_probe username groups verb url =
     \<lparr>rq_username = username, rq_groups = groups, rq_verb = verb, rq_api_group = [], rq_resource = [],
      rq_subresource = [], rq_namespace = None, rq_name = None, rq_non_resource_url = Some url\<rparr>"

definition holds_rule :: "rbac_inner \<Rightarrow> string \<Rightarrow> string list \<Rightarrow> string option \<Rightarrow> policy_rule \<Rightarrow> bool" where
  "holds_rule i username groups ns rule =
     (list_all (\<lambda>g. list_all (\<lambda>r. list_all (\<lambda>v.
        is_allowed i (resource_probe username groups ns v g r)) (verbs rule)) (resources rule)) (api_groups rule) \<and>
      list_all (\<lambda>url. list_all (\<lambda>v. is_allowed i (url_probe username groups v url)) (verbs rule)) (non_resource_urls rule))"

definition user_holds_all_rules :: "string \<Rightarrow> string list \<Rightarrow> policy_rule list \<Rightarrow> rbac_inner \<Rightarrow> bool" where
  "user_holds_all_rules username groups role_rules i = list_all (holds_rule i username groups None) role_rules"

definition user_holds_all_rules_in_namespace ::
    "string \<Rightarrow> string list \<Rightarrow> policy_rule list \<Rightarrow> string \<Rightarrow> rbac_inner \<Rightarrow> bool" where
  "user_holds_all_rules_in_namespace username groups role_rules ns i =
     list_all (holds_rule i username groups (Some ns)) role_rules"

subsection \<open>The floors under eviction\<close>

definition rv_wf :: "rv_tracker \<Rightarrow> bool" where
  "rv_wf t =
     (bt_wf (rv_lru t) \<and> length (rv_lru t) \<le> max_tracked_resource_versions \<and>
      (\<forall>tick k. map_of (rv_lru t) tick = Some k \<longleftrightarrow> (\<exists>r. rv_versions t k = Some (r, tick))) \<and>
      (\<forall>tick k. map_of (rv_lru t) tick = Some k \<longrightarrow> tick < rv_tick t))"

definition rv_floor :: "rv_tracker \<Rightarrow> string \<Rightarrow> nat option" where
  "rv_floor t k = map_option fst (rv_versions t k)"

text \<open>Recording a new tick for a key: what touching and accepting have in common.\<close>

definition retick :: "rv_tracker \<Rightarrow> string \<Rightarrow> nat \<Rightarrow> rv_tracker" where
  "retick t key r =
     \<lparr>rv_versions = (rv_versions t)(key \<mapsto> (r, rv_tick t)),
      rv_lru = bt_insert (rv_tick t) key
        (case rv_versions t key of Some (_, old) \<Rightarrow> bt_remove old (rv_lru t) | None \<Rightarrow> rv_lru t),
      rv_tick = Suc (rv_tick t)\<rparr>"

lemma touch_existing_retick:
  "touch_existing t key = (case rv_versions t key of None \<Rightarrow> t | Some (r, _) \<Rightarrow> retick t key r)"
  by (auto simp: touch_existing_def retick_def Let_def split: option.split)

lemma accept_update_retick:
  "accept_update t key (Some r) =
     (case rv_floor t key of
        Some f \<Rightarrow> if r \<le> f then (touch_existing t key, False) else (lru_evict (retick t key r), True)
      | None \<Rightarrow> (lru_evict (retick t key r), True))"
  by (auto simp: accept_update_def retick_def rv_floor_def Let_def split: option.split)

definition rv_index :: "rv_tracker \<Rightarrow> bool" where
  "rv_index t =
     (bt_wf (rv_lru t) \<and>
      (\<forall>tick k. map_of (rv_lru t) tick = Some k \<longleftrightarrow> (\<exists>r. rv_versions t k = Some (r, tick))) \<and>
      (\<forall>tick k. map_of (rv_lru t) tick = Some k \<longrightarrow> tick < rv_tick t))"

lemma rv_wf_index: "rv_wf t \<longleftrightarrow> rv_index t \<and> length (rv_lru t) \<le> max_tracked_resource_versions"
  by (auto simp: rv_wf_def rv_index_def)

lemma retick_index:
  assumes "rv_index t"
  shows "rv_index (retick t key r)" and "length (rv_lru (retick t key r)) \<le> Suc (length (rv_lru t))"
    and "rv_versions t key \<noteq> None \<Longrightarrow> length (rv_lru (retick t key r)) = length (rv_lru t)"
    and "fst ` set (rv_lru (retick t key r)) \<subseteq> insert (rv_tick t) (fst ` set (rv_lru t))"
proof -
  define old where "old = (case rv_versions t key of Some (_, o') \<Rightarrow> bt_remove o' (rv_lru t) | None \<Rightarrow> rv_lru t)"
  have wf: "bt_wf (rv_lru t)" "map_of (rv_lru t) tick = Some k \<longleftrightarrow> (\<exists>r. rv_versions t k = Some (r, tick))"
    "map_of (rv_lru t) tick = Some k \<Longrightarrow> tick < rv_tick t" for tick k
    using assms by (auto simp: rv_index_def)
  have new: "rv_tick t \<notin> fst ` set (rv_lru t)" using wf(3) by (metis less_irrefl map_of_eq_None_iff not_None_eq)
  have old_wf: "bt_wf old" using wf(1) by (simp add: old_def split: option.split)
  have old_map: "map_of old tick = Some k \<longleftrightarrow> k \<noteq> key \<and> (\<exists>r. rv_versions t k = Some (r, tick))" for tick k
    using wf(2) [of tick k] wf(2) [of tick key] by (auto simp: old_def split: option.splits)
  have lru: "rv_lru (retick t key r) = bt_insert (rv_tick t) key old" by (simp add: retick_def old_def)
  have old_sub: "fst ` set old \<subseteq> fst ` set (rv_lru t)" by (auto simp: old_def split: option.splits)
  show "rv_index (retick t key r)"
    unfolding rv_index_def
  proof (intro conjI allI impI)
    show "bt_wf (rv_lru (retick t key r))" using old_wf by (simp add: lru)
    fix tick k
    have lt: "rv_versions t k = Some (r', tick) \<Longrightarrow> tick < rv_tick t" for r' using wf(2,3) by blast
    then show "map_of (rv_lru (retick t key r)) tick = Some k \<longleftrightarrow> (\<exists>r'. rv_versions (retick t key r) k = Some (r', tick))"
      unfolding lru using old_map [of tick k] by (auto simp: retick_def)
    show "tick < rv_tick (retick t key r)" if "map_of (rv_lru (retick t key r)) tick = Some k"
      using that old_map [of tick k] lt unfolding lru
      by (auto simp: retick_def less_Suc_eq split: if_splits)
  qed
  have len: "length (rv_lru (retick t key r)) = Suc (length old)"
    unfolding lru using new old_sub by (auto simp: length_bt_insert [OF old_wf])
  show "length (rv_lru (retick t key r)) \<le> Suc (length (rv_lru t))"
    unfolding len by (simp add: old_def length_bt_remove_le split: option.split)
  show "length (rv_lru (retick t key r)) = length (rv_lru t)" if tracked: "rv_versions t key \<noteq> None"
  proof -
    obtain x where "rv_versions t key = Some x" using tracked by blast
    then obtain r' tick where v: "rv_versions t key = Some (r', tick)" by (cases x) auto
    then have "tick \<in> fst ` set (rv_lru t)" using wf(2) by (metis domI dom_map_of_conv_image_fst)
    from length_bt_remove [OF wf(1) this] show ?thesis unfolding len by (simp add: old_def v)
  qed
  show "fst ` set (rv_lru (retick t key r)) \<subseteq> insert (rv_tick t) (fst ` set (rv_lru t))"
    using old_sub unfolding lru by auto
qed

lemma retick_versions: "rv_versions (retick t key r) = (rv_versions t)(key \<mapsto> (r, rv_tick t))"
  by (simp add: retick_def)

definition younger :: "rv_tracker \<Rightarrow> nat \<Rightarrow> nat" where
  "younger t tick = card {u \<in> fst ` set (rv_lru t). tick < u}"

lemma younger_mono: "fst ` set (rv_lru t') \<subseteq> insert u (fst ` set (rv_lru t)) \<Longrightarrow> younger t' tick \<le> Suc (younger t tick)"
proof -
  assume "fst ` set (rv_lru t') \<subseteq> insert u (fst ` set (rv_lru t))"
  then have "{u \<in> fst ` set (rv_lru t'). tick < u} \<subseteq> insert u {u \<in> fst ` set (rv_lru t). tick < u}" by auto
  then have "younger t' tick \<le> card (insert u {u \<in> fst ` set (rv_lru t). tick < u})"
    unfolding younger_def by (intro card_mono) auto
  also have "\<dots> \<le> Suc (younger t tick)" unfolding younger_def by (rule card_insert_le_m1) auto
  finally show ?thesis .
qed

lemma lru_evict_cases:
  assumes "rv_index t" and "length (rv_lru t) \<le> Suc max_tracked_resource_versions"
  obtains (room) "lru_evict t = t" "rv_wf t"
    | (evict) tick k r rest where "rv_lru t = (tick, k) # rest" "rv_versions t k = Some (r, tick)"
        "lru_evict t = t\<lparr>rv_lru := rest, rv_versions := (rv_versions t)(k := None)\<rparr>"
        "rv_wf (lru_evict t)" "younger t tick = max_tracked_resource_versions"
proof (cases "length (rv_lru t) > max_tracked_resource_versions")
  case False
  then show ?thesis using assms(1) room by (simp add: lru_evict_def rv_wf_index)
next
  case True
  then obtain tick k rest where lru: "rv_lru t = (tick, k) # rest" by (cases "rv_lru t") auto
  have wf: "bt_wf (rv_lru t)" "map_of (rv_lru t) u = Some k' \<longleftrightarrow> (\<exists>r. rv_versions t k' = Some (r, u))"
    "map_of (rv_lru t) u = Some k' \<Longrightarrow> u < rv_tick t" for u k'
    using assms(1) by (auto simp: rv_index_def)
  obtain r where r: "rv_versions t k = Some (r, tick)" using wf(2) [of tick k] by (auto simp: lru)
  have rest: "\<forall>e \<in> set rest. tick < fst e" "bt_wf rest" using wf(1) by (simp_all add: lru bt_wf_Cons)
  have evict: "lru_evict t = t\<lparr>rv_lru := rest, rv_versions := (rv_versions t)(k := None)\<rparr>"
    using True by (simp add: lru_evict_def lru)
  have tick_rest: "map_of rest tick = None" using rest(1) by (auto simp: map_of_eq_None_iff)
  have maps: "map_of rest u = Some k' \<longleftrightarrow> k' \<noteq> k \<and> (\<exists>r. rv_versions t k' = Some (r, u))" for u k'
    using wf(2) [of u k'] wf(2) [of u k] r tick_rest by (auto simp: lru split: if_splits)
  have lt: "rv_versions t k' = Some (r', u) \<Longrightarrow> u < rv_tick t" for k' r' u using wf(2,3) by blast
  have "rv_index (lru_evict t)"
    using rest(2) maps lt unfolding rv_index_def evict by (auto simp: fun_upd_apply)
  moreover have "length rest = max_tracked_resource_versions" using True assms(2) by (simp add: lru)
  moreover have "{u \<in> fst ` set (rv_lru t). tick < u} = fst ` set rest" using rest(1) by (auto simp: lru)
  moreover have "card (fst ` set rest) = length rest"
    using bt_wf_distinct [OF rest(2)] by (metis distinct_card length_map set_map)
  ultimately show ?thesis
    by (intro that(2) [OF lru r evict]) (simp_all add: rv_wf_index evict younger_def)
qed

text \<open>The operations on the tracker, as a run over the keys they concern.\<close>

datatype rv_op = Touch string | Accept string "nat option"

fun rv_run1 :: "rv_op \<Rightarrow> rv_tracker \<Rightarrow> rv_tracker" where
  "rv_run1 (Touch k) t = touch_existing t k"
| "rv_run1 (Accept k r) t = fst (accept_update t k r)"

lemma retick_keeps:
  assumes "rv_wf t" and "rv_versions t k = Some (f, tick)" and "younger t tick + 1 < max_tracked_resource_versions"
    and "\<And>f0. rv_floor t key = Some f0 \<Longrightarrow> f0 \<le> r"
  shows "rv_wf (lru_evict (retick t key r)) \<and>
    (\<exists>f' tick'. rv_versions (lru_evict (retick t key r)) k = Some (f', tick') \<and> f \<le> f' \<and>
       younger (lru_evict (retick t key r)) tick' \<le> Suc (younger t tick))"
proof -
  have ix: "rv_index t" "length (rv_lru t) \<le> max_tracked_resource_versions" using assms(1) by (auto simp: rv_wf_index)
  note re = retick_index [OF ix(1), where key = key and r = r]
  let ?t = "retick t key r"
  have tick_lt: "u \<le> rv_tick t" if mem: "u \<in> fst ` set (rv_lru ?t)" for u
  proof -
    obtain k' where "map_of (rv_lru ?t) u = Some k'" using mem by (metis domD dom_map_of_conv_image_fst)
    then have "u < rv_tick ?t" using re(1) unfolding rv_index_def by blast
    then show ?thesis by (simp add: retick_def)
  qed
  define f' tick' where "f' = (if k = key then r else f)" and "tick' = (if k = key then rv_tick t else tick)"
  have v: "rv_versions ?t k = Some (f', tick')"
    using assms(2) by (simp add: retick_versions f'_def tick'_def)
  have "rv_floor t k = Some f" using assms(2) by (simp add: rv_floor_def)
  then have ff: "f \<le> f'" using assms(4) by (cases "k = key") (simp_all add: f'_def)
  have y: "younger ?t tick' \<le> Suc (younger t tick)"
  proof (cases "k = key")
    case True
    have "{u \<in> fst ` set (rv_lru ?t). tick' < u} = {}" using tick_lt True by (auto simp: tick'_def not_less)
    then have "younger ?t tick' = 0" by (simp only: younger_def card.empty)
    then show ?thesis by simp
  next
    case False
    then show ?thesis using younger_mono [OF re(4)] by (simp add: tick'_def)
  qed
  have len: "length (rv_lru ?t) \<le> Suc max_tracked_resource_versions" using re(2) ix(2) by simp
  from re(1) len show ?thesis
  proof (cases rule: lru_evict_cases)
    case room
    then show ?thesis using v ff y by auto
  next
    case (evict u k0 r0 rest)
    have "k \<noteq> k0"
    proof
      assume "k = k0"
      then have "tick' = u" using evict(2) v by simp
      then show False using evict(5) y assms(3) by simp
    qed
    moreover have "younger (lru_evict ?t) tick' \<le> younger ?t tick'"
      unfolding younger_def evict(3) by (intro card_mono) (auto simp: evict(1))
    ultimately show ?thesis using v ff y evict(3,4) by auto
  qed
qed

lemma rv_run1_keeps:
  assumes "rv_wf t" and "rv_versions t k = Some (f, tick)" and "younger t tick + 1 < max_tracked_resource_versions"
  shows "rv_wf (rv_run1 op t) \<and> (\<exists>f' tick'. rv_versions (rv_run1 op t) k = Some (f', tick') \<and> f \<le> f' \<and>
       younger (rv_run1 op t) tick' \<le> Suc (younger t tick))"
proof -
  have same: ?thesis if "rv_run1 op t = t" using that assms by auto
  have touch: ?thesis if op: "rv_run1 op t = touch_existing t key" for key
  proof (cases "rv_versions t key")
    case None
    then show ?thesis using op same by (simp add: touch_existing_def)
  next
    case (Some x)
    then obtain r old where x: "rv_versions t key = Some (r, old)" by (cases x) auto
    have "length (rv_lru (retick t key r)) \<le> max_tracked_resource_versions"
      using retick_index(3) [of t key r] assms(1) x by (simp add: rv_wf_index)
    then have "lru_evict (retick t key r) = touch_existing t key"
      by (simp add: lru_evict_def touch_existing_retick x)
    then show ?thesis
      using retick_keeps [OF assms, of key r] x op by (simp add: rv_floor_def)
  qed
  show ?thesis
  proof (cases op)
    case (Touch key)
    then show ?thesis using touch by simp
  next
    case (Accept key incoming)
    show ?thesis
    proof (cases incoming)
      case None
      then show ?thesis using Accept same by (simp add: accept_update_def)
    next
      case (Some r)
      show ?thesis
      proof (cases "\<exists>f0. rv_floor t key = Some f0 \<and> r \<le> f0")
        case True
        then show ?thesis using touch [of key] Accept Some by (auto simp: accept_update_retick)
      next
        case False
        then have "rv_run1 op t = lru_evict (retick t key r)"
          using Accept Some by (auto simp: accept_update_retick split: option.split)
        then show ?thesis using retick_keeps [OF assms, of key r] False by fastforce
      qed
    qed
  qed
qed

lemma rv_run_keeps:
  assumes "rv_wf t" and "rv_versions t k = Some (f, tick)" and "younger t tick + length ops < max_tracked_resource_versions"
  shows "rv_wf (fold rv_run1 ops t) \<and> (\<exists>f'. rv_floor (fold rv_run1 ops t) k = Some f' \<and> f \<le> f')"
  using assms
proof (induction ops arbitrary: t f tick)
  case Nil
  then show ?case by (simp add: rv_floor_def)
next
  case (Cons op ops)
  have "younger t tick + 1 < max_tracked_resource_versions" using Cons.prems(3) by simp
  from rv_run1_keeps [OF Cons.prems(1,2) this, of op] obtain f' tick' where
    step: "rv_wf (rv_run1 op t)" "rv_versions (rv_run1 op t) k = Some (f', tick')" "f \<le> f'"
      "younger (rv_run1 op t) tick' \<le> Suc (younger t tick)" by blast
  then have "younger (rv_run1 op t) tick' + length ops < max_tracked_resource_versions" using Cons.prems(3) by simp
  from Cons.IH [OF step(1,2) this] step(3) show ?case by fastforce
qed

subsection \<open>Operations of the index\<close>

datatype index_op = Apply string json | Remove string

fun run_op :: "rbac_codec \<Rightarrow> index_op \<Rightarrow> rbac_inner \<Rightarrow> rbac_inner" where
  "run_op rc (Apply k v) i = apply_object rc k v i"
| "run_op rc (Remove k) i = remove_object k i"

text \<open>What the authorizer decides from: everything but the floors.\<close>

definition same_grants :: "rbac_inner \<Rightarrow> rbac_inner \<Rightarrow> bool" where
  "same_grants i j =
     (cluster_roles i = cluster_roles j \<and> cluster_role_aggregations i = cluster_role_aggregations j \<and>
      roles i = roles j \<and> cluster_bindings i = cluster_bindings j \<and> namespace_bindings i = namespace_bindings j)"

lemma same_grants_decides: "same_grants i j \<Longrightarrow> is_allowed i req = is_allowed j req"
proof -
  assume g: "same_grants i j"
  then have res: "resolve_cluster_role_rules i = resolve_cluster_role_rules j" "resolve_role_rules i = resolve_role_rules j"
    by (auto simp: same_grants_def fun_eq_iff resolve_cluster_role_rules_def resolve_role_rules_def)
  have bindings: "cluster_bindings i = cluster_bindings j" "namespace_bindings i = namespace_bindings j"
    using g by (auto simp: same_grants_def)
  show ?thesis unfolding is_allowed_def res bindings ..
qed

lemma remove_object_versions [simp]: "versions (remove_object k i) = touch_existing (versions i) k"
  by (simp add: remove_object_def Let_def split: option.split rbac_key.split)

lemma apply_object_versions:
  "versions (apply_object rc k v i) = versions i \<or>
   versions (apply_object rc k v i) = fst (accept_update (versions i) k (incoming_version v))"
  by (auto simp: apply_object_def Let_def split_beta split: option.split rbac_key.split)

lemma run_op_versions:
  "versions (run_op rc op i) = versions i \<or> (\<exists>rop. versions (run_op rc op i) = rv_run1 rop (versions i))"
proof (cases op)
  case (Apply k v)
  have "fst (accept_update (versions i) k (incoming_version v)) = rv_run1 (Accept k (incoming_version v)) (versions i)"
    by simp
  then show ?thesis using apply_object_versions [of rc k v i] unfolding Apply run_op.simps by metis
next
  case (Remove k)
  have "versions (run_op rc op i) = rv_run1 (Touch k) (versions i)" by (simp add: Remove)
  then show ?thesis by blast
qed

lemma run_ops_versions:
  "\<exists>rops. length rops \<le> length ops \<and> versions (fold (run_op rc) ops i) = fold rv_run1 rops (versions i)"
proof (induction ops arbitrary: i)
  case (Cons op ops)
  obtain rops where rops: "length rops \<le> length ops"
    "versions (fold (run_op rc) ops (run_op rc op i)) = fold rv_run1 rops (versions (run_op rc op i))"
    using Cons.IH by blast
  from run_op_versions [of rc op i] show ?case
  proof
    assume "versions (run_op rc op i) = versions i"
    then show ?thesis using rops by (intro exI [of _ rops]) simp
  next
    assume "\<exists>rop. versions (run_op rc op i) = rv_run1 rop (versions i)"
    then obtain rop where "versions (run_op rc op i) = rv_run1 rop (versions i)" by blast
    then show ?thesis using rops by (intro exI [of _ "rop # rops"]) simp
  qed
qed simp

lemma apply_stale:
  assumes "rv_floor (versions i) k = Some f" and "incoming_version v = Some r" and "r \<le> f"
  shows "same_grants (apply_object rc k v i) i"
proof -
  have "snd (accept_update (versions i) k (incoming_version v)) = False"
    using assms by (auto simp: accept_update_retick)
  then show ?thesis
    by (auto simp: apply_object_def Let_def split_beta same_grants_def split: option.split rbac_key.split)
qed

lemma touch_existing_keeps:
  assumes "rv_wf t" and "rv_floor t k = Some f"
  shows "\<exists>tick. rv_wf (touch_existing t k) \<and> rv_versions (touch_existing t k) k = Some (f, tick) \<and>
    younger (touch_existing t k) tick = 0"
proof -
  obtain old where old: "rv_versions t k = Some (f, old)" using assms(2) by (auto simp: rv_floor_def)
  have touch: "touch_existing t k = retick t k f" by (simp add: touch_existing_retick old)
  note re = retick_index [where key = k and r = f, OF conjunct1 [OF iffD1 [OF rv_wf_index assms(1)]]]
  have "rv_wf (retick t k f)" using re(1,3) assms(1) old by (simp add: rv_wf_index)
  moreover have "u \<le> rv_tick t" if mem: "u \<in> fst ` set (rv_lru (retick t k f))" for u
  proof -
    obtain k' where "map_of (rv_lru (retick t k f)) u = Some k'" using mem by (metis domD dom_map_of_conv_image_fst)
    then have "u < rv_tick (retick t k f)" using re(1) unfolding rv_index_def by blast
    then show ?thesis by (simp add: retick_def)
  qed
  then have "{u \<in> fst ` set (rv_lru (retick t k f)). rv_tick t < u} = {}" by fastforce
  ultimately show ?thesis by (intro exI [of _ "rv_tick t"]) (simp add: touch retick_versions younger_def)
qed

subsection \<open>Rules as a whole\<close>

lemma is_allowed_enumerated:
  assumes "rq_non_resource_url req = None" and "rq_namespace req = Some ns"
  shows "is_allowed i req \<longleftrightarrow> rules_allow (enumerate_rules i (rq_username req) (rq_groups req) ns) req"
  using assms unfolding is_allowed_def enumerate_rules_def rules_allow_def list_ex_iff by fastforce

definition cluster_rules :: "rbac_inner \<Rightarrow> string \<Rightarrow> string list \<Rightarrow> policy_rule list" where
  "cluster_rules i username groups =
     concat (map (\<lambda>(_, b). resolve_cluster_role_rules i (b_role_ref b))
       (filter (\<lambda>(_, b). subject_matches b username groups) (cluster_bindings i)))"

lemma is_allowed_cluster:
  "is_allowed i (resource_probe u gs None v g r) \<longleftrightarrow> rules_allow (cluster_rules i u gs) (resource_probe u gs None v g r)"
  "is_allowed i (url_probe u gs v url) \<longleftrightarrow> rules_allow_non_resource (cluster_rules i u gs) v url"
  unfolding is_allowed_def cluster_rules_def rules_allow_def rules_allow_non_resource_def list_ex_iff
  by (fastforce simp: resource_probe_def url_probe_def)+

lemma cluster_rules_suffice:
  assumes "rq_username req = u" and "rq_groups req = gs"
  shows "rq_non_resource_url req = None \<Longrightarrow> rules_allow (cluster_rules i u gs) req \<Longrightarrow> is_allowed i req"
    and "rq_non_resource_url req = Some url \<Longrightarrow> rules_allow_non_resource (cluster_rules i u gs) (rq_verb req) url \<Longrightarrow> is_allowed i req"
  using assms unfolding is_allowed_def cluster_rules_def rules_allow_def rules_allow_non_resource_def list_ex_iff
  by fastforce+

subsection \<open>A probe answers for every request of its rule\<close>

definition plain_grants :: "policy_rule list \<Rightarrow> bool" where
  "plain_grants rules =
     list_all (\<lambda>rule. ''*/'' \<notin> set (resources rule) \<and>
       list_all (\<lambda>p. \<not> ends_with p ''**'') (non_resource_urls rule)) rules"

lemma split_once_slash: "split_once CHR ''/'' r = Some (res, sub) \<Longrightarrow> r = res @ ''/'' @ sub \<and> CHR ''/'' \<notin> set res"
  by (simp add: split_once_Some)

lemma resource_matches_ex: "resource_matches rs res sub \<longleftrightarrow> (\<exists>r \<in> set rs. resource_matches [r] res sub)"
  by (induction rs) (auto simp: resource_matches_def)

lemma wildcard_match_ex: "wildcard_match xs y \<longleftrightarrow> (\<exists>x \<in> set xs. x = ''*'' \<or> x = y)"
  by (simp add: wildcard_match_def list_ex_iff)

lemma probe_resource:
  assumes "resource_matches held r []" and "''*/'' \<notin> set held" and "resource_matches [r] res sub"
  shows "resource_matches held res sub"
proof -
  obtain h where h: "h \<in> set held" "h = ''*'' \<or> (case split_once CHR ''/'' h of
      Some (a, b) \<Rightarrow> a = r \<and> b = [] | None \<Rightarrow> h = r)"
    using assms(1) by (auto simp: resource_matches_def list_ex_iff split: option.splits)
  have any: ?thesis if "''*'' \<in> set held" using that by (auto simp: resource_matches_def list_ex_iff)
  show ?thesis
  proof (cases "CHR ''/'' \<in> set r")
    case True
    have "h = ''*''"
    proof (rule ccontr)
      assume "h \<noteq> ''*''"
      then show False
        using h(2) True split_once_slash [of h] by (auto simp: split_once_None split: option.splits)
    qed
    then show ?thesis using h(1) any by simp
  next
    case False
    then have plain: "split_once CHR ''/'' r = None" by (simp add: split_once_None)
    show ?thesis
    proof (cases "r = ''*''")
      case True
      have "h = ''*'' \<or> h = ''*/''" using h(2) True split_once_slash [of h] by (auto split: option.splits)
      then show ?thesis using h(1) assms(2) any by auto
    next
      case neq: False
      have "strip_prefix r ''*/'' = None"
        using False by (cases "strip_prefix r ''*/''") (auto simp: strip_prefix_Some_iff)
      then have "sub = [] \<and> r = res" using assms(3) neq plain by (auto simp: resource_matches_def)
      then show ?thesis using assms(1) by simp
    qed
  qed
qed

lemma wildcard_probe: "wildcard_match held x \<Longrightarrow> x = ''*'' \<or> x = y \<Longrightarrow> wildcard_match held y"
  by (auto simp: wildcard_match_def list_ex_iff)

lemma probe_url:
  assumes "non_resource_url_matches p pat" and "\<not> ends_with p ''**''" and "non_resource_url_matches pat url"
  shows "non_resource_url_matches p url"
proof (cases "p = ''*''")
  case True
  then show ?thesis by (simp add: non_resource_url_matches_def)
next
  case False
  show ?thesis
  proof (cases "strip_suffix p ''*''")
    case None
    then show ?thesis using assms(1,3) False by (simp add: non_resource_url_matches_def)
  next
    case (Some q)
    then have p: "p = q @ ''*''" by (simp add: strip_suffix_Some_iff)
    have q: "prefix q pat" using assms(1) False Some by (simp add: non_resource_url_matches_def starts_with_iff_prefix)
    have no_star: "\<not> (\<exists>q'. q = q' @ ''*'')"
      using assms(2) p by (auto simp: ends_with_def starts_with_iff_prefix)
    have "prefix q url"
    proof (cases "strip_suffix pat ''*''")
      case None
      then show ?thesis using assms(3) q by (auto simp: non_resource_url_matches_def ends_with_def strip_suffix_def split: if_splits)
    next
      case (Some b)
      then have pat: "pat = b @ ''*''" by (simp add: strip_suffix_Some_iff)
      have "prefix q b" using q no_star unfolding pat by (auto simp: prefix_append prefix_Cons)
      moreover have "pat = ''*'' \<Longrightarrow> b = []" using pat by simp
      ultimately show ?thesis
        using assms(3) Some by (auto simp: non_resource_url_matches_def starts_with_iff_prefix split: if_splits intro: prefix_order.trans)
    qed
    then show ?thesis using False Some by (simp add: non_resource_url_matches_def starts_with_iff_prefix)
  qed
qed

lemma holds_rule_covers:
  assumes "rule_covers rule req" and "plain_grants held" and
    "\<And>g r v. g \<in> set (api_groups rule) \<Longrightarrow> r \<in> set (resources rule) \<Longrightarrow> v \<in> set (verbs rule) \<Longrightarrow>
       rules_allow held (resource_probe u gs ns v g r)"
  shows "rules_allow held req"
proof -
  obtain g v r where g: "g \<in> set (api_groups rule)" "g = ''*'' \<or> g = rq_api_group req"
    and v: "v \<in> set (verbs rule)" "v = ''*'' \<or> v = rq_verb req"
    and r: "r \<in> set (resources rule)" "resource_matches [r] (rq_resource req) (rq_subresource req)"
    using assms(1) resource_matches_ex [of "resources rule"] unfolding rule_covers_def wildcard_match_ex by blast
  obtain h where h: "h \<in> set held" "rule_covers h (resource_probe u gs ns v g r)"
    using assms(3) [OF g(1) r(1) v(1)] by (auto simp: rules_allow_def list_ex_iff)
  have "resource_names h = []" using h(2) by (auto simp: rule_covers_def resource_probe_def)
  moreover have "''*/'' \<notin> set (resources h)" using assms(2) h(1) by (auto simp: plain_grants_def list_all_iff)
  ultimately have "rule_covers h req"
    using h(2) wildcard_probe [OF _ g(2)] wildcard_probe [OF _ v(2)] probe_resource [OF _ _ r(2)]
    by (auto simp: rule_covers_def resource_probe_def)
  then show ?thesis using h(1) by (auto simp: rules_allow_def list_ex_iff)
qed

lemma holds_rule_covers_url:
  assumes "rules_allow_non_resource [rule] verb url" and "plain_grants held" and
    "\<And>p v. p \<in> set (non_resource_urls rule) \<Longrightarrow> v \<in> set (verbs rule) \<Longrightarrow> rules_allow_non_resource held v p"
  shows "rules_allow_non_resource held verb url"
proof -
  obtain v p where v: "v \<in> set (verbs rule)" "v = ''*'' \<or> v = verb"
    and p: "p \<in> set (non_resource_urls rule)" "non_resource_url_matches p url"
    using assms(1) by (auto simp: rules_allow_non_resource_def wildcard_match_def list_ex_iff)
  obtain h q where h: "h \<in> set held" "wildcard_match (verbs h) v" "q \<in> set (non_resource_urls h)"
    "non_resource_url_matches q p"
    using assms(3) [OF p(1) v(1)] by (auto simp: rules_allow_non_resource_def list_ex_iff)
  have "\<not> ends_with q ''**''" using assms(2) h(1,3) by (auto simp: plain_grants_def list_all_iff)
  then have "non_resource_url_matches q url" using probe_url h(4) p(2) by blast
  moreover have "non_resource_urls h \<noteq> []" using h(3) by auto
  ultimately show ?thesis
    using h(1,3) wildcard_probe [OF h(2) v(2)] unfolding rules_allow_non_resource_def list_ex_iff by blast
qed

subsection \<open>Properties\<close>

definition one_rule :: "string list \<Rightarrow> string list \<Rightarrow> string list \<Rightarrow> string list \<Rightarrow> policy_rule" where
  "one_rule gs rs vs urls =
     \<lparr>api_groups = gs, resources = rs, verbs = vs, resource_names = [], non_resource_urls = urls\<rparr>"

definition user_index :: "policy_rule list \<Rightarrow> rbac_inner" where
  "user_index rules =
     new_index\<lparr>cluster_roles := [''r'' \<mapsto> rules],
       cluster_bindings := [(''b'', \<lparr>b_subjects = [\<lparr>subj_kind = ''User'', subj_name = ''u'', subj_namespace = None\<rparr>],
          b_role_ref = \<lparr>ref_api_group = rbac_group, ref_kind = ''ClusterRole'', ref_name = ''r''\<rparr>, b_namespace = None\<rparr>)]\<rparr>"

lemma cluster_rules_user_index [simp]: "cluster_rules (user_index rules) ''u'' [] = rules"
  by (simp add: cluster_rules_def user_index_def subject_matches_def resolve_cluster_role_rules_def)

text \<open>C18: escalation prevention is sound. A caller who passes \<^verbatim>\<open>user_holds_all_rules\<close> for a role's rules,
  and whose own cluster-wide grants contain no resource \<^verbatim>\<open>*/\<close> and no URL pattern that ends in \<^verbatim>\<open>**\<close>,
  is already allowed every request the role would allow: in any namespace, for any object name and
  for every resource, subresource or URL its wildcards stand for.\<close>

theorem escalation_check_sound:
  assumes "user_holds_all_rules u gs rules i" and "plain_grants (cluster_rules i u gs)"
    and "rq_username req = u" and "rq_groups req = gs"
    and "case rq_non_resource_url req of
        None \<Rightarrow> rules_allow rules req
      | Some url \<Rightarrow> rules_allow_non_resource rules (rq_verb req) url"
  shows "is_allowed i req"
proof (cases "rq_non_resource_url req")
  case None
  then obtain rule where rule: "rule \<in> set rules" "rule_covers rule req"
    using assms(5) by (auto simp: rules_allow_def list_ex_iff)
  have "holds_rule i u gs None rule" using assms(1) rule(1) by (simp add: user_holds_all_rules_def list_all_iff)
  then have "rules_allow (cluster_rules i u gs) (resource_probe u gs None v g r)"
    if "g \<in> set (api_groups rule)" "r \<in> set (resources rule)" "v \<in> set (verbs rule)" for g r v
    using that by (simp add: holds_rule_def list_all_iff is_allowed_cluster)
  from holds_rule_covers [OF rule(2) assms(2) this] show ?thesis
    using cluster_rules_suffice(1) [OF assms(3,4) None] by blast
next
  case (Some url)
  then obtain rule where rule: "rule \<in> set rules" "rules_allow_non_resource [rule] (rq_verb req) url"
    using assms(5) by (auto simp: rules_allow_non_resource_def list_ex_iff)
  have "holds_rule i u gs None rule" using assms(1) rule(1) by (simp add: user_holds_all_rules_def list_all_iff)
  then have "rules_allow_non_resource (cluster_rules i u gs) v p"
    if "p \<in> set (non_resource_urls rule)" "v \<in> set (verbs rule)" for p v
    using that by (simp add: holds_rule_def list_all_iff is_allowed_cluster)
  from holds_rule_covers_url [OF rule(2) assms(2) this] show ?thesis
    using cluster_rules_suffice(2) [OF assms(3,4) Some] by blast
qed

theorem escalation_check_sound_witness:
  "let i = user_index [one_rule [''*''] [''*''] [''*''] [''/api/*'']];
       req = (resource_probe ''u'' [] (Some ''n'') ''get'' [] ''pods'')\<lparr>rq_subresource := ''log'', rq_name := Some ''p''\<rparr>
   in user_holds_all_rules ''u'' [] [one_rule [[]] [''pods/log''] [''get''] [''/api/v1'']] i \<and> is_allowed i req"
proof -
  let ?i = "user_index [one_rule [''*''] [''*''] [''*''] [''/api/*'']]"
  let ?req = "(resource_probe ''u'' [] (Some ''n'') ''get'' [] ''pods'')\<lparr>rq_subresource := ''log'', rq_name := Some ''p''\<rparr>"
  have held: "user_holds_all_rules ''u'' [] [one_rule [[]] [''pods/log''] [''get''] [''/api/v1'']] ?i" by code_simp
  moreover have "plain_grants [one_rule [''*''] [''*''] [''*''] [''/api/*'']]" by code_simp
  moreover have "rules_allow [one_rule [[]] [''pods/log''] [''get''] [''/api/v1'']] ?req" by code_simp
  ultimately have "is_allowed ?i ?req"
    by (intro escalation_check_sound [OF held]) (simp_all add: resource_probe_def)
  with held show ?thesis by simp
qed

text \<open>the two grants excluded there do break the check. A caller whose only grant is the URL
  pattern \<^verbatim>\<open>/api/**\<close> may not get \<^verbatim>\<open>/api/v1\<close> but passes the check for a role that allows
  \<^verbatim>\<open>/api/*\<close>; a caller whose only grant is the resource \<^verbatim>\<open>*/\<close> may not get pods but passes
  the check for a role that allows every resource.\<close>

theorem escalation_check_gap:
  "user_holds_all_rules ''u'' [] [one_rule [] [] [''get''] [''/api/*'']] (user_index [one_rule [] [] [''get''] [''/api/**'']]) \<and>
   \<not> is_allowed (user_index [one_rule [] [] [''get''] [''/api/**'']]) (url_probe ''u'' [] ''get'' ''/api/v1'') \<and>
   rules_allow_non_resource [one_rule [] [] [''get''] [''/api/*'']] ''get'' ''/api/v1'' \<and>
   user_holds_all_rules ''u'' [] [one_rule [[]] [''*''] [''get''] []] (user_index [one_rule [[]] [''*/''] [''get''] []]) \<and>
   \<not> is_allowed (user_index [one_rule [[]] [''*/''] [''get''] []]) (resource_probe ''u'' [] None ''get'' [] ''pods'') \<and>
   rules_allow [one_rule [[]] [''*''] [''get''] []] (resource_probe ''u'' [] None ''get'' [] ''pods'')"
  by code_simp

text \<open>the check can refuse a role whose rules the caller holds literally: subresource rules are
  probed as if the whole string were a resource name, so the holder of \<^verbatim>\<open>pods/log\<close> is refused
  a role with the single rule \<^verbatim>\<open>pods/log\<close>.\<close>

theorem escalation_check_refuses_held_subresource:
  "\<not> user_holds_all_rules ''u'' [] [one_rule [[]] [''pods/log''] [''get''] []] (user_index [one_rule [[]] [''pods/log''] [''get''] []])"
  by code_simp

text \<open>C25: a deleted role or binding stays deleted. If the index still tracks the version of an object when it
  is removed (the versions of the 4096 objects touched last are tracked), a delayed update that carries a version
  not newer than the tracked one changes no decision, also after up to 4095 further operations on the index,
  whatever they are and whatever they evict.\<close>

theorem removed_object_not_resurrected:
  assumes "rv_wf (versions i)" and "rv_floor (versions i) k = Some f"
    and "length ops < max_tracked_resource_versions" and "incoming_version v = Some r" and "r \<le> f"
  shows "is_allowed (apply_object rc k v (fold (run_op rc) ops (remove_object k i))) req =
    is_allowed (fold (run_op rc) ops (remove_object k i)) req"
proof -
  define i' where "i' = fold (run_op rc) ops (remove_object k i)"
  obtain tick where t: "rv_wf (touch_existing (versions i) k)" "rv_versions (touch_existing (versions i) k) k = Some (f, tick)"
    "younger (touch_existing (versions i) k) tick = 0"
    using touch_existing_keeps [OF assms(1,2)] by blast
  obtain rops where rops: "length rops \<le> length ops" "versions i' = fold rv_run1 rops (touch_existing (versions i) k)"
    using run_ops_versions [of ops rc "remove_object k i"] unfolding i'_def by auto
  have "younger (touch_existing (versions i) k) tick + length rops < max_tracked_resource_versions"
    using t(3) rops(1) assms(3) by simp
  from rv_run_keeps [OF t(1,2) this] obtain f' where "rv_floor (versions i') k = Some f'" "f \<le> f'"
    unfolding rops(2) by blast
  then show ?thesis
    using apply_stale [of i' k f' v r rc] assms(4,5) same_grants_decides unfolding i'_def by simp
qed

definition sample_rbac_codec :: rbac_codec where
  "sample_rbac_codec = \<lparr>decode_role = (\<lambda>_. Some [one_rule [''*''] [''*''] [''*''] []]), decode_binding = (\<lambda>_. None)\<rparr>"

definition versioned :: "nat \<Rightarrow> json" where
  "versioned r = JObj [(''metadata'', JObj [(''resourceVersion'', JStr (nat_str r))])]"

lemma incoming_versioned: "r < 2 ^ 64 \<Longrightarrow> incoming_version (versioned r) = Some r"
  by (simp add: incoming_version_def versioned_def json_idx_def as_str_def parse_u64_nat_str)

definition role_key :: string where
  "role_key = ''/apis/rbac.authorization.k8s.io/v1/clusterroles/r''"

lemma rv_wf_new [simp]: "rv_wf (versions new_index)"
  by (simp add: rv_wf_def new_index_def)

definition role_index :: rbac_inner where
  "role_index = apply_object sample_rbac_codec role_key (versioned 7)
     ((user_index [])\<lparr>cluster_roles := Map.empty\<rparr>)"

lemma role_index_facts:
  "rv_wf (versions role_index)" "rv_floor (versions role_index) role_key = Some 7"
proof -
  have v: "versions role_index = \<lparr>rv_versions = [role_key \<mapsto> (7, 0)], rv_lru = [(0, role_key)], rv_tick = 1\<rparr>"
  proof -
    have "incoming_version (versioned 7) = Some 7" by (simp add: incoming_versioned)
    moreover have "parse_rbac_key role_key = Some (ClusterRole ''r'')" by code_simp
    ultimately show ?thesis
      by (simp add: role_index_def apply_object_def sample_rbac_codec_def accept_update_def user_index_def new_index_def
          lru_evict_def max_tracked_resource_versions_def Let_def)
  qed
  then show "rv_floor (versions role_index) role_key = Some 7" by (simp add: rv_floor_def)
  show "rv_wf (versions role_index)"
    unfolding v by (auto simp: rv_wf_def bt_wf_def max_tracked_resource_versions_def)
qed

theorem removed_object_not_resurrected_witness:
  "is_allowed role_index (resource_probe ''u'' [] None ''get'' [] ''pods'') \<and>
   is_allowed (apply_object sample_rbac_codec role_key (versioned 7) (remove_object role_key role_index))
     (resource_probe ''u'' [] None ''get'' [] ''pods'') =
   is_allowed (remove_object role_key role_index) (resource_probe ''u'' [] None ''get'' [] ''pods'') \<and>
   \<not> is_allowed (remove_object role_key role_index) (resource_probe ''u'' [] None ''get'' [] ''pods'')"
proof -
  have version: "incoming_version (versioned 7) = Some 7" by (simp add: incoming_versioned)
  then have "is_allowed (apply_object sample_rbac_codec role_key (versioned 7) (remove_object role_key role_index))
      (resource_probe ''u'' [] None ''get'' [] ''pods'') =
    is_allowed (remove_object role_key role_index) (resource_probe ''u'' [] None ''get'' [] ''pods'')"
    using removed_object_not_resurrected [OF role_index_facts, of "[]" "versioned 7" 7 sample_rbac_codec]
    by (simp add: max_tracked_resource_versions_def)
  moreover have parse: "parse_rbac_key role_key = Some (ClusterRole ''r'')" by code_simp
  moreover have "is_allowed role_index (resource_probe ''u'' [] None ''get'' [] ''pods'')"
    using parse version by (simp add: role_index_def apply_object_def sample_rbac_codec_def accept_update_def user_index_def
        new_index_def is_allowed_def resource_probe_def subject_matches_def resolve_cluster_role_rules_def
        rules_allow_def rule_covers_def one_rule_def wildcard_match_def resource_matches_def Let_def)
  moreover have "\<not> is_allowed (remove_object role_key role_index) (resource_probe ''u'' [] None ''get'' [] ''pods'')"
    using parse version by (simp add: role_index_def apply_object_def remove_object_def sample_rbac_codec_def accept_update_def
        user_index_def new_index_def is_allowed_def resource_probe_def resolve_cluster_role_rules_def rules_allow_def Let_def)
  ultimately show ?thesis by blast
qed


lemma replace_binding_twice [simp]: "replace_binding k b (replace_binding k b' bs) = replace_binding k b bs"
  by (simp add: replace_binding_def)













text \<open>C36: a RoleBinding grants only in the namespace of its key. Whatever its body says, applying an
  object stored under a RoleBinding key of namespace \<^verbatim>\<open>ns\<close> allows no request that is not a
  request in \<^verbatim>\<open>ns\<close> and was refused before.\<close>

theorem role_binding_scoped:
  assumes "parse_rbac_key key = Some (RoleBinding ns)" and "rq_namespace req \<noteq> Some ns"
    and "is_allowed (apply_object rc key v i) req"
  shows "is_allowed i req"
proof -
  let ?j = "apply_object rc key v i"
  have roles: "resolve_cluster_role_rules ?j = resolve_cluster_role_rules i" "resolve_role_rules ?j = resolve_role_rules i"
    "cluster_bindings ?j = cluster_bindings i"
    using assms(1) by (auto simp: apply_object_def fun_eq_iff resolve_cluster_role_rules_def resolve_role_rules_def
        Let_def split_beta split: option.split)
  have bindings: "(k, b) \<in> set (namespace_bindings i)"
    if "(k, b) \<in> set (namespace_bindings ?j)" "in_namespace b n" "rq_namespace req = Some n" for k b n
    using that assms(1,2) by (auto simp: apply_object_def Let_def split_beta replace_binding_def in_namespace_def split: option.splits if_splits)
  show ?thesis
    using assms(3) bindings unfolding is_allowed_def roles list_ex_iff
    by (fastforce split: option.splits)
qed

theorem role_binding_scoped_witness:
  "let key = ''/apis/rbac.authorization.k8s.io/v1/namespaces/n/rolebindings/b'';
       req = resource_probe ''u'' [] (Some ''m'') ''get'' [] ''pods''
   in is_allowed (apply_object sample_rbac_codec key JNull (user_index [one_rule [''*''] [''*''] [''*''] []])) req \<and>
      is_allowed (user_index [one_rule [''*''] [''*''] [''*''] []]) req"
proof -
  let ?key = "''/apis/rbac.authorization.k8s.io/v1/namespaces/n/rolebindings/b''"
  let ?req = "resource_probe ''u'' [] (Some ''m'') ''get'' [] ''pods''"
  have parse: "parse_rbac_key ?key = Some (RoleBinding ''n'')" by code_simp
  have "apply_object sample_rbac_codec ?key JNull (user_index [one_rule [''*''] [''*''] [''*''] []]) =
      user_index [one_rule [''*''] [''*''] [''*''] []]"
    using parse by (simp add: apply_object_def sample_rbac_codec_def Let_def split_beta)
  moreover have "is_allowed (user_index [one_rule [''*''] [''*''] [''*''] []]) ?req" by code_simp
  ultimately show ?thesis
    using role_binding_scoped [OF parse, of ?req sample_rbac_codec JNull "user_index [one_rule [''*''] [''*''] [''*''] []]"]
    by (simp add: resource_probe_def)
qed

text \<open>C37: the rules review agrees with the authorizer: for every user, group list and namespace, a
  resource request in the namespace is allowed exactly when one of the enumerated rules covers it.\<close>

theorem rules_review_agrees:
  assumes "rq_non_resource_url req = None" and "rq_namespace req = Some ns"
  shows "is_allowed i req \<longleftrightarrow> rules_allow (enumerate_rules i (rq_username req) (rq_groups req) ns) req"
  by (rule is_allowed_enumerated [OF assms])

theorem rules_review_agrees_witness:
  "let i = user_index [one_rule [''*''] [''*''] [''*''] []]; req = resource_probe ''u'' [] (Some ''m'') ''get'' [] ''pods''
   in is_allowed i req \<and> rules_allow (enumerate_rules i ''u'' [] ''m'') req"
proof -
  let ?i = "user_index [one_rule [''*''] [''*''] [''*''] []]" and ?req = "resource_probe ''u'' [] (Some ''m'') ''get'' [] ''pods''"
  have "is_allowed ?i ?req" by code_simp
  then show ?thesis using rules_review_agrees [of ?req "''m''" ?i] by (simp add: resource_probe_def)
qed

text \<open>keys are classified by position, never by substring: for every namespace and name, also ones
  that are spelled like a kind, a path built for a kind parses back to that kind, namespace and name.\<close>

theorem rbac_key_roundtrip:
  assumes "ver \<noteq> []" and "CHR ''/'' \<notin> set ver" and "ns \<noteq> []" and "CHR ''/'' \<notin> set ns" and "name \<noteq> []" and "CHR ''/'' \<notin> set name"
  shows "parse_rbac_key (''/apis/rbac.authorization.k8s.io/'' @ ver @ ''/clusterroles/'' @ name) = Some (ClusterRole name) \<and>
    parse_rbac_key (''/apis/rbac.authorization.k8s.io/'' @ ver @ ''/clusterrolebindings/'' @ name) = Some ClusterRoleBinding \<and>
    parse_rbac_key (''/apis/rbac.authorization.k8s.io/'' @ ver @ ''/namespaces/'' @ ns @ ''/roles/'' @ name) = Some (Role ns name) \<and>
    parse_rbac_key (''/apis/rbac.authorization.k8s.io/'' @ ver @ ''/namespaces/'' @ ns @ ''/rolebindings/'' @ name) = Some (RoleBinding ns)"
  using assms by (simp add: parse_rbac_key_def split_char_append split_char_none)

theorem rbac_key_roundtrip_witness:
  "parse_rbac_key ''/apis/rbac.authorization.k8s.io/v1/namespaces/clusterroles/roles/clusterrolebindings'' =
     Some (Role ''clusterroles'' ''clusterrolebindings'')"
  using rbac_key_roundtrip [of "''v1''" "''clusterroles''" "''clusterrolebindings''"] by simp

end
