(* ===== verification/Net_Addr.thy ===== *)
theory Net_Addr
  imports U7s_Prelude "HOL-Library.Word"
begin

text \<open>
  Rust's \<^verbatim>\<open>std::net::IpAddr\<close> as the API server uses it: an IPv4 address is a 32-bit word, an
  IPv6 address a 128-bit word. \<^verbatim>\<open>str::parse::<IpAddr>\<close> is the library's recursive-descent
  parser (at most three decimal digits per octet without a leading zero, at most four hexadecimal
  digits per group, one \<^verbatim>\<open>::\<close>, an embedded IPv4 tail), \<^verbatim>\<open>Display\<close> is the canonical
  text. Printing and parsing again gives the address back, so an address has one canonical text.
\<close>

unbundle bit_operations_syntax

type_synonym u32 = "32 word"
type_synonym u128 = "128 word"

datatype ip_addr = V4 u32 | V6 u128

subsection \<open>Numbers\<close>

definition hex_digit :: "nat \<Rightarrow> char" where
  "hex_digit d = (if d < 10 then char_of (48 + d) else char_of (87 + d))"

definition to_digit :: "nat \<Rightarrow> char \<Rightarrow> nat option" where
  "to_digit radix c =
     (let n = (of_char c :: nat);
          d = (if 48 \<le> n \<and> n \<le> 57 then Some (n - 48)
               else if 97 \<le> n \<and> n \<le> 122 then Some (n - 87)
               else if 65 \<le> n \<and> n \<le> 90 then Some (n - 55) else None)
      in case d of Some v \<Rightarrow> if v < radix then Some v else None | None \<Rightarrow> None)"

definition radix_val :: "nat \<Rightarrow> string \<Rightarrow> nat" where
  "radix_val radix s =
     foldl (\<lambda>acc c. radix * acc + (case to_digit radix c of Some d \<Rightarrow> d | None \<Rightarrow> 0)) 0 s"

text \<open>
  \<^verbatim>\<open>Parser::read_number\<close> with a digit limit: it consumes the longest run of digits and fails
  on none, on too many, on a forbidden leading zero and on a value that does not fit.
\<close>

definition read_number :: "nat \<Rightarrow> nat \<Rightarrow> bool \<Rightarrow> nat \<Rightarrow> string \<Rightarrow> (nat \<times> string) option" where
  "read_number radix max_digits allow_zero_prefix limit s =
     (let ds = takeWhile (\<lambda>c. to_digit radix c \<noteq> None) s;
          r = dropWhile (\<lambda>c. to_digit radix c \<noteq> None) s
      in if ds = [] \<or> length ds > max_digits then None
         else if \<not> allow_zero_prefix \<and> hd ds = CHR ''0'' \<and> length ds > 1 then None
         else if radix_val radix ds < limit then Some (radix_val radix ds, r) else None)"

fun radix_str :: "nat \<Rightarrow> nat \<Rightarrow> string" where
  "radix_str b n =
     (if b \<le> 1 \<or> n < b then [hex_digit n] else radix_str b (n div b) @ [hex_digit (n mod b)])"

declare radix_str.simps [simp del]

subsection \<open>IPv4\<close>

definition read_octet :: "string \<Rightarrow> (nat \<times> string) option" where
  "read_octet s = read_number 10 3 False 256 s"

fun read_char :: "char \<Rightarrow> string \<Rightarrow> string option" where
  "read_char c [] = None"
| "read_char c (x # r) = (if x = c then Some r else None)"

fun read_octets :: "nat \<Rightarrow> string \<Rightarrow> (nat list \<times> string) option" where
  "read_octets 0 s = Some ([], s)"
| "read_octets (Suc n) s =
     (case read_char CHR ''.'' s of
        None \<Rightarrow> None
      | Some s' \<Rightarrow>
          (case read_octet s' of
             None \<Rightarrow> None
           | Some (g, r) \<Rightarrow> map_option (\<lambda>(gs, r'). (g # gs, r')) (read_octets n r)))"

definition read_ipv4_addr :: "string \<Rightarrow> (nat list \<times> string) option" where
  "read_ipv4_addr s =
     (case read_octet s of
        None \<Rightarrow> None
      | Some (g, r) \<Rightarrow> map_option (\<lambda>(gs, r'). (g # gs, r')) (read_octets 3 r))"

definition base_val :: "nat \<Rightarrow> nat list \<Rightarrow> nat" where
  "base_val b gs = foldl (\<lambda>acc g. b * acc + g) 0 gs"

definition base_digits :: "nat \<Rightarrow> nat \<Rightarrow> nat \<Rightarrow> nat list" where
  "base_digits b n v = map (\<lambda>i. v div b ^ (n - Suc i) mod b) [0..<n]"

definition octets :: "u32 \<Rightarrow> nat list" where
  "octets a = base_digits 256 4 (unat a)"

definition show_octets :: "nat list \<Rightarrow> string" where
  "show_octets gs = concat (map (\<lambda>(i, g). (if i = 0 then [] else ''.'') @ radix_str 10 g) (enumerate 0 gs))"

subsection \<open>IPv6\<close>

definition read_separator :: "bool \<Rightarrow> (string \<Rightarrow> 'a option) \<Rightarrow> string \<Rightarrow> 'a option" where
  "read_separator first inner s =
     (if first then inner s else case read_char CHR '':'' s of None \<Rightarrow> None | Some r \<Rightarrow> inner r)"

text \<open>
  \<^verbatim>\<open>read_groups\<close>: up to \<open>k\<close> groups; an IPv4 tail fills two and ends the list. The result
  carries whether the tail was an IPv4 address and the rest of the input.
\<close>

fun read_groups :: "nat \<Rightarrow> bool \<Rightarrow> string \<Rightarrow> nat list \<times> bool \<times> string" where
  "read_groups 0 first s = ([], False, s)"
| "read_groups (Suc k) first s =
     (case (if k \<ge> 1 then read_separator first read_ipv4_addr s else None) of
        Some (os, r) \<Rightarrow> ([base_val 256 (take 2 os), base_val 256 (drop 2 os)], True, r)
      | None \<Rightarrow>
          (case read_separator first (read_number 16 4 True 65536) s of
             Some (g, r) \<Rightarrow> (let (gs, v4, r') = read_groups k False r in (g # gs, v4, r'))
           | None \<Rightarrow> ([], False, s)))"

definition read_ipv6_addr :: "string \<Rightarrow> (nat list \<times> string) option" where
  "read_ipv6_addr s =
     (let (hd_groups, hd_ipv4, r) = read_groups 8 True s in
      if length hd_groups = 8 then Some (hd_groups, r)
      else if hd_ipv4 then None
      else
        (case Option.bind (read_char CHR '':'' r) (read_char CHR '':'') of
           None \<Rightarrow> None
         | Some r' \<Rightarrow>
             (let (tl_groups, tl_ipv4, r'') = read_groups (8 - (length hd_groups + 1)) True r'
              in Some (hd_groups @ replicate (8 - length hd_groups - length tl_groups) 0 @ tl_groups, r''))))"

definition segments :: "u128 \<Rightarrow> nat list" where
  "segments a = base_digits 65536 8 (unat a)"

definition show_subslice :: "nat list \<Rightarrow> string" where
  "show_subslice gs = concat (map (\<lambda>(i, g). (if i = 0 then [] else '':'') @ radix_str 16 g) (enumerate 0 gs))"

text \<open>The first longest run of zero segments, as (start, length).\<close>

fun zero_span :: "nat \<Rightarrow> nat \<times> nat \<Rightarrow> nat \<times> nat \<Rightarrow> nat list \<Rightarrow> nat \<times> nat" where
  "zero_span i longest current [] = longest"
| "zero_span i longest current (g # gs) =
     (if g = 0 then
        (let cur = (if snd current = 0 then (i, 1) else (fst current, Suc (snd current)))
         in zero_span (Suc i) (if snd cur > snd longest then cur else longest) cur gs)
      else zero_span (Suc i) longest (0, 0) gs)"

definition show_segments :: "nat list \<Rightarrow> string" where
  "show_segments gs =
     (if take 6 gs = [0, 0, 0, 0, 0, 65535]
      then ''::ffff:'' @ show_octets (base_digits 256 4 (base_val 65536 (drop 6 gs)))
      else
        (let (st, len) = zero_span 0 (0, 0) (0, 0) gs
         in if len > 1 then show_subslice (take st gs) @ ''::'' @ show_subslice (drop (st + len) gs)
            else show_subslice gs))"

subsection \<open>Addresses\<close>

definition ip_to_string :: "ip_addr \<Rightarrow> string" where
  "ip_to_string a = (case a of V4 w \<Rightarrow> show_octets (octets w) | V6 w \<Rightarrow> show_segments (segments w))"

definition parse_ip :: "string \<Rightarrow> ip_addr option" where
  "parse_ip s =
     (case read_ipv4_addr s of
        Some (os, r) \<Rightarrow> if r = [] then Some (V4 (of_nat (base_val 256 os))) else None
      | None \<Rightarrow>
          (case read_ipv6_addr s of
             Some (gs, r) \<Rightarrow> if r = [] then Some (V6 (of_nat (base_val 65536 gs))) else None
           | None \<Rightarrow> None))"

subsection \<open>Printed numbers are read back\<close>

lemma to_digit_hex_digit: "d < b \<Longrightarrow> b \<le> 16 \<Longrightarrow> to_digit b (hex_digit d) = Some d"
  by (auto simp: to_digit_def hex_digit_def Let_def)

lemma hex_digit_zero: "d < 16 \<Longrightarrow> hex_digit d = CHR ''0'' \<Longrightarrow> d = 0"
  using to_digit_hex_digit [of d 16] by (simp add: to_digit_def)

lemma radix_str_not_Nil [simp]: "radix_str b n \<noteq> []"
  by (subst radix_str.simps) simp

lemma radix_str_digits:
  "2 \<le> b \<Longrightarrow> b \<le> 16 \<Longrightarrow> \<forall>c \<in> set (radix_str b n). to_digit b c \<noteq> None"
proof (induction b n rule: radix_str.induct)
  case (1 b n)
  show ?case
  proof (cases "n < b")
    case True
    then show ?thesis using 1 by (simp add: radix_str.simps [of b n] to_digit_hex_digit)
  next
    case False
    then show ?thesis using 1 by (simp add: radix_str.simps [of b n] to_digit_hex_digit)
  qed
qed

lemma radix_val_snoc:
  "radix_val b (s @ [c]) = b * radix_val b s + (case to_digit b c of Some d \<Rightarrow> d | None \<Rightarrow> 0)"
  by (simp add: radix_val_def)

lemma radix_val_radix_str: "2 \<le> b \<Longrightarrow> b \<le> 16 \<Longrightarrow> radix_val b (radix_str b n) = n"
proof (induction b n rule: radix_str.induct)
  case (1 b n)
  show ?case
  proof (cases "n < b")
    case True
    then show ?thesis
      using 1 by (simp add: radix_str.simps [of b n] radix_val_def to_digit_hex_digit)
  next
    case False
    then show ?thesis
      using 1 by (simp add: radix_str.simps [of b n] radix_val_snoc to_digit_hex_digit)
  qed
qed

lemma length_radix_str: "2 \<le> b \<Longrightarrow> n < b ^ k \<Longrightarrow> 0 < k \<Longrightarrow> length (radix_str b n) \<le> k"
proof (induction k arbitrary: n)
  case (Suc k)
  show ?case
  proof (cases "n < b")
    case False
    have "n div b < b ^ k" using Suc.prems by (simp add: div_less_iff_less_mult mult.commute)
    moreover have "0 < k" using False Suc.prems by (cases k) auto
    ultimately show ?thesis using Suc False by (simp add: radix_str.simps [of b n])
  qed (simp add: radix_str.simps [of b n])
qed simp

lemma radix_str_leading_zero:
  "2 \<le> b \<Longrightarrow> b \<le> 16 \<Longrightarrow> hd (radix_str b n) = CHR ''0'' \<Longrightarrow> n = 0"
proof (induction b n rule: radix_str.induct)
  case (1 b n)
  show ?case
  proof (cases "n < b")
    case True
    then show ?thesis using 1 hex_digit_zero [of n] by (simp add: radix_str.simps [of b n])
  next
    case False
    then have "hd (radix_str b (n div b)) = CHR ''0''"
      using 1(2-4) by (simp add: radix_str.simps [of b n])
    then have "n div b = 0" using 1 False by simp
    then show ?thesis using False 1(2) by (simp add: div_eq_0_iff)
  qed
qed

lemma takeWhile_run: "\<forall>c \<in> set s. P c \<Longrightarrow> r = [] \<or> \<not> P (hd r) \<Longrightarrow> takeWhile P (s @ r) = s"
  by (cases r) (auto simp: takeWhile_append)

lemma dropWhile_run: "\<forall>c \<in> set s. P c \<Longrightarrow> r = [] \<or> \<not> P (hd r) \<Longrightarrow> dropWhile P (s @ r) = r"
  by (cases r) (auto simp: dropWhile_append)

lemma read_number_radix_str:
  assumes b: "2 \<le> b" "b \<le> 16" and n: "n < b ^ k" "0 < k" "n < limit"
    and r: "r = [] \<or> to_digit b (hd r) = None"
  shows "read_number b k z limit (radix_str b n @ r) = Some (n, r)"
proof -
  have run: "takeWhile (\<lambda>c. to_digit b c \<noteq> None) (radix_str b n @ r) = radix_str b n"
      "dropWhile (\<lambda>c. to_digit b c \<noteq> None) (radix_str b n @ r) = r"
    using takeWhile_run [OF radix_str_digits [OF b], of r n] dropWhile_run [OF radix_str_digits [OF b], of r n] r
    by auto
  have "length (radix_str b n) \<le> 1" if "hd (radix_str b n) = CHR ''0''"
    using radix_str_leading_zero [OF b that] b by (simp add: radix_str.simps)
  then show ?thesis
    using n length_radix_str [OF b(1) n(1,2)] b
    unfolding read_number_def Let_def run by (auto simp: radix_val_radix_str)
qed

subsection \<open>Digits in a base\<close>

lemma base_val_snoc: "base_val b (gs @ [g]) = b * base_val b gs + g"
  by (simp add: base_val_def)

lemma base_digits_Suc: "base_digits b (Suc n) v = base_digits b n (v div b) @ [v mod b]"
proof -
  have "v div b ^ (Suc n - Suc i) mod b = v div b div b ^ (n - Suc i) mod b" if "i < n" for i
    using that Suc_diff_Suc [of i n] by (metis diff_Suc_Suc div_mult2_eq power_Suc)
  then show ?thesis by (simp add: base_digits_def)
qed

lemma base_val_base_digits: "v < b ^ n \<Longrightarrow> base_val b (base_digits b n v) = v"
proof (induction n arbitrary: v)
  case 0
  then show ?case by (simp add: base_val_def base_digits_def)
next
  case (Suc n)
  have "v div b < b ^ n" using Suc.prems by (simp add: less_mult_imp_div_less mult.commute)
  then show ?case using Suc.IH by (simp add: base_digits_Suc base_val_snoc)
qed

lemma base_digits_bound: "0 < b \<Longrightarrow> g \<in> set (base_digits b n v) \<Longrightarrow> g < b"
  by (auto simp: base_digits_def)

lemma length_base_digits [simp]: "length (base_digits b n v) = n"
  by (simp add: base_digits_def)

lemma base_digits_base_val:
  "\<forall>g \<in> set gs. g < b \<Longrightarrow> base_digits b (length gs) (base_val b gs) = gs"
proof (induction gs rule: rev_induct)
  case (snoc g gs)
  then show ?case by (simp add: base_digits_Suc base_val_snoc)
qed (simp add: base_digits_def)

subsection \<open>IPv4 round trip\<close>

lemma read_octet_show:
  "g < 256 \<Longrightarrow> r = [] \<or> to_digit 10 (hd r) = None \<Longrightarrow> read_octet (radix_str 10 g @ r) = Some (g, r)"
  unfolding read_octet_def by (rule read_number_radix_str) auto

lemma to_digit_separators [simp]:
  "to_digit 10 CHR ''.'' = None" "to_digit 10 CHR '':'' = None" "to_digit 16 CHR '':'' = None"
  "to_digit 16 CHR ''.'' = None"
  by (simp_all add: to_digit_def)

lemma four_bytes:
  assumes "length gs = 4"
  obtains a b c d where "gs = [a, b, c, d]"
proof -
  have "\<exists>a b c d. gs = [a, b, c, d]"
    using assms by (auto simp: numeral_eq_Suc length_Suc_conv)
  then show thesis using that by blast
qed

lemma read_ipv4_show:
  assumes "length gs = 4" and "\<forall>g \<in> set gs. g < 256" and "r = [] \<or> to_digit 10 (hd r) = None"
  shows "read_ipv4_addr (show_octets gs @ r) = Some (gs, r)"
proof -
  obtain a b c d where gs: "gs = [a, b, c, d]" by (rule four_bytes [OF assms(1)])
  show ?thesis
    using assms(2,3) by (simp add: gs show_octets_def read_ipv4_addr_def read_octet_show numeral_3_eq_3)
qed

lemma parse_ip_v4: "parse_ip (ip_to_string (V4 w)) = Some (V4 w)"
proof -
  have "unat w < 256 ^ 4" using unsigned_less [of w] by simp
  then have "base_val 256 (octets w) = unat w" by (simp add: octets_def base_val_base_digits)
  moreover have "read_ipv4_addr (show_octets (octets w)) = Some (octets w, [])"
    using read_ipv4_show [of "octets w" "[]"] base_digits_bound [of 256]
    by (simp add: octets_def)
  ultimately show ?thesis by (simp add: parse_ip_def ip_to_string_def)
qed

subsection \<open>IPv6 round trip\<close>

lemma read_number_rest: "read_number b k z l s = Some (n, r) \<Longrightarrow> \<exists>p. s = p @ r"
  unfolding read_number_def Let_def
  by (auto split: if_splits intro!: exI [of _ "takeWhile (\<lambda>c. to_digit b c \<noteq> None) s"])

lemma read_ipv4_no_dot: "CHR ''.'' \<notin> set s \<Longrightarrow> read_ipv4_addr s = None"
proof (cases "read_octet s")
  case (Some gr)
  assume nodot: "CHR ''.'' \<notin> set s"
  obtain g r where gr: "gr = (g, r)" by (cases gr)
  obtain p where "s = p @ r" using Some read_number_rest gr unfolding read_octet_def by blast
  then have "read_char CHR ''.'' r = None" using nodot by (cases r) auto
  then show ?thesis using Some gr by (simp add: read_ipv4_addr_def numeral_3_eq_3)
qed (simp add: read_ipv4_addr_def)

text \<open>The text of groups without a leading separator, and with one.\<close>

fun show_tail :: "nat list \<Rightarrow> string" where
  "show_tail [] = []"
| "show_tail (g # gs) = CHR '':'' # radix_str 16 g @ show_tail gs"

lemma show_subslice_shift:
  "concat (map (\<lambda>(i, g). (if i = 0 then [] else '':'') @ radix_str 16 g) (enumerate (Suc n) gs)) = show_tail gs"
  by (induction gs arbitrary: n) auto

lemma show_subslice_Cons: "show_subslice (g # gs) = radix_str 16 g @ show_tail gs"
  by (simp add: show_subslice_def show_subslice_shift)

lemma show_subslice_Nil [simp]: "show_subslice [] = []"
  by (simp add: show_subslice_def)

lemma hex_str_no_dot: "CHR ''.'' \<notin> set (radix_str 16 g)"
  using radix_str_digits [of 16 g] by auto

lemma show_tail_no_dot: "CHR ''.'' \<notin> set (show_tail gs)"
  by (induction gs) (auto simp: hex_str_no_dot)

lemma show_subslice_no_dot: "CHR ''.'' \<notin> set (show_subslice gs)"
  by (cases gs) (auto simp: show_subslice_Cons hex_str_no_dot show_tail_no_dot)

text \<open>What may follow a list of groups: the end, or the two colons of the compressed run.\<close>

definition groups_end :: "string \<Rightarrow> bool" where
  "groups_end r = (r = [] \<or> (\<exists>r'. r = CHR '':'' # CHR '':'' # r'))"

lemma hex_group_read:
  "g < 65536 \<Longrightarrow> r = [] \<or> to_digit 16 (hd r) = None \<Longrightarrow>
     read_number 16 4 True 65536 (radix_str 16 g @ r) = Some (g, r)"
  by (rule read_number_radix_str) auto

lemma read_number_stuck: "s = [] \<or> to_digit b (hd s) = None \<Longrightarrow> read_number b k z l s = None"
  by (cases s) (auto simp: read_number_def)

lemma read_groups_stuck: "groups_end r \<Longrightarrow> read_groups k first r = ([], False, r)"
proof (cases k)
  case (Suc k')
  assume "groups_end r"
  then have "read_octet r = None" "read_number 16 4 True 65536 r = None"
    and "read_octet (tl r) = None" "read_number 16 4 True 65536 (tl r) = None"
    by (auto simp: groups_end_def read_octet_def read_number_stuck)
  then show ?thesis
    using Suc \<open>groups_end r\<close>
    by (auto simp: read_separator_def read_ipv4_addr_def groups_end_def)
qed simp

lemma read_groups_tail:
  "\<forall>g \<in> set gs. g < 65536 \<Longrightarrow> length gs \<le> k \<Longrightarrow> groups_end r \<Longrightarrow> CHR ''.'' \<notin> set r \<Longrightarrow>
     read_groups k False (show_tail gs @ r) = (gs, False, r)"
proof (induction gs arbitrary: k)
  case Nil
  then show ?case by (simp add: read_groups_stuck)
next
  case (Cons g gs)
  obtain k' where k: "k = Suc k'" using Cons.prems by (cases k) auto
  have stop: "show_tail gs @ r = [] \<or> to_digit 16 (hd (show_tail gs @ r)) = None"
    using Cons.prems by (cases gs) (auto simp: groups_end_def)
  have nodot: "read_ipv4_addr (radix_str 16 g @ show_tail gs @ r) = None"
    using Cons.prems by (intro read_ipv4_no_dot) (simp add: hex_str_no_dot show_tail_no_dot)
  show ?case
    using Cons stop k by (simp add: read_separator_def nodot hex_group_read)
qed

lemma read_groups_show:
  assumes "\<forall>g \<in> set gs. g < 65536" and "length gs \<le> k" and "groups_end r" and "CHR ''.'' \<notin> set r"
  shows "read_groups k True (show_subslice gs @ r) = (gs, False, r)"
proof (cases gs)
  case Nil
  then show ?thesis using assms by (simp add: read_groups_stuck)
next
  case (Cons g gs')
  obtain k' where k: "k = Suc k'" using assms Cons by (cases k) auto
  have stop: "show_tail gs' @ r = [] \<or> to_digit 16 (hd (show_tail gs' @ r)) = None"
    using assms by (cases gs') (auto simp: groups_end_def)
  have nodot: "read_ipv4_addr (radix_str 16 g @ show_tail gs' @ r) = None"
    using assms by (intro read_ipv4_no_dot) (simp add: hex_str_no_dot show_tail_no_dot)
  show ?thesis
    using assms Cons stop k read_groups_tail [of gs' k' r]
    by (simp add: read_separator_def nodot hex_group_read show_subslice_Cons)
qed

text \<open>The span that is compressed lies inside the segments and holds only zeros.\<close>

definition zero_run :: "nat list \<Rightarrow> nat \<times> nat \<Rightarrow> bool" where
  "zero_run gs sp = (fst sp + snd sp \<le> length gs \<and> take (snd sp) (drop (fst sp) gs) = replicate (snd sp) 0)"

lemma zero_run_extend:
  assumes "zero_run pre cur" and "snd cur = 0 \<or> fst cur + snd cur = length pre"
  shows "zero_run (pre @ [0]) (if snd cur = 0 then (length pre, 1) else (fst cur, Suc (snd cur)))"
proof (cases "snd cur = 0")
  case False
  then have "drop (fst cur) pre = replicate (snd cur) 0"
    using assms by (auto simp: zero_run_def)
  then show ?thesis using False assms by (simp add: zero_run_def replicate_append_same [symmetric])
qed (simp add: zero_run_def)

lemma zero_run_snoc: "zero_run pre sp \<Longrightarrow> zero_run (pre @ xs) sp"
  by (auto simp: zero_run_def)

lemma zero_span_run:
  "zero_run pre longest \<Longrightarrow> zero_run pre current \<Longrightarrow>
     snd current = 0 \<or> fst current + snd current = length pre \<Longrightarrow>
     zero_run (pre @ gs) (zero_span (length pre) longest current gs)"
proof (induction gs arbitrary: pre longest current)
  case (Cons g gs)
  define cur where "cur = (if snd current = 0 then (length pre, 1) else (fst current, Suc (snd current)))"
  show ?case
  proof (cases "g = 0")
    case True
    have "zero_run (pre @ [0]) cur" "fst cur + snd cur = length (pre @ [0])"
      using zero_run_extend [OF Cons.prems(2,3)] Cons.prems(3) by (auto simp: cur_def)
    moreover have "zero_run (pre @ [0]) longest" using Cons.prems(1) by (rule zero_run_snoc)
    ultimately have "zero_run ((pre @ [0]) @ gs)
        (zero_span (length (pre @ [0])) (if snd cur > snd longest then cur else longest) cur gs)"
      by (intro Cons.IH) auto
    moreover have "zero_span (length pre) longest current (g # gs) =
        zero_span (length (pre @ [0])) (if snd cur > snd longest then cur else longest) cur gs"
      using True by (simp add: cur_def Let_def)
    ultimately show ?thesis using True by simp
  next
    case False
    have "zero_run (pre @ [g]) (0, 0)" by (simp add: zero_run_def)
    then show ?thesis
      using Cons.IH [of "pre @ [g]" longest "(0, 0)"] zero_run_snoc [OF Cons.prems(1)] False by simp
  qed
qed simp

lemma zero_span_split:
  assumes "zero_span 0 (0, 0) (0, 0) gs = (st, len)"
  shows "take st gs @ replicate len 0 @ drop (st + len) gs = gs \<and> st + len \<le> length gs"
proof -
  have "zero_run ([] @ gs) (zero_span (length ([] :: nat list)) (0, 0) (0, 0) gs)"
    by (rule zero_span_run) (simp_all add: zero_run_def)
  then have run: "st + len \<le> length gs" "take len (drop st gs) = replicate len 0"
    using assms by (simp_all add: zero_run_def)
  then show ?thesis by (metis append_take_drop_id drop_drop add.commute)
qed

lemma read_ipv6_compressed:
  assumes "\<forall>g \<in> set (hs @ ts). g < 65536" and "length hs + length ts < 8"
  shows "read_ipv6_addr (show_subslice hs @ ''::'' @ show_subslice ts) =
           Some (hs @ replicate (8 - length hs - length ts) 0 @ ts, [])"
proof -
  have "read_groups 8 True (show_subslice hs @ ''::'' @ show_subslice ts) =
          (hs, False, ''::'' @ show_subslice ts)"
    using assms by (intro read_groups_show) (auto simp: groups_end_def show_subslice_no_dot)
  moreover have "read_groups (8 - (length hs + 1)) True (show_subslice ts) = (ts, False, [])"
    using read_groups_show [of ts "8 - (length hs + 1)" "[]"] assms by (simp add: groups_end_def)
  ultimately show ?thesis using assms(2) by (simp add: read_ipv6_addr_def)
qed

lemma read_ipv6_plain:
  assumes "\<forall>g \<in> set gs. g < 65536" and "length gs = 8"
  shows "read_ipv6_addr (show_subslice gs) = Some (gs, [])"
  using read_groups_show [of gs 8 "[]"] assms by (simp add: read_ipv6_addr_def groups_end_def)

lemma replicate_eqs: "replicate 5 (0 :: nat) = [0, 0, 0, 0, 0]"
  by (simp add: numeral_eq_Suc)

lemma read_ipv6_mapped:
  assumes "length os = 4" and "\<forall>g \<in> set os. g < 256"
  shows "read_ipv6_addr (''::ffff:'' @ show_octets os) =
           Some ([0, 0, 0, 0, 0, 65535, base_val 256 (take 2 os), base_val 256 (drop 2 os)], [])"
proof -
  have none: "read_octet (''ffff:'' @ r) = None" for r
    by (simp add: read_octet_def read_number_stuck to_digit_def)
  have ffff: "read_number 16 4 True 65536 (''ffff:'' @ r) = Some (65535, CHR '':'' # r)" for r
    by (simp add: read_number_def to_digit_def radix_val_def)
  have v4: "read_ipv4_addr (show_octets os) = Some (os, [])"
    using read_ipv4_show [OF assms, of "[]"] by simp
  have "read_groups 8 True (''::ffff:'' @ show_octets os) = ([], False, ''::ffff:'' @ show_octets os)"
    by (rule read_groups_stuck) (simp add: groups_end_def)
  moreover have "read_groups (Suc (Suc (Suc k))) True (''ffff:'' @ show_octets os) =
      ([65535, base_val 256 (take 2 os), base_val 256 (drop 2 os)], True, [])" for k
    using none [of "show_octets os"] ffff [of "show_octets os"] v4
    by (simp add: read_separator_def read_ipv4_addr_def)
  from this [of 4] have "read_groups 7 True (''ffff:'' @ show_octets os) =
      ([65535, base_val 256 (take 2 os), base_val 256 (drop 2 os)], True, [])"
    by (simp del: read_groups.simps)
  ultimately show ?thesis by (simp add: read_ipv6_addr_def replicate_eqs del: read_groups.simps)
qed

lemma base_val_pair_split:
  assumes "x < 65536" and "y < 65536"
  shows "base_val 256 (take 2 (base_digits 256 4 (base_val 65536 [x, y]))) = x \<and>
         base_val 256 (drop 2 (base_digits 256 4 (base_val 65536 [x, y]))) = y"
proof -
  define v where "v = base_val 65536 [x, y]"
  have v: "v = 65536 * x + y" by (simp add: v_def base_val_def)
  have ds: "base_digits 256 4 v = [v div 16777216 mod 256, v div 65536 mod 256, v div 256 mod 256, v mod 256]"
    by (simp add: base_digits_def upt_rec)
  have vx: "v div 65536 = x" using assms v by simp
  have "v div 16777216 = x div 256" using vx div_mult2_eq [of v 65536 256] by simp
  moreover have "x div 256 < 256" using assms by (simp add: less_mult_imp_div_less)
  ultimately have hi: "256 * (v div 16777216 mod 256) + v div 65536 mod 256 = x" using vx by simp
  have "v mod 65536 = y" using assms v by simp
  moreover have "v mod (256 * 256) = 256 * (v div 256 mod 256) + v mod 256" by (rule mod_mult2_eq)
  ultimately have lo: "256 * (v div 256 mod 256) + v mod 256 = y" by simp
  show ?thesis unfolding v_def [symmetric] ds using hi lo by (simp add: base_val_def)
qed

lemma parse_show_segments:
  assumes "length gs = 8" and b: "\<forall>g \<in> set gs. g < 65536"
  shows "read_ipv4_addr (show_segments gs) = None \<and> read_ipv6_addr (show_segments gs) = Some (gs, [])"
proof (cases "take 6 gs = [0, 0, 0, 0, 0, 65535]")
  case True
  have "length (drop 6 gs) = 2" using assms by simp
  then obtain x y where xy: "drop 6 gs = [x, y]" by (metis length_0_conv length_Suc_conv numeral_2_eq_2)
  have gs: "gs = [0, 0, 0, 0, 0, 65535] @ [x, y]"
    using True xy append_take_drop_id [of 6 gs] by simp
  define os where "os = base_digits 256 4 (base_val 65536 [x, y])"
  have "read_ipv6_addr (''::ffff:'' @ show_octets os) = Some (gs, [])"
    using read_ipv6_mapped [of os] base_val_pair_split [of x y] b gs base_digits_bound [of 256]
    by (simp add: os_def gs)
  moreover have "read_ipv4_addr (''::ffff:'' @ show_octets os) = None"
    by (simp add: read_ipv4_addr_def read_octet_def read_number_stuck)
  ultimately show ?thesis using True xy by (simp add: show_segments_def os_def)
next
  case False
  obtain st len where sp: "zero_span 0 (0, 0) (0, 0) gs = (st, len)" by (cases "zero_span 0 (0, 0) (0, 0) gs")
  have split: "take st gs @ replicate len 0 @ drop (st + len) gs = gs" "st + len \<le> 8"
    using zero_span_split [OF sp] assms(1) by auto
  have bnd: "\<forall>g \<in> set (take st gs @ drop (st + len) gs). g < 65536"
    using b by (auto dest: in_set_takeD in_set_dropD)
  have ln: "len > 1 \<Longrightarrow> length (take st gs) + length (drop (st + len) gs) < 8"
    and rep: "8 - length (take st gs) - length (drop (st + len) gs) = len"
    using assms(1) split(2) by auto
  have "read_ipv6_addr (show_segments gs) = Some (gs, [])"
  proof (cases "len > 1")
    case True
    then show ?thesis
      using False sp read_ipv6_compressed [OF bnd ln] rep split(1) by (simp add: show_segments_def)
  next
    case short: False
    then show ?thesis using False sp read_ipv6_plain [OF b assms(1)] by (simp add: show_segments_def)
  qed
  moreover have "CHR ''.'' \<notin> set (show_segments gs)"
    using False sp by (simp add: show_segments_def show_subslice_no_dot)
  ultimately show ?thesis by (simp add: read_ipv4_no_dot)
qed

lemma parse_ip_to_string: "parse_ip (ip_to_string a) = Some a"
proof (cases a)
  case (V4 w)
  then show ?thesis by (simp add: parse_ip_v4)
next
  case (V6 w)
  have "unat w < 65536 ^ 8" using unsigned_less [of w] by simp
  then have "base_val 65536 (segments w) = unat w" by (simp add: segments_def base_val_base_digits)
  moreover have "\<forall>g \<in> set (segments w). g < 65536" "length (segments w) = 8"
    using base_digits_bound [of 65536] by (auto simp: segments_def)
  ultimately show ?thesis
    using V6 parse_show_segments [of "segments w"] by (simp add: parse_ip_def ip_to_string_def)
qed

lemma ip_to_string_inject [simp]: "ip_to_string a = ip_to_string b \<longleftrightarrow> a = b"
  by (metis option.inject parse_ip_to_string)

lemma canonical_unique:
  "parse_ip s = Some a \<Longrightarrow> ip_to_string a = s \<Longrightarrow> parse_ip t = Some a \<Longrightarrow> ip_to_string a = t \<Longrightarrow> s = t"
  by simp

end
