(* ===== verification/Store_Api.thy ===== *)
theory Store_Api
  imports Store_List
begin

text \<open>
  The \<^verbatim>\<open>Store\<close> trait of \<^verbatim>\<open>crates/store/src/lib.rs\<close> as its generic clients see it: a record
  of operations over an opaque state, as the Rust code takes a type parameter \<^verbatim>\<open>S: Store\<close>. The
  locale \<open>object_store\<close> is the contract the clients rely on (what a read, a create-only put, an
  unconditional delete and a full listing do to the objects the state denotes); the tables of the
  SQLite store implement it.
\<close>

subsection \<open>The trait\<close>

record ('s, 'b) store_impl =
  st_get :: "'s \<Rightarrow> string \<Rightarrow> store_error + 'b store_object option"
  st_list :: "'s \<Rightarrow> string \<Rightarrow> list_options \<Rightarrow> store_error + 'b list_response"
  st_put :: "'s \<Rightarrow> string \<Rightarrow> 'b \<Rightarrow> rev option \<Rightarrow> 's \<times> (store_error + rev)"
  st_create :: "'s \<Rightarrow> string option \<Rightarrow> string \<Rightarrow> 'b \<Rightarrow> 's \<times> (create_error + rev)"
  st_delete :: "'s \<Rightarrow> string \<Rightarrow> rev option \<Rightarrow> 's \<times> (store_error + rev \<times> 'b)"

definition list_default :: list_options where
  "list_default = \<lparr>lo_selector = None, lo_limit = None, lo_continue = None\<rparr>"

text \<open>The SQLite tables as an implementation; a failed transaction leaves the tables as they were.\<close>

definition commit_or_keep :: "'s \<Rightarrow> 'e + ('s \<times> 'a) \<Rightarrow> ('a \<Rightarrow> 'r) \<Rightarrow> 's \<times> ('e + 'r)" where
  "commit_or_keep s res out = (case res of Inl e \<Rightarrow> (s, Inl e) | Inr (s', a) \<Rightarrow> (s', Inr (out a)))"

definition sqlite_tables :: "'b codec \<Rightarrow> ('b db, 'b) store_impl" where
  "sqlite_tables c =
     \<lparr>st_get = (\<lambda>d k. Inr (get_sync d k)),
      st_list = (\<lambda>d p opts.
        case list_sync (Suc (length (objects d))) c d p opts of Some r \<Rightarrow> r | None \<Rightarrow> Inl Join),
      st_put = (\<lambda>d k v e. commit_or_keep d (put_sync c d k v e) pr_revision),
      st_create = (\<lambda>d ns k v. commit_or_keep d (create_if_namespace_active_sync c d ns k v) fst),
      st_delete = (\<lambda>d k e. commit_or_keep d (delete_sync d k e) (\<lambda>(r, v, ns). (r, v)))\<rparr>"

subsection \<open>The contract\<close>

text \<open>
  A document that can be stored: an object whose \<^verbatim>\<open>metadata\<close>, if there is one, is an object too.
  What the store hands back for it agrees with it outside \<^verbatim>\<open>metadata\<close>.
\<close>

definition storable :: "json \<Rightarrow> bool" where
  "storable j =
     (json_wf j \<and> (case j of
        JObj m \<Rightarrow> (case map_of m ''metadata'' of None \<Rightarrow> True | Some (JObj _) \<Rightarrow> True | Some JNull \<Rightarrow> True | _ \<Rightarrow> False)
      | _ \<Rightarrow> False))"

definition same_outside_metadata :: "json \<Rightarrow> json \<Rightarrow> bool" where
  "same_outside_metadata j j' = (\<forall>k. k \<noteq> ''metadata'' \<longrightarrow> json_get j' k = json_get j k)"

definition stores_doc :: "'b codec \<Rightarrow> string \<Rightarrow> json \<Rightarrow> 'b store_object \<Rightarrow> bool" where
  "stores_doc c k j ob =
     (so_key ob = k \<and> (\<exists>j'. from_slice c (so_value ob) = Some j' \<and> same_outside_metadata j j'))"

locale object_store =
  fixes c :: "'b codec"
    and st :: "('s, 'b) store_impl"
    and inv :: "'s \<Rightarrow> bool"
    and lookup :: "'s \<Rightarrow> string \<Rightarrow> 'b store_object option"
  assumes get_law: "inv s \<Longrightarrow> st_get st s k = Inr (lookup s k)"
    and put_taken: "inv s \<Longrightarrow> lookup s k = Some ob \<Longrightarrow> st_put st s k v (Some 0) = (s, Inl (AlreadyExists k))"
    and put_free:
      "inv s \<Longrightarrow> lookup s k = None \<Longrightarrow> storable j \<Longrightarrow>
         \<exists>s' r ob. st_put st s k (to_vec c j) (Some 0) = (s', Inr r) \<and> inv s' \<and>
           lookup s' = (lookup s)(k \<mapsto> ob) \<and> stores_doc c k j ob"
    and delete_absent: "inv s \<Longrightarrow> lookup s k = None \<Longrightarrow> st_delete st s k None = (s, Inl (NotFound k))"
    and delete_present:
      "inv s \<Longrightarrow> lookup s k = Some ob \<Longrightarrow>
         \<exists>s' r. st_delete st s k None = (s', Inr (r, so_value ob)) \<and> inv s' \<and> lookup s' = (lookup s)(k := None)"
    and list_law:
      "inv s \<Longrightarrow> listable_prefix p \<Longrightarrow>
         \<exists>resp. st_list st s p list_default = Inr resp \<and>
           set (lr_items resp) = {ob. \<exists>k. lookup s k = Some ob \<and> starts_with k p} \<and>
           sorted_wrt (<) (map so_key (lr_items resp))"
    and lookup_key: "inv s \<Longrightarrow> lookup s k = Some ob \<Longrightarrow> so_key ob = k"
begin

lemma put_create_cases:
  assumes "inv s" and "storable j"
  obtains (taken) ob where "lookup s k = Some ob" "st_put st s k (to_vec c j) (Some 0) = (s, Inl (AlreadyExists k))"
    | (free) s' r ob where "lookup s k = None" "st_put st s k (to_vec c j) (Some 0) = (s', Inr r)" "inv s'"
        "lookup s' = (lookup s)(k \<mapsto> ob)" "stores_doc c k j ob"
  using assms put_taken [of s k] put_free [of s k j] by (cases "lookup s k") blast+

lemma delete_effect:
  assumes "inv s"
  shows "inv (fst (st_delete st s k None)) \<and> lookup (fst (st_delete st s k None)) = (lookup s)(k := None)"
proof (cases "lookup s k")
  case None
  then show ?thesis using assms delete_absent [OF assms None] by (auto simp: fun_eq_iff)
next
  case (Some ob)
  then show ?thesis using delete_present [OF assms Some] by auto
qed

end

subsection \<open>The tables implement the contract\<close>

definition tables_ok :: "'b codec \<Rightarrow> 'b db \<Rightarrow> bool" where
  "tables_ok c d = (codec_ok c \<and> db_inv c d)"

lemma stamp_storable:
  assumes "codec_ok c" and "storable j"
  shows "\<exists>j' ns name. stamp_resource_version c (to_vec c j) r = Inr (to_vec c j', ns, name) \<and>
    json_wf j' \<and> same_outside_metadata j j'"
proof -
  obtain m where j: "j = JObj m" and wf: "json_wf j"
    and md: "map_of m ''metadata'' = None \<or> map_of m ''metadata'' = Some JNull \<or> (\<exists>mm. map_of m ''metadata'' = Some (JObj mm))"
    using assms(2) by (auto simp: storable_def split: json.splits option.splits)
  from md obtain j' where st: "stamp_doc j r = Some j'"
    by (auto simp: stamp_doc_def json_index_mut_def j)
  have "same_outside_metadata j j'"
    using json_index_mut_get [OF st [unfolded stamp_doc_def]] by (auto simp: same_outside_metadata_def)
  moreover have "from_slice c (to_vec c j) = Some j" using assms(1) wf by (simp add: codec_ok_def)
  ultimately show ?thesis
    using st stamp_doc_wf [OF st wf] by (intro exI [of _ j']) (simp add: stamp_resource_version_def)
qed

lemma tables_ok_step: "tables_ok c d \<Longrightarrow> db_step c d d' \<Longrightarrow> tables_ok c d'"
  by (auto simp: tables_ok_def intro: db_step_inv)

lemma get_sync_write_row:
  "get_sync (write_row d k v r ns nm) = (get_sync d)(k \<mapsto> \<lparr>so_key = k, so_value = v, so_revision = r\<rparr>)"
  by (auto simp: get_sync_def fun_eq_iff)

lemma get_sync_delete_row: "get_sync (delete_row d k r) = (get_sync d)(k := None)"
  by (auto simp: get_sync_def fun_eq_iff)

lemma sqlite_put_free:
  assumes "tables_ok c d" and "get_sync d k = None" and "storable j"
  shows "\<exists>d' r ob. st_put (sqlite_tables c) d k (to_vec c j) (Some 0) = (d', Inr r) \<and> tables_ok c d' \<and>
    get_sync d' = (get_sync d)(k \<mapsto> ob) \<and> stores_doc c k j ob"
proof -
  have cok: "codec_ok c" using assms(1) by (simp add: tables_ok_def)
  have row: "row_at d k = None" using assms(2) by (simp add: get_sync_def)
  obtain j' ns nm where st: "stamp_resource_version c (to_vec c j) (Suc (meta_revision d)) = Inr (to_vec c j', ns, nm)"
    and j': "json_wf j'" "same_outside_metadata j j'"
    using stamp_storable [OF cok assms(3)] by blast
  let ?d = "write_row d k (to_vec c j') (Suc (meta_revision d)) ns nm"
  have put: "\<exists>res. put_sync c d k (to_vec c j) (Some 0) = Inr (?d, res)"
    using row st by (simp add: put_sync_def is_noop_write_def)
  then have "tables_ok c ?d" using assms(1) by (blast intro: tables_ok_step step_put)
  moreover have "stores_doc c k j \<lparr>so_key = k, so_value = to_vec c j', so_revision = Suc (meta_revision d)\<rparr>"
    using j' cok by (simp add: stores_doc_def codec_ok_def)
  ultimately show ?thesis
    using put by (auto simp: sqlite_tables_def commit_or_keep_def get_sync_write_row)
qed

lemma sqlite_list_all:
  assumes "tables_ok c d" and "listable_prefix p"
  shows "\<exists>resp. st_list (sqlite_tables c) d p list_default = Inr resp \<and>
    lr_items resp = map to_object (filter (\<lambda>e. starts_with (fst e) p) (objects d))"
proof -
  obtain upper where up: "prefix_upper_bound p = Some upper" using assms(2) by (auto simp: listable_prefix_def)
  have "filter (\<lambda>e. in_key_range p upper (fst e)) (objects d) = filter (\<lambda>e. starts_with (fst e) p) (objects d)"
    by (simp add: listable_prefix_range [OF assms(2) up])
  then show ?thesis
    by (simp add: sqlite_tables_def list_sync_def up list_page_def list_default_def list_unfiltered_def
        clamp_list_limit_def query_rows_def limit_rows_def after_cursor_def)
qed

lemma get_sync_objects:
  assumes "tables_ok c d"
  shows "get_sync d k = Some ob \<longleftrightarrow> (\<exists>r. (k, r) \<in> set (objects d) \<and> ob = to_object (k, r))"
  using assms by (auto simp: tables_ok_def db_inv_def get_sync_def row_at_def to_object_def bt_wf_map_of_iff)

interpretation sqlite: object_store c "sqlite_tables c" "tables_ok c" get_sync for c :: "'b codec"
proof (unfold_locales, goal_cases)
  case (1 s k)
  show ?case by (simp add: sqlite_tables_def)
next
  case (2 s k ob v)
  then show ?case by (auto simp: sqlite_tables_def commit_or_keep_def put_sync_def get_sync_def)
next
  case (3 s k j)
  then show ?case by (rule sqlite_put_free)
next
  case (4 s k)
  then show ?case by (simp add: sqlite_tables_def commit_or_keep_def delete_sync_def get_sync_def)
next
  case (5 s k ob)
  then obtain r where r: "row_at s k = Some r" "so_value ob = row_value r" by (auto simp: get_sync_def)
  have "delete_sync s k None = Inr (delete_row s k (Suc (meta_revision s)), (Suc (meta_revision s), row_value r, row_ns r))"
    using r by (simp add: delete_sync_def)
  then show ?case
    using 5 r by (auto simp: sqlite_tables_def commit_or_keep_def get_sync_delete_row intro: tables_ok_step step_delete)
next
  case (6 s p)
  then obtain resp where "st_list (sqlite_tables c) s p list_default = Inr resp"
    and items: "lr_items resp = map to_object (filter (\<lambda>e. starts_with (fst e) p) (objects s))"
    using sqlite_list_all by blast
  moreover have "sorted_wrt (<) (map so_key (lr_items resp))"
    using 6 by (simp add: items tables_ok_def db_inv_def bt_wf_def sorted_wrt_map to_object_def sorted_wrt_filter)
  moreover have "set (lr_items resp) = {ob. \<exists>k. get_sync s k = Some ob \<and> starts_with k p}"
    unfolding get_sync_objects [OF 6(1)] by (force simp: items)
  ultimately show ?case by blast
next
  case (7 s k ob)
  then show ?case by (auto simp: get_sync_def)
qed

end
