(* ===== verification/Service_Ip.thy ===== *)
theory Service_Ip
  imports Net_Addr Store_Api
begin

text \<open>
  ClusterIP ranges and allocation of \<^verbatim>\<open>crates/apiserver/src/state.rs\<close>: \<^verbatim>\<open>IpFamily\<close>,
  \<^verbatim>\<open>ServiceIpAllocator\<close> (a CIDR as base and size), \<^verbatim>\<open>parse_service_cluster_ip_ranges\<close>, and
  \<^verbatim>\<open>allocate_service_ip\<close> / \<^verbatim>\<open>release_service_ip\<close> over the store's create-only put. Addresses
  and sizes are machine words; the random start of a probe is a parameter.
\<close>

subsection \<open>Families and ranges\<close>

datatype ip_family = FamV4 | FamV6

fun family_of :: "ip_addr \<Rightarrow> ip_family" where
  "family_of (V4 _) = FamV4"
| "family_of (V6 _) = FamV6"

fun family_str :: "ip_family \<Rightarrow> string" where
  "family_str FamV4 = ''IPv4''"
| "family_str FamV6 = ''IPv6''"

definition parse_ip_family :: "string \<Rightarrow> ip_family option" where
  "parse_ip_family s = (if s = ''IPv4'' then Some FamV4 else if s = ''IPv6'' then Some FamV6 else None)"

fun other_family :: "ip_family \<Rightarrow> ip_family" where
  "other_family FamV4 = FamV6"
| "other_family FamV6 = FamV4"

record service_ip_allocator =
  al_base :: ip_addr
  al_size :: u128

datatype cidr_error =
    NoSlash
  | BadAddress
  | BadPrefixLength
  | PrefixTooLarge nat nat
  | PrefixTooShort nat

text \<open>Rust's \<^verbatim>\<open>str::parse::<u32>\<close>.\<close>

definition parse_u32 :: "string \<Rightarrow> nat option" where
  "parse_u32 s = (case parse_u64 s of Some n \<Rightarrow> if n < 2 ^ 32 then Some n else None | None \<Rightarrow> None)"

definition addr_bits :: "ip_addr \<Rightarrow> nat" where
  "addr_bits a = (case a of V4 _ \<Rightarrow> 32 | V6 _ \<Rightarrow> 128)"

definition range_of :: "ip_addr \<Rightarrow> nat \<Rightarrow> service_ip_allocator" where
  "range_of addr host_bits =
     (let size = push_bit host_bits (1 :: u128) in
      \<lparr>al_base = (case addr of
          V4 a \<Rightarrow> V4 (a AND NOT (ucast (size - 1)))
        | V6 a \<Rightarrow> V6 (a AND NOT (size - 1))),
       al_size = size\<rparr>)"

definition from_cidr :: "string \<Rightarrow> cidr_error + service_ip_allocator" where
  "from_cidr cidr =
     (case split_once CHR ''/'' cidr of
        None \<Rightarrow> Inl NoSlash
      | Some (addr_str, prefix_str) \<Rightarrow>
          (case parse_ip addr_str of
             None \<Rightarrow> Inl BadAddress
           | Some addr \<Rightarrow>
               (case parse_u32 prefix_str of
                  None \<Rightarrow> Inl BadPrefixLength
                | Some p \<Rightarrow>
                    (let bits = addr_bits addr in
                     if p > bits - 2 then Inl (PrefixTooLarge p (bits - 2))
                     else if family_of addr = FamV6 \<and> p < 64 then Inl (PrefixTooShort p)
                     else Inr (range_of addr (bits - p))))))"

definition alloc_family :: "service_ip_allocator \<Rightarrow> ip_family" where
  "alloc_family al = family_of (al_base al)"

definition trailing_zeros :: "u128 \<Rightarrow> nat" where
  "trailing_zeros w = length (takeWhile (\<lambda>i. \<not> bit w i) [0..<128])"

definition prefix_len :: "service_ip_allocator \<Rightarrow> nat" where
  "prefix_len al = addr_bits (al_base al) - trailing_zeros (al_size al)"

definition ip_at :: "service_ip_allocator \<Rightarrow> u128 \<Rightarrow> ip_addr" where
  "ip_at al off = (case al_base al of V4 b \<Rightarrow> V4 (b + ucast off) | V6 b \<Rightarrow> V6 (b + off))"

text \<open>\<^verbatim>\<open>checked_sub\<close> fails below the base; the two families never mix.\<close>

definition offset_of :: "service_ip_allocator \<Rightarrow> ip_addr \<Rightarrow> u128 option" where
  "offset_of al ip =
     (let off = (case (al_base al, ip) of
          (V4 b, V4 a) \<Rightarrow> if a < b then None else Some (ucast (a - b))
        | (V6 b, V6 a) \<Rightarrow> if a < b then None else Some (a - b)
        | _ \<Rightarrow> None)
      in case off of Some o' \<Rightarrow> if o' < al_size al then Some o' else None | None \<Rightarrow> None)"

definition last_offset :: "service_ip_allocator \<Rightarrow> u128" where
  "last_offset al = (if alloc_family al = FamV4 then al_size al - 2 else al_size al - 1)"

definition contains_host :: "service_ip_allocator \<Rightarrow> ip_addr \<Rightarrow> bool" where
  "contains_host al ip = (case offset_of al ip of Some o' \<Rightarrow> 1 \<le> o' \<and> o' \<le> last_offset al | None \<Rightarrow> False)"

definition nth_host :: "service_ip_allocator \<Rightarrow> u32 \<Rightarrow> ip_addr option" where
  "nth_host al n =
     (if n = 0 \<or> ucast n > last_offset al then None else Some (ip_at al (ucast n)))"

datatype range_error =
    TooManyRanges
  | PrimaryRange cidr_error
  | SecondaryRange cidr_error
  | SameFamily

definition is_whitespace :: "char \<Rightarrow> bool" where
  "is_whitespace ch = (ch = CHR '' '' \<or> (9 \<le> (of_char ch :: nat) \<and> (of_char ch :: nat) \<le> 13))"

definition trim :: "string \<Rightarrow> string" where
  "trim s = rev (dropWhile is_whitespace (rev (dropWhile is_whitespace s)))"

definition parse_service_cluster_ip_ranges ::
    "string \<Rightarrow> range_error + service_ip_allocator \<times> service_ip_allocator option" where
  "parse_service_cluster_ip_ranges spec =
     (let entries = map trim (split_char CHR '','' spec) in
      if length entries > 2 then Inl TooManyRanges
      else
        (case from_cidr (hd entries) of
           Inl e \<Rightarrow> Inl (PrimaryRange e)
         | Inr primary \<Rightarrow>
             (case tl entries of
                [] \<Rightarrow> Inr (primary, None)
              | second # _ \<Rightarrow>
                  (case from_cidr second of
                     Inl e \<Rightarrow> Inl (SecondaryRange e)
                   | Inr secondary \<Rightarrow>
                       if alloc_family primary = alloc_family secondary then Inl SameFamily
                       else Inr (primary, Some secondary)))))"

subsection \<open>Server state\<close>

record ip_config =
  cf_primary :: "service_ip_allocator option"
  cf_secondary :: "service_ip_allocator option"

definition service_ip_allocators :: "ip_config \<Rightarrow> service_ip_allocator list" where
  "service_ip_allocators cf =
     (case cf_primary cf of Some a \<Rightarrow> [a] | None \<Rightarrow> []) @ (case cf_secondary cf of Some a \<Rightarrow> [a] | None \<Rightarrow> [])"

definition service_ip_allocator_for :: "ip_config \<Rightarrow> ip_family \<Rightarrow> service_ip_allocator option" where
  "service_ip_allocator_for cf fam = find (\<lambda>a. alloc_family a = fam) (service_ip_allocators cf)"

definition service_ip_families :: "ip_config \<Rightarrow> ip_family list" where
  "service_ip_families cf =
     (let fams = map alloc_family (service_ip_allocators cf) in if fams = [] then [FamV4] else fams)"

subsection \<open>Allocation\<close>

datatype svc_error =
    IpNotInRange string
  | IpAllocated string
  | PortNotInRange string int
  | PortAllocated string int
  | IpRangeFull
  | PortRangeFull
  | StoreFailed store_error
  | FamilyRejected
  | Panicked

definition service_ip_prefix :: string where
  "service_ip_prefix = ''/registry/service-ips/''"

definition ip_key :: "string \<Rightarrow> string" where
  "ip_key ip = service_ip_prefix @ ip"

definition ip_sentinel_doc :: json where
  "ip_sentinel_doc = JObj [(''kind'', JStr ''ServiceIPAllocation'')]"

definition skip_offset :: "service_ip_allocator \<Rightarrow> bool \<Rightarrow> u128 \<Rightarrow> bool" where
  "skip_offset al is_kubernetes off =
     (off = 0 \<or> (off = 1 \<and> \<not> is_kubernetes) \<or> off > last_offset al)"

text \<open>
  The probe: \<open>left\<close> counts the offsets not tried yet, so the loop ends when \<^verbatim>\<open>tried\<close> reaches
  the size of the range.
\<close>

fun probe_service_ip ::
    "'b codec \<Rightarrow> ('s, 'b) store_impl \<Rightarrow> service_ip_allocator \<Rightarrow> bool \<Rightarrow> nat \<Rightarrow> u128 \<Rightarrow> 's \<Rightarrow>
       's \<times> (svc_error + ip_addr)" where
  "probe_service_ip c st al k8s 0 off s = (s, Inl IpRangeFull)"
| "probe_service_ip c st al k8s (Suc left) off s =
     (if skip_offset al k8s off then probe_service_ip c st al k8s left ((off + 1) mod al_size al) s
      else
        (let candidate = ip_at al off in
         case st_put st s (ip_key (ip_to_string candidate)) (to_vec c ip_sentinel_doc) (Some 0) of
           (s', Inr _) \<Rightarrow> (s', Inr candidate)
         | (s', Inl e) \<Rightarrow>
             (case e of
                AlreadyExists _ \<Rightarrow> probe_service_ip c st al k8s left ((off + 1) mod al_size al) s'
              | _ \<Rightarrow> (s', Inl (StoreFailed e)))))"

definition allocate_service_ip ::
    "'b codec \<Rightarrow> ('s, 'b) store_impl \<Rightarrow> ip_config \<Rightarrow> u128 \<Rightarrow> ip_family \<Rightarrow> bool \<Rightarrow> 's \<Rightarrow>
       's \<times> (svc_error + ip_addr option)" where
  "allocate_service_ip c st cf random fam k8s s =
     (case service_ip_allocator_for cf fam of
        None \<Rightarrow> (s, Inr None)
      | Some al \<Rightarrow>
          (case probe_service_ip c st al k8s (unat (al_size al)) (random mod al_size al) s of
             (s', Inl e) \<Rightarrow> (s', Inl e)
           | (s', Inr ip) \<Rightarrow> (s', Inr (Some ip))))"

definition release_service_ip :: "('s, 'b) store_impl \<Rightarrow> ip_config \<Rightarrow> string \<Rightarrow> 's \<Rightarrow> 's" where
  "release_service_ip st cf cluster_ip s =
     (if cluster_ip = [] \<or> cluster_ip = ''None'' \<or> cf_primary cf = None then s
      else fst (st_delete st s (ip_key cluster_ip) None))"

subsection \<open>A CIDR is an aligned block of a power of two\<close>

definition block_bits :: "service_ip_allocator \<Rightarrow> nat \<Rightarrow> bool" where
  "block_bits al h =
     (al_size al = push_bit h 1 \<and> 2 \<le> h \<and>
      (case al_base al of
         V4 b \<Rightarrow> h \<le> 32 \<and> take_bit h b = 0
       | V6 b \<Rightarrow> h \<le> 64 \<and> take_bit h b = 0))"

lemma low_bits_cleared: "take_bit h (w AND NOT (mask h)) = (0 :: 'a::len word)"
  by (rule bit_eqI) (auto simp: bit_simps)

lemma size_mask: "push_bit h (1 :: u128) - 1 = mask h"
  by (simp add: mask_eq_exp_minus_1 push_bit_of_1)

lemma ucast_mask: "h \<le> 32 \<Longrightarrow> ucast (mask h :: u128) = (mask h :: u32)"
  by (rule bit_eqI) (auto simp: bit_simps)

lemma range_of_block:
  assumes "2 \<le> h" and "h \<le> (case a of V4 _ \<Rightarrow> 32 | V6 _ \<Rightarrow> 64)"
  shows "block_bits (range_of a h) h"
proof (cases a)
  case (V4 w)
  then show ?thesis
    using assms low_bits_cleared [of h w]
    by (simp add: block_bits_def range_of_def Let_def size_mask [simplified] ucast_mask del: take_bit_and)
next
  case (V6 w)
  then show ?thesis
    using assms low_bits_cleared [of h w]
    by (simp add: block_bits_def range_of_def Let_def size_mask [simplified] del: take_bit_and)
qed

lemma from_cidr_block:
  assumes "from_cidr s = Inr al"
  shows "\<exists>h. block_bits al h"
proof -
  obtain addr p where al: "al = range_of addr (addr_bits addr - p)"
    and p: "p \<le> addr_bits addr - 2" "family_of addr = FamV6 \<longrightarrow> 64 \<le> p"
    using assms by (auto simp: from_cidr_def Let_def split: option.splits if_splits)
  then show ?thesis
    by (intro exI [of _ "addr_bits addr - p"]) (cases addr; auto simp: addr_bits_def intro!: range_of_block)
qed

lemma unat_two_power: "h < LENGTH('a) \<Longrightarrow> unat (2 ^ h :: 'a::len word) = 2 ^ h"
proof -
  assume h: "h < LENGTH('a)"
  have "unat (of_nat (2 ^ h) :: 'a word) = take_bit LENGTH('a) (2 ^ h)"
    by (simp only: unsigned_of_nat of_nat_id)
  also have "\<dots> = 2 ^ h" using h by (simp add: take_bit_nat_eq_self)
  finally show ?thesis by simp
qed

lemma unat_size: "block_bits al h \<Longrightarrow> unat (al_size al) = 2 ^ h"
  by (auto simp: block_bits_def push_bit_of_1 unat_two_power split: ip_addr.splits)

text \<open>An aligned base leaves room for every offset: the address computation does not wrap.\<close>

lemma aligned_room:
  assumes "take_bit h (b :: 'a::len word) = 0" and "h \<le> LENGTH('a)" and "n < 2 ^ h"
  shows "unat b + n < 2 ^ LENGTH('a)"
proof -
  have "unat b mod 2 ^ h = 0"
    using assms(1) unsigned_take_bit_eq [of h b] by (simp add: take_bit_eq_mod)
  then obtain q where q: "unat b = 2 ^ h * q" by (auto simp: mod_eq_0_iff_dvd)
  have "unat b < 2 ^ LENGTH('a)" by (rule unsigned_less)
  then have "2 ^ h * q < 2 ^ h * 2 ^ (LENGTH('a) - h)"
    using assms(2) by (simp add: q power_add [symmetric])
  then have "q + 1 \<le> 2 ^ (LENGTH('a) - h)" by simp
  then have "2 ^ h * (q + 1) \<le> 2 ^ h * 2 ^ (LENGTH('a) - h)" by (rule mult_le_mono2)
  also have "\<dots> = (2 ^ LENGTH('a) :: nat)" using assms(2) by (simp add: power_add [symmetric])
  finally have "2 ^ h * (q + 1) \<le> (2 ^ LENGTH('a) :: nat)" .
  then show ?thesis using q assms(3) by simp
qed

lemma plus_no_wrap: "unat b + unat o' < 2 ^ LENGTH('a) \<Longrightarrow> unat (b + o') = unat (b :: 'a::len word) + unat o'"
  by (simp add: unat_word_ariths take_bit_eq_mod)

lemma unat_ucast_small: "unat (w :: 'a::len word) < 2 ^ LENGTH('b) \<Longrightarrow> unat (ucast w :: 'b::len word) = unat w"
  by (simp add: unsigned_ucast_eq take_bit_nat_eq_self)

text \<open>Offsets and addresses correspond one to one.\<close>

lemma ip_at_offset:
  assumes "block_bits al h" and "o' < al_size al"
  shows "offset_of al (ip_at al o') = Some o' \<and> family_of (ip_at al o') = alloc_family al \<and>
    (case (al_base al, ip_at al o') of
       (V4 b, V4 a) \<Rightarrow> unat a = unat b + unat o'
     | (V6 b, V6 a) \<Rightarrow> unat a = unat b + unat o'
     | _ \<Rightarrow> False)"
proof -
  have small: "unat o' < 2 ^ h" using assms unat_size by (simp add: word_less_nat_alt)
  show ?thesis
  proof (cases "al_base al")
    case (V4 b)
    then have b: "take_bit h b = 0" "h \<le> 32" using assms(1) by (auto simp: block_bits_def)
    have room: "unat b + unat o' < 2 ^ 32" using aligned_room [OF b(1), of "unat o'"] b(2) small by simp
    then have u: "unat (ucast o' :: u32) = unat o'" by (intro unat_ucast_small) simp
    then have sum: "unat (b + ucast o') = unat b + unat o'" using room plus_no_wrap [of b "ucast o'"] by simp
    have "\<not> b + ucast o' < b" using sum by (simp add: word_less_nat_alt)
    moreover have "ucast (ucast o' :: u32) = o'"
      unfolding word_unat_eq_iff using unat_ucast_small [of "ucast o' :: u32", where ?'b = 128] u room
      by simp
    then have "ucast (b + ucast o' - b) = o'" by (simp only: add_diff_cancel_left')
    ultimately show ?thesis
      using V4 assms(2) sum by (simp add: ip_at_def offset_of_def alloc_family_def Let_def)
  next
    case (V6 b)
    then have b: "take_bit h b = 0" "h \<le> 64" using assms(1) by (auto simp: block_bits_def)
    have room: "unat b + unat o' < 2 ^ 128" using aligned_room [OF b(1), of "unat o'"] b(2) small by simp
    then have sum: "unat (b + o') = unat b + unat o'" using plus_no_wrap [of b o'] by simp
    then have "\<not> b + o' < b" by (simp add: word_less_nat_alt)
    then show ?thesis using V6 assms(2) sum by (simp add: ip_at_def offset_of_def alloc_family_def Let_def)
  qed
qed
lemma offset_ip_at:
  assumes "offset_of al a = Some o'"
  shows "o' < al_size al \<and> ip_at al o' = a"
proof -
  have id: "ucast (ucast (w :: u32) :: u128) = w" for w
    by (rule bit_eqI) (auto simp: bit_simps)
  show ?thesis
    using assms by (auto simp: offset_of_def ip_at_def Let_def id split: ip_addr.splits option.splits if_splits)
qed

lemma trailing_zeros_power:
  assumes "h < 128"
  shows "trailing_zeros (2 ^ h) = h"
proof -
  have split: "[0..<128] = [0..<h] @ h # [Suc h..<128]"
    using assms upt_add_eq_append [of 0 h "128 - h"] upt_conv_Cons [of h 128] by simp
  have "takeWhile (\<lambda>i. \<not> bit (2 ^ h :: u128) i) [0..<128] = [0..<h]"
    unfolding split using assms by (auto simp: bit_simps takeWhile_append intro: takeWhile_eq_all_conv [THEN iffD2])
  then show ?thesis by (simp add: trailing_zeros_def)
qed

lemma prefix_len_block: "block_bits al h \<Longrightarrow> prefix_len al = addr_bits (al_base al) - h"
  by (auto simp: block_bits_def prefix_len_def trailing_zeros_power push_bit_of_1 split: ip_addr.splits)

lemma size_bounds: "block_bits al h \<Longrightarrow> 4 \<le> unat (al_size al) \<and> unat (al_size al) \<le> 2 ^ 64"
proof -
  assume b: "block_bits al h"
  then have "2 \<le> h" "h \<le> 64" by (auto simp: block_bits_def split: ip_addr.splits)
  then have "(2 :: nat) ^ 2 \<le> 2 ^ h" "(2 :: nat) ^ h \<le> 2 ^ 64" by (simp_all only: power_increasing)
  then show ?thesis using unat_size [OF b] by simp
qed

lemma unat_last_offset:
  "block_bits al h \<Longrightarrow> unat (last_offset al) = (if alloc_family al = FamV4 then 2 ^ h - 2 else 2 ^ h - 1)"
proof -
  assume b: "block_bits al h"
  have "2 \<le> al_size al" "1 \<le> al_size al"
    using size_bounds [OF b] by (auto simp: word_le_nat_alt)
  then show ?thesis using unat_size [OF b] by (simp add: last_offset_def unat_sub)
qed

subsection \<open>The probe\<close>

definition host_key :: "service_ip_allocator \<Rightarrow> u128 \<Rightarrow> string" where
  "host_key al off = ip_key (ip_to_string (ip_at al off))"

lemma unat_next_offset:
  assumes "block_bits al h" and "off < al_size al"
  shows "unat ((off + 1) mod al_size al) = (unat off + 1) mod 2 ^ h" "(off + 1) mod al_size al < al_size al"
proof -
  have "unat off + 1 < 2 ^ 128"
    using assms(2) size_bounds [OF assms(1)] by (simp add: word_less_nat_alt)
  then have "unat (off + 1) = unat off + 1" using plus_no_wrap [of off 1] by simp
  then show *: "unat ((off + 1) mod al_size al) = (unat off + 1) mod 2 ^ h"
    by (simp add: unat_mod unat_size [OF assms(1)])
  show "(off + 1) mod al_size al < al_size al"
    using unat_size [OF assms(1)] by (simp add: word_less_nat_alt *)
qed

lemma ip_sentinel_storable: "storable ip_sentinel_doc"
  by (simp add: storable_def ip_sentinel_doc_def bt_wf_def)

context object_store
begin

lemma probe_spec:
  assumes "block_bits al h" and "inv s" and "off < al_size al"
    and "probe_service_ip c st al k8s left off s = (s', res)"
  shows "case res of
      Inr ip \<Rightarrow> \<exists>o' ob. o' < al_size al \<and> \<not> skip_offset al k8s o' \<and> ip = ip_at al o' \<and> inv s' \<and>
        lookup s (host_key al o') = None \<and> lookup s' = (lookup s)(host_key al o' \<mapsto> ob) \<and>
        stores_doc c (host_key al o') ip_sentinel_doc ob
    | Inl e \<Rightarrow> e = IpRangeFull \<and> s' = s \<and>
        (\<forall>o'. (\<exists>i < left. unat o' = (unat off + i) mod 2 ^ h) \<longrightarrow>
           skip_offset al k8s o' \<or> lookup s (host_key al o') \<noteq> None)"
  using assms(3,4)
proof (induction left arbitrary: off)
  case 0
  then show ?case by auto
next
  case (Suc left)
  note next_off = unat_next_offset [OF assms(1) Suc.prems(1)]
  have lt: "unat off < 2 ^ h" using Suc.prems(1) unat_size [OF assms(1)] by (simp add: word_less_nat_alt)
  have again: ?case
    if blocked: "skip_offset al k8s off \<or> lookup s (host_key al off) \<noteq> None"
      and rest: "probe_service_ip c st al k8s left ((off + 1) mod al_size al) s = (s', res)"
  proof (cases res)
    case (Inr ip)
    then show ?thesis using Suc.IH [OF next_off(2) rest] by simp
  next
    case (Inl e)
    have "skip_offset al k8s o' \<or> lookup s (host_key al o') \<noteq> None"
      if i: "i < Suc left" "unat o' = (unat off + i) mod 2 ^ h" for o' i
    proof (cases i)
      case 0
      then have "o' = off" using i lt by (simp add: word_unat_eq_iff)
      then show ?thesis using blocked by simp
    next
      case (Suc i')
      then have "i' < left" "unat o' = (unat ((off + 1) mod al_size al) + i') mod 2 ^ h"
        using i next_off(1) by (simp_all add: mod_simps)
      then show ?thesis using Suc.IH [OF next_off(2) rest] Inl by auto
    qed
    then show ?thesis using Suc.IH [OF next_off(2) rest] Inl by auto
  qed
  show ?case
  proof (cases "skip_offset al k8s off")
    case True
    then show ?thesis using again Suc.prems(2) by simp
  next
    case False
    show ?thesis
    proof (rule put_create_cases [OF assms(2) ip_sentinel_storable, of "host_key al off"])
      fix ob
      assume "lookup s (host_key al off) = Some ob"
        and "st_put st s (host_key al off) (to_vec c ip_sentinel_doc) (Some 0) = (s, Inl (AlreadyExists (host_key al off)))"
      then show ?thesis using again False Suc.prems(2) by (simp add: host_key_def Let_def)
    next
      fix s1 r ob
      assume "lookup s (host_key al off) = None" "inv s1" "lookup s1 = (lookup s)(host_key al off \<mapsto> ob)"
        "stores_doc c (host_key al off) ip_sentinel_doc ob"
        and "st_put st s (host_key al off) (to_vec c ip_sentinel_doc) (Some 0) = (s1, Inr r)"
      moreover from this have "res = Inr (ip_at al off)" "s' = s1"
        using False Suc.prems(2) by (auto simp: host_key_def Let_def)
      ultimately show ?thesis using False Suc.prems(1) by auto
    qed
  qed
qed

end

subsection \<open>Properties\<close>

lemma from_cidr_cases:
  assumes "from_cidr cidr = Inr al"
  obtains addr_str prefix_str addr p where
    "cidr = addr_str @ CHR ''/'' # prefix_str" "parse_ip addr_str = Some addr" "parse_u32 prefix_str = Some p"
    "al = range_of addr (addr_bits addr - p)" "p \<le> addr_bits addr - 2" "family_of addr = FamV6 \<longrightarrow> 64 \<le> p"
  using assms by (auto simp: from_cidr_def Let_def split_once_Some split: option.splits if_splits)

lemma range_of_simps:
  "al_size (range_of a h) = push_bit h 1" "alloc_family (range_of a h) = family_of a"
  "addr_bits (al_base (range_of a h)) = addr_bits a"
  by (cases a; simp add: range_of_def Let_def alloc_family_def addr_bits_def)+

lemma minus_aligned: "w - (w AND NOT (mask h)) = take_bit h (w :: 'a::len word)" "w AND NOT (mask h) \<le> w"
proof -
  have "(w AND NOT (mask h)) + (w AND mask h) = w"
    by (simp add: disjunctive_add bit_eq_iff bit_simps) (auto simp: bit_eq_iff bit_simps)
  then show "w - (w AND NOT (mask h)) = take_bit h w"
    by (simp add: take_bit_eq_mask) (metis add_diff_cancel_left')
  show "w AND NOT (mask h) \<le> w"
    by (rule word_and_le2)
qed

lemma given_address_in_range:
  assumes "2 \<le> h" and "h \<le> (case a of V4 _ \<Rightarrow> 32 | V6 _ \<Rightarrow> 64)"
  shows "offset_of (range_of a h) a \<noteq> None"
proof (cases a)
  case (V4 w)
  have "unat (take_bit h w) < 2 ^ h" by (simp add: unsigned_take_bit_eq)
  moreover have "unat (ucast (take_bit h w) :: u128) = unat (take_bit h w)"
    by (intro unat_ucast_small less_le_trans [OF unsigned_less]) simp
  ultimately have "ucast (take_bit h w) < (2 ^ h :: u128)"
    using assms V4 by (simp add: word_less_nat_alt unat_two_power)
  then show ?thesis
    using assms V4 minus_aligned [of w h]
    by (simp add: range_of_def offset_of_def Let_def size_mask [simplified] ucast_mask not_less)
next
  case (V6 w)
  have "unat (take_bit h w) < 2 ^ h" by (simp add: unsigned_take_bit_eq)
  then have "take_bit h w < (2 ^ h :: u128)"
    using assms V6 by (simp add: word_less_nat_alt unat_two_power)
  then show ?thesis
    using assms V6 minus_aligned [of w h]
    by (simp add: range_of_def offset_of_def Let_def size_mask [simplified] not_less)
qed

text \<open>C38: a service range is exact. For every CIDR the server accepts, the address at an offset below
  the size is computed without wrap-around and has that offset; conversely an address with an offset
  lies in the range at that offset; the address the operator wrote is in the range, the prefix length
  is the one written, and the hosts are the offsets from 1 to the last one (without the broadcast
  address for IPv4).\<close>

theorem service_range_exact:
  assumes "from_cidr cidr = Inr al"
  shows "(\<forall>o'. o' < al_size al \<longrightarrow> offset_of al (ip_at al o') = Some o' \<and>
            (case (al_base al, ip_at al o') of
               (V4 b, V4 a) \<Rightarrow> unat a = unat b + unat o'
             | (V6 b, V6 a) \<Rightarrow> unat a = unat b + unat o'
             | _ \<Rightarrow> False)) \<and>
         (\<forall>a o'. offset_of al a = Some o' \<longrightarrow> o' < al_size al \<and> ip_at al o' = a) \<and>
         (\<exists>addr_str prefix_str addr. cidr = addr_str @ CHR ''/'' # prefix_str \<and>
            parse_ip addr_str = Some addr \<and> offset_of al addr \<noteq> None \<and>
            parse_u32 prefix_str = Some (prefix_len al)) \<and>
         (\<forall>a. contains_host al a \<longleftrightarrow> (\<exists>o'. offset_of al a = Some o' \<and> 0 < unat o' \<and>
            unat o' + (if alloc_family al = FamV4 then 2 else 1) \<le> unat (al_size al)))"
proof -
  obtain addr_str prefix_str addr p where
    cidr: "cidr = addr_str @ CHR ''/'' # prefix_str" "parse_ip addr_str = Some addr" "parse_u32 prefix_str = Some p"
    and al: "al = range_of addr (addr_bits addr - p)"
    and p: "p \<le> addr_bits addr - 2" "family_of addr = FamV6 \<longrightarrow> 64 \<le> p"
    using assms by (rule from_cidr_cases)
  define h where "h = addr_bits addr - p"
  have h: "2 \<le> h" "h \<le> (case addr of V4 _ \<Rightarrow> 32 | V6 _ \<Rightarrow> 64)" "addr_bits addr - h = p"
    using p by (cases addr; auto simp: h_def addr_bits_def)+
  have b: "block_bits al h" unfolding al h_def [symmetric] using h by (intro range_of_block) auto
  have "\<forall>o'. o' < al_size al \<longrightarrow> offset_of al (ip_at al o') = Some o' \<and>
      (case (al_base al, ip_at al o') of
         (V4 b, V4 a) \<Rightarrow> unat a = unat b + unat o'
       | (V6 b, V6 a) \<Rightarrow> unat a = unat b + unat o'
       | _ \<Rightarrow> False)"
    using ip_at_offset [OF b] by blast
  moreover have "\<forall>a o'. offset_of al a = Some o' \<longrightarrow> o' < al_size al \<and> ip_at al o' = a"
    using offset_ip_at by blast
  moreover have "prefix_len al = p"
    using prefix_len_block [OF b] h(3) by (simp add: al range_of_simps)
  moreover have "offset_of al addr \<noteq> None"
    unfolding al h_def [symmetric] using h by (intro given_address_in_range) auto
  moreover have "contains_host al a \<longleftrightarrow> (\<exists>o'. offset_of al a = Some o' \<and> 0 < unat o' \<and>
      unat o' + (if alloc_family al = FamV4 then 2 else 1) \<le> unat (al_size al))" for a
    using unat_last_offset [OF b] unat_size [OF b] size_bounds [OF b]
    by (auto simp: contains_host_def word_le_nat_alt split: option.splits)
  ultimately show ?thesis using cidr by blast
qed

lemma contains_host_iff:
  assumes "block_bits al h"
  shows "contains_host al ip \<longleftrightarrow> (\<exists>o'. o' < al_size al \<and> ip = ip_at al o' \<and> o' \<noteq> 0 \<and> o' \<le> last_offset al)"
proof
  assume "contains_host al ip"
  then obtain o' where o': "offset_of al ip = Some o'" "1 \<le> o'" "o' \<le> last_offset al"
    by (auto simp: contains_host_def split: option.splits)
  have "o' \<noteq> 0" using o'(2) by (auto simp: word_le_nat_alt)
  then show "\<exists>o'. o' < al_size al \<and> ip = ip_at al o' \<and> o' \<noteq> 0 \<and> o' \<le> last_offset al"
    using offset_ip_at [OF o'(1)] o'(3) by blast
next
  assume "\<exists>o'. o' < al_size al \<and> ip = ip_at al o' \<and> o' \<noteq> 0 \<and> o' \<le> last_offset al"
  then obtain o' where o': "o' < al_size al" "ip = ip_at al o'" "o' \<noteq> 0" "o' \<le> last_offset al" by blast
  then have "1 \<le> o'" by (simp add: word_le_nat_alt unat_gt_0 Suc_le_eq)
  then show "contains_host al ip" using o' ip_at_offset [OF assms o'(1)] by (simp add: contains_host_def)
qed

lemma ip_at_inject:
  "block_bits al h \<Longrightarrow> o1 < al_size al \<Longrightarrow> o2 < al_size al \<Longrightarrow> ip_at al o1 = ip_at al o2 \<longleftrightarrow> o1 = o2"
  by (metis ip_at_offset option.inject)

definition sample_range :: service_ip_allocator where
  "sample_range = \<lparr>al_base = V4 0x0A600004, al_size = 4\<rparr>"

lemmas parse_eval = parse_ip_def read_ipv4_addr_def read_octet_def read_number_def to_digit_def
  radix_val_def base_val_def numeral_3_eq_3 Let_def

lemma sample_cidr: "from_cidr ''10.96.0.5/30'' = Inr sample_range"
proof -
  have "parse_ip ''10.96.0.5'' = Some (V4 0x0A600005)" by (simp add: parse_eval)
  moreover have "parse_u32 ''30'' = Some 30" by (simp add: parse_u32_def parse_u64_def is_digit_def digits_val_def digit_val_def)
  moreover have "split_once CHR ''/'' ''10.96.0.5/30'' = Some (''10.96.0.5'', ''30'')" by simp
  ultimately show ?thesis
    by (simp add: from_cidr_def addr_bits_def range_of_def sample_range_def push_bit_of_1 Let_def)
qed

theorem service_range_exact_witness:
  "from_cidr ''10.96.0.5/30'' = Inr sample_range \<and> offset_of sample_range (ip_at sample_range 3) = Some 3 \<and>
   parse_u32 ''30'' = Some (prefix_len sample_range)"
proof -
  have "offset_of sample_range (ip_at sample_range 3) = Some 3"
    using service_range_exact [OF sample_cidr] by (simp add: sample_range_def)
  moreover have "parse_u32 ''30'' = Some (prefix_len sample_range)"
  proof -
    obtain a p where "''10.96.0.5/30'' = a @ CHR ''/'' # p" "parse_u32 p = Some (prefix_len sample_range)"
      using service_range_exact [OF sample_cidr] by blast
    moreover have "split_once CHR ''/'' ''10.96.0.5/30'' = Some (''10.96.0.5'', ''30'')" by simp
    ultimately show ?thesis
      using split_once_Some [of "CHR ''/''" "''10.96.0.5/30''" a p] by (auto simp: Cons_eq_append_conv)
  qed
  ultimately show ?thesis using sample_cidr by simp
qed

context object_store
begin

lemma probe_total:
  assumes "block_bits al h" and "inv s"
    and "probe_service_ip c st al k8s (unat (al_size al)) (random mod al_size al) s = (s', res)"
  shows "case res of
      Inr ip \<Rightarrow> contains_host al ip \<and> (ip = ip_at al 1 \<longrightarrow> k8s) \<and> inv s' \<and> lookup s (ip_key (ip_to_string ip)) = None \<and>
        (\<exists>ob. lookup s' = (lookup s)(ip_key (ip_to_string ip) \<mapsto> ob) \<and> stores_doc c (ip_key (ip_to_string ip)) ip_sentinel_doc ob)
    | Inl e \<Rightarrow> e = IpRangeFull \<and> s' = s \<and>
        (\<forall>ip. contains_host al ip \<and> (ip = ip_at al 1 \<longrightarrow> k8s) \<longrightarrow> lookup s (ip_key (ip_to_string ip)) \<noteq> None)"
proof -
  let ?off = "random mod al_size al"
  have pos: "0 < unat (al_size al)" using size_bounds [OF assms(1)] by simp
  have off: "?off < al_size al" using pos by (simp add: word_less_nat_alt unat_mod)
  have one: "1 < al_size al" using size_bounds [OF assms(1)] by (simp add: word_less_nat_alt)
  note spec = probe_spec [OF assms(1,2) off assms(3)]
  have hit: "\<exists>i < unat (al_size al). unat o' = (unat ?off + i) mod 2 ^ h" if "o' < al_size al" for o'
  proof -
    have lt: "unat o' < 2 ^ h" "unat ?off < 2 ^ h"
      using that off unat_size [OF assms(1)] by (simp_all add: word_less_nat_alt)
    define i where "i = (unat o' + 2 ^ h - unat ?off) mod 2 ^ h"
    have "(unat ?off + i) mod 2 ^ h = (unat ?off + (unat o' + 2 ^ h - unat ?off)) mod 2 ^ h"
      by (simp add: i_def mod_simps)
    also have "\<dots> = unat o'" using lt by simp
    finally show ?thesis using unat_size [OF assms(1)] by (intro exI [of _ i]) (simp add: i_def)
  qed
  show ?thesis
  proof (cases res)
    case (Inr ip)
    then obtain o' ob where o': "o' < al_size al" "\<not> skip_offset al k8s o'" "ip = ip_at al o'" "inv s'"
        "lookup s (host_key al o') = None" "lookup s' = (lookup s)(host_key al o' \<mapsto> ob)"
        "stores_doc c (host_key al o') ip_sentinel_doc ob"
      using spec by auto
    moreover have "contains_host al ip"
      using o' by (auto simp: contains_host_iff [OF assms(1)] skip_offset_def)
    moreover have "ip = ip_at al 1 \<longrightarrow> k8s"
      using o' ip_at_inject [OF assms(1) o'(1) one] by (auto simp: skip_offset_def)
    ultimately show ?thesis using Inr by (auto simp: host_key_def)
  next
    case (Inl e)
    have "lookup s (ip_key (ip_to_string ip)) \<noteq> None" if ip: "contains_host al ip" "ip = ip_at al 1 \<longrightarrow> k8s" for ip
    proof -
      obtain o' where o': "o' < al_size al" "ip = ip_at al o'" "o' \<noteq> 0" "o' \<le> last_offset al"
        using ip(1) contains_host_iff [OF assms(1)] by blast
      have "\<not> skip_offset al k8s o'" using o' ip(2) by (auto simp: skip_offset_def)
      then show ?thesis using spec Inl hit [OF o'(1)] o'(2) by (auto simp: host_key_def)
    qed
    then show ?thesis using Inl spec by auto
  qed
qed

lemma release_service_ip_effect:
  "inv s \<Longrightarrow> inv (release_service_ip st cf ip s) \<and>
     lookup (release_service_ip st cf ip s) =
       (if ip = [] \<or> ip = ''None'' \<or> cf_primary cf = None then lookup s else (lookup s)(ip_key ip := None))"
  using delete_effect [of s "ip_key ip"] by (simp add: release_service_ip_def)

end

text \<open>C39: clusterIP allocation is exact and always ends. Started at any random offset, over the SQLite
  tables, it either hands out an allocatable host of the family's range whose key was free (the first
  host only to the \<^verbatim>\<open>kubernetes\<close> Service), creating that one key and changing nothing else; or it
  reports a full range, having changed nothing, and then every address it could have handed out is
  held. No other outcome exists.\<close>

theorem allocate_service_ip_exact:
  assumes "tables_ok c d" and "service_ip_allocator_for cf fam = Some al" and "from_cidr cidr = Inr al"
  shows "case allocate_service_ip c (sqlite_tables c) cf random fam k8s d of
      (d', Inr (Some ip)) \<Rightarrow>
        contains_host al ip \<and> family_of ip = fam \<and> (ip = ip_at al 1 \<longrightarrow> k8s) \<and> tables_ok c d' \<and>
        get_sync d (ip_key (ip_to_string ip)) = None \<and>
        (\<exists>ob. get_sync d' = (get_sync d)(ip_key (ip_to_string ip) \<mapsto> ob))
    | (d', Inr None) \<Rightarrow> False
    | (d', Inl e) \<Rightarrow> e = IpRangeFull \<and> d' = d \<and>
        (\<forall>ip. contains_host al ip \<and> (ip = ip_at al 1 \<longrightarrow> k8s) \<longrightarrow> get_sync d (ip_key (ip_to_string ip)) \<noteq> None)"
proof -
  obtain h where b: "block_bits al h" using from_cidr_block [OF assms(3)] by blast
  obtain d' res where run: "probe_service_ip c (sqlite_tables c) al k8s (unat (al_size al)) (random mod al_size al) d = (d', res)"
    by fastforce
  note total = sqlite.probe_total [OF b assms(1) run]
  have fam: "alloc_family al = fam"
    using assms(2) by (auto simp: service_ip_allocator_for_def find_Some_iff)
  have "family_of ip = fam" if "contains_host al ip" for ip
    using that fam ip_at_offset [OF b] by (auto simp: contains_host_iff [OF b])
  then show ?thesis
    using total run assms(2) by (auto simp: allocate_service_ip_def split: sum.splits)
qed

theorem allocate_service_ip_exact_witness:
  "tables_ok plain_codec (empty_db :: json db) \<and> from_cidr ''10.96.0.5/30'' = Inr sample_range \<and>
   service_ip_allocator_for \<lparr>cf_primary = Some sample_range, cf_secondary = None\<rparr> FamV4 = Some sample_range \<and>
   (case allocate_service_ip plain_codec (sqlite_tables plain_codec)
       \<lparr>cf_primary = Some sample_range, cf_secondary = None\<rparr> 7 FamV4 False (empty_db :: json db) of
      (d', Inr (Some ip)) \<Rightarrow> contains_host sample_range ip \<and> ip \<noteq> ip_at sample_range 1
    | _ \<Rightarrow> False)"
proof -
  let ?cf = "\<lparr>cf_primary = Some sample_range, cf_secondary = None\<rparr>"
  have ok: "tables_ok plain_codec (empty_db :: json db)"
    by (simp add: tables_ok_def plain_codec_ok empty_db_inv)
  have al: "service_ip_allocator_for ?cf FamV4 = Some sample_range"
    by (simp add: service_ip_allocator_for_def service_ip_allocators_def alloc_family_def sample_range_def)
  have free: "get_sync (empty_db :: json db) k = None" for k
    by (simp add: get_sync_def row_at_def empty_db_def)
  have host: "contains_host sample_range (ip_at sample_range 2)" "ip_at sample_range 2 \<noteq> ip_at sample_range 1"
    by (simp_all add: contains_host_def offset_of_def ip_at_def sample_range_def last_offset_def alloc_family_def)
  show ?thesis
    using ok al sample_cidr host free
      allocate_service_ip_exact [OF ok al sample_cidr, of False 7]
    by (auto split: prod.splits sum.splits option.splits)
qed

end
