(* ===== verification/Service_Families.thy ===== *)
theory Service_Families
  imports Service_Ip
begin

text \<open>
  \<^verbatim>\<open>crates/apiserver/src/service_ip_families.rs\<close>: resolution and validation of a Service's
  \<^verbatim>\<open>ipFamilyPolicy\<close>, \<^verbatim>\<open>ipFamilies\<close> and \<^verbatim>\<open>clusterIPs\<close>. The messages of the rejected
  fields are a datatype, one constructor per message of the source, in the order they are pushed.
  A slice index out of range and an assignment into a value that is no object panic
  (\<^const>\<open>None\<close>).
\<close>

subsection \<open>Fields\<close>

record fields =
  f_type :: string
  f_cluster_ip :: string
  f_cluster_ips :: "string list"
  f_families :: "string list"
  f_policy :: "string option"
  f_selectorless :: bool

datatype family_error =
    FirstMustMatch
  | UnsupportedFamily nat string
  | DuplicateFamily nat string
  | UnsupportedPolicy string
  | NoneMustBeOnly
  | NotAnIp nat string
  | NotCanonical nat string
  | TooManyIps
  | OneIpPerFamily
  | ExpectedV4 nat string
  | ExpectedV6 nat string
  | ReleaseIpNeedsSingle
  | ReleaseFamilyNeedsSingle
  | SingleWithTwoIps
  | SingleWithTwoFamilies
  | IpFamilyNotConfigured nat ip_family
  | NotDualStack
  | FamilyNotConfigured nat string
  | IpMayNotChange nat
  | PrimaryIpUnset
  | FamilyMayNotChange
  | PrimaryFamilyUnset

definition json_set :: "json \<Rightarrow> string \<Rightarrow> json \<Rightarrow> json option" where
  "json_set v k x = json_index_mut v k (\<lambda>_. Some x)"

definition str_items :: "json \<Rightarrow> string list" where
  "str_items v = List.map_filter as_str (case as_array v of Some xs \<Rightarrow> xs | None \<Rightarrow> [])"

definition str_or :: "json \<Rightarrow> string \<Rightarrow> string" where
  "str_or v d = (case as_str v of Some s \<Rightarrow> s | None \<Rightarrow> d)"

definition read_fields :: "json \<Rightarrow> fields" where
  "read_fields spec =
     (let ip = str_or (json_idx spec ''clusterIP'') [];
          ips = str_items (json_idx spec ''clusterIPs'');
          ips' = (if ips = [] \<and> ip \<noteq> [] then [ip] else ips);
          ip' = (if ip = [] \<and> ips' \<noteq> [] then hd ips' else ip)
      in \<lparr>f_type = str_or (json_idx spec ''type'') ''ClusterIP'',
          f_cluster_ip = ip',
          f_cluster_ips = ips',
          f_families = str_items (json_idx spec ''ipFamilies''),
          f_policy = as_str (json_idx spec ''ipFamilyPolicy''),
          f_selectorless = (case as_object (json_idx spec ''selector'') of None \<Rightarrow> True | Some m \<Rightarrow> m = [])\<rparr>)"

definition write_fields :: "fields \<Rightarrow> json \<Rightarrow> json option" where
  "write_fields f spec =
     Option.bind (case f_policy f of Some p \<Rightarrow> json_set spec ''ipFamilyPolicy'' (JStr p) | None \<Rightarrow> Some spec) (\<lambda>spec1.
     Option.bind (if f_families f \<noteq> [] then json_set spec1 ''ipFamilies'' (JArr (map JStr (f_families f))) else Some spec1) (\<lambda>spec2.
       if f_cluster_ips f \<noteq> []
       then Option.bind (json_set spec2 ''clusterIPs'' (JArr (map JStr (f_cluster_ips f))))
              (\<lambda>spec3. json_set spec3 ''clusterIP'' (JStr (f_cluster_ip f)))
       else Some spec2))"

definition needs_cluster_ip :: "fields \<Rightarrow> bool" where
  "needs_cluster_ip f = (f_type f \<in> {''ClusterIP'', ''NodePort'', ''LoadBalancer''})"

definition headless :: "fields \<Rightarrow> bool" where
  "headless f = (f_cluster_ips f = [''None''])"

definition parse_family :: "string \<Rightarrow> ip_family option" where
  "parse_family ip = map_option family_of (parse_ip ip)"

subsection \<open>Standalone checks\<close>

definition dup_families :: "string list \<Rightarrow> family_error list" where
  "dup_families fams =
     concat (map (\<lambda>(i, fam).
        (if parse_ip_family fam = None then [UnsupportedFamily i fam] else []) @
        (if fam \<in> set (take i fams) then [DuplicateFamily i fam] else [])) (enumerate 0 fams))"

definition policy_errors :: "string option \<Rightarrow> family_error list" where
  "policy_errors p =
     (case p of
        Some q \<Rightarrow> if q \<in> {''SingleStack'', ''PreferDualStack'', ''RequireDualStack''} then [] else [UnsupportedPolicy q]
      | None \<Rightarrow> [])"

text \<open>The per-address errors; each one also marks the addresses as invalid.\<close>

definition ip_errors :: "string list \<Rightarrow> string list \<Rightarrow> family_error list" where
  "ip_errors existing ips =
     concat (map (\<lambda>(i, ip).
        if i = 0 \<and> ip = ''None'' then (if length ips > 1 then [NoneMustBeOnly] else [])
        else if ip \<in> set existing then []
        else (case parse_ip ip of
                None \<Rightarrow> [NotAnIp i ip]
              | Some a \<Rightarrow> if ip_to_string a \<noteq> ip then [NotCanonical i ip] else [])) (enumerate 0 ips))"

definition family_mismatches :: "fields \<Rightarrow> family_error list" where
  "family_mismatches f =
     (if \<not> headless f \<and> f_cluster_ips f \<noteq> [] \<and> f_families f \<noteq> [] then
        concat (map (\<lambda>(i, (ip, fam)).
          (let v6 = (parse_family ip = Some FamV6) in
           (if fam = ''IPv4'' \<and> v6 then [ExpectedV4 i ip] else []) @
           (if fam = ''IPv6'' \<and> \<not> v6 then [ExpectedV6 i ip] else [])))
          (enumerate 0 (zip (f_cluster_ips f) (f_families f))))
      else [])"

definition validate_related_fields :: "fields \<Rightarrow> fields option \<Rightarrow> family_error list option" where
  "validate_related_fields f old =
     Option.bind
       (if f_cluster_ip f = [] then Some []
        else case f_cluster_ips f of [] \<Rightarrow> None | first # _ \<Rightarrow> Some (if first \<noteq> f_cluster_ip f then [FirstMustMatch] else []))
       (\<lambda>e1.
         (let ips = f_cluster_ips f;
              e2 = dup_families (f_families f) @ policy_errors (f_policy f);
              e3 = ip_errors (case old of Some o' \<Rightarrow> f_cluster_ips o' | None \<Rightarrow> []) ips;
              e4 = (if length ips > 2 then [TooManyIps] else [])
          in Some (e1 @ e2 @ e3 @ e4 @
               (if e3 \<noteq> [] then []
                else (if length ips > 1 \<and> (length ips \<noteq> 2 \<or> parse_family (ips ! 0) = parse_family (ips ! 1))
                      then [OneIpPerFamily] else []) @ family_mismatches f))))"

definition prefer_dual_unchanged :: "fields \<Rightarrow> fields option \<Rightarrow> bool" where
  "prefer_dual_unchanged f old =
     (case old of
        None \<Rightarrow> False
      | Some o' \<Rightarrow>
          f_policy f = Some ''PreferDualStack'' \<and>
          (f_policy o' = None \<or> f_policy o' = Some ''PreferDualStack'') \<and>
          f_type f = f_type o' \<and> needs_cluster_ip f \<and>
          f_cluster_ips f = f_cluster_ips o' \<and> f_families f = f_families o')"

definition alt_family :: "string \<Rightarrow> string" where
  "alt_family fam = (if fam = ''IPv4'' then ''IPv6'' else ''IPv4'')"

subsection \<open>Resolution\<close>

text \<open>An update that omits the allocated addresses keeps them.\<close>

definition patch_allocated :: "fields \<Rightarrow> fields option \<Rightarrow> fields" where
  "patch_allocated f old =
     (case old of
        None \<Rightarrow> f
      | Some o' \<Rightarrow>
          if needs_cluster_ip o' \<and> needs_cluster_ip f then
            (let f1 = (if f_cluster_ip f = [] then f\<lparr>f_cluster_ip := f_cluster_ip o'\<rparr> else f)
             in if f_cluster_ips f1 = [] \<and> f_cluster_ip f1 \<in> set (f_cluster_ips o')
                then f1\<lparr>f_cluster_ips := f_cluster_ips o'\<rparr> else f1)
          else f)"

definition resolve_policy :: "fields \<Rightarrow> fields option \<Rightarrow> string" where
  "resolve_policy f old =
     (case f_policy f of
        Some p \<Rightarrow> p
      | None \<Rightarrow>
          (case Option.bind old f_policy of
             Some p \<Rightarrow> p
           | None \<Rightarrow> if f_cluster_ip f = ''None'' \<and> f_selectorless f then ''RequireDualStack'' else ''SingleStack''))"

definition downgrade :: "fields \<Rightarrow> fields option \<Rightarrow> string \<Rightarrow> fields \<times> family_error list" where
  "downgrade f old policy =
     (case old of
        None \<Rightarrow> (f, [])
      | Some o' \<Rightarrow>
          if policy = ''SingleStack'' then
            (let f1 = (if f_cluster_ips f = f_cluster_ips o' \<and> length (f_cluster_ips f) > 1
                       then f\<lparr>f_cluster_ips := take 1 (f_cluster_ips f)\<rparr> else f)
             in (if f_families f1 = f_families o' \<and> length (f_families f1) > 1
                 then f1\<lparr>f_families := take 1 (f_families f1)\<rparr> else f1, []))
          else
            (f, (if f_cluster_ips f \<noteq> [] \<and> length (f_cluster_ips f) < length (f_cluster_ips o') then [ReleaseIpNeedsSingle] else []) @
                (if f_families f \<noteq> [] \<and> length (f_families f) < length (f_families o') then [ReleaseFamilyNeedsSingle] else [])))"

definition single_errors :: "fields \<Rightarrow> string \<Rightarrow> family_error list" where
  "single_errors f policy =
     (if policy = ''SingleStack'' then
        (if length (f_cluster_ips f) = 2 then [SingleWithTwoIps] else []) @
        (if length (f_families f) = 2 then [SingleWithTwoFamilies] else [])
      else [])"

text \<open>Families implied by the addresses behind the ones that are given.\<close>

fun imply_families ::
    "ip_family list \<Rightarrow> nat \<Rightarrow> string list \<Rightarrow> string list \<Rightarrow> string list \<times> family_error list" where
  "imply_families configured i [] fams = (fams, [])"
| "imply_families configured i (ip # ips) fams =
     (if ip = ''None'' then (fams, [])
      else
        (case parse_family ip of
           None \<Rightarrow> imply_families configured (Suc i) ips fams
         | Some fam \<Rightarrow>
             if i \<ge> length fams then
               (if fam \<in> set configured then imply_families configured (Suc i) ips (fams @ [family_str fam])
                else (let (fams', errs) = imply_families configured (Suc i) ips fams
                      in (fams', IpFamilyNotConfigured i fam # errs)))
             else imply_families configured (Suc i) ips fams))"

definition configured_errors :: "string list \<Rightarrow> string list \<Rightarrow> family_error list" where
  "configured_errors names fams =
     concat (map (\<lambda>(i, fam). if fam \<in> set names then [] else [FamilyNotConfigured i fam]) (enumerate 0 fams))"

text \<open>The last part: the default family and the second family of a dual-stack Service.\<close>

definition finish_families :: "ip_family list \<Rightarrow> string \<Rightarrow> fields \<Rightarrow> family_error list + fields" where
  "finish_families configured policy f =
     (let names = map family_str configured;
          dflt = (case names of [] \<Rightarrow> ''IPv4'' | n # _ \<Rightarrow> n)
      in if f_cluster_ip f = ''None'' \<and> f_selectorless f then
           (let fams = (if f_families f = [] then [dflt] else f_families f)
            in Inr (f\<lparr>f_families := (if length fams < 2 \<and> policy \<noteq> ''SingleStack'' then fams @ [alt_family (hd fams)] else fams)\<rparr>))
         else
           (let errs = (if policy = ''RequireDualStack'' \<and> length configured < 2 then [NotDualStack] else []) @
                       configured_errors names (f_families f)
            in if errs \<noteq> [] then Inl errs
               else
                 (let fams = (if f_families f = [] then [dflt] else f_families f)
                  in Inr (f\<lparr>f_families :=
                       (if policy \<noteq> ''SingleStack'' \<and> length fams = 1 \<and> length configured = 2
                        then fams @ [alt_family (hd fams)] else fams)\<rparr>))))"

definition resolve_fields ::
    "ip_family list \<Rightarrow> fields option \<Rightarrow> fields \<Rightarrow> (family_error list + fields) option" where
  "resolve_fields configured old f0 =
     (let f1 = patch_allocated f0 old in
      if prefer_dual_unchanged f1 old then Some (Inr f1)
      else
        (let policy = resolve_policy f1 old;
             f2 = f1\<lparr>f_policy := Some policy\<rparr>
         in Option.bind (validate_related_fields f2 old) (\<lambda>errs.
              if errs \<noteq> [] then Some (Inl errs)
              else
                (let (f3, e1) = downgrade f2 old policy;
                     e2 = single_errors f3 policy;
                     (fams, e3) = imply_families configured 0 (f_cluster_ips f3) (f_families f3);
                     f4 = f3\<lparr>f_families := fams\<rparr>
                 in if e1 @ e2 @ e3 \<noteq> [] then Some (Inl (e1 @ e2 @ e3))
                    else Some (finish_families configured policy f4)))))"

definition init_ip_family_fields ::
    "ip_family list \<Rightarrow> json option \<Rightarrow> json \<Rightarrow> (family_error list + json) option" where
  "init_ip_family_fields configured old spec =
     (let f = read_fields spec in
      if f_type f = ''ExternalName'' then Some (Inr spec)
      else
        Option.bind (resolve_fields configured (map_option read_fields old) f) (\<lambda>res.
          case res of
            Inl errs \<Rightarrow> Some (Inl errs)
          | Inr f' \<Rightarrow> map_option Inr (write_fields f' spec)))"

subsection \<open>Updates\<close>

definition ip_change_errors :: "fields \<Rightarrow> fields \<Rightarrow> family_error list" where
  "ip_change_errors o' n =
     (let oi = f_cluster_ips o'; ni = f_cluster_ips n; single = (f_policy n = Some ''SingleStack'') in
      if headless o' \<and> headless n then []
      else if length oi = length ni then
        concat (map (\<lambda>(i, (a, b)). if a \<noteq> b then [IpMayNotChange i] else []) (enumerate 0 (zip oi ni)))
      else if length oi > length ni then
        (if ni = [] then [PrimaryIpUnset] else if hd ni \<noteq> hd oi then [IpMayNotChange 0] else []) @
        (if length ni = 1 \<and> \<not> single then [ReleaseIpNeedsSingle] else [])
      else if oi \<noteq> [] \<and> hd ni \<noteq> hd oi then [IpMayNotChange 0] else [])"

definition family_change_errors :: "fields \<Rightarrow> fields \<Rightarrow> family_error list" where
  "family_change_errors o' n =
     (let ofam = f_families o'; nf = f_families n; single = (f_policy n = Some ''SingleStack'') in
      if headless o' = headless n \<and> \<not> headless n then
        (if length ofam = length nf then (if ofam \<noteq> nf then [FamilyMayNotChange] else [])
         else if length ofam > length nf then
           (if f_cluster_ips n = [] then [PrimaryFamilyUnset] else []) @
           (if nf \<noteq> [] \<and> hd nf \<noteq> hd ofam then [FamilyMayNotChange] else []) @
           (if length nf = 1 \<and> \<not> single then [ReleaseFamilyNeedsSingle] else [])
         else if ofam \<noteq> [] \<and> nf \<noteq> [] \<and> hd nf \<noteq> hd ofam then [FamilyMayNotChange] else [])
      else [])"

definition validate_ip_fields_update :: "json \<Rightarrow> json \<Rightarrow> family_error list" where
  "validate_ip_fields_update old new =
     (let o' = read_fields old; n = read_fields new in
      if f_type o' = ''ExternalName'' \<or> f_type n = ''ExternalName'' then []
      else ip_change_errors o' n @ family_change_errors o' n)"

subsection \<open>Slots for the allocator\<close>

definition unallocated_slots :: "json \<Rightarrow> (nat \<times> ip_family) list" where
  "unallocated_slots spec =
     (let f = read_fields spec in
      if \<not> needs_cluster_ip f \<or> headless f then []
      else
        List.map_filter (\<lambda>(i, fam). map_option (Pair i) (parse_ip_family fam))
          (filter (\<lambda>(i, _). i \<ge> length (f_cluster_ips f) \<or> f_cluster_ips f ! i = [])
             (enumerate 0 (f_families f))))"

definition set_cluster_ip :: "json \<Rightarrow> nat \<Rightarrow> string \<Rightarrow> json option" where
  "set_cluster_ip spec idx ip =
     (let ips = (case as_array (json_idx spec ''clusterIPs'') of Some xs \<Rightarrow> xs | None \<Rightarrow> []);
          padded = ips @ replicate (Suc idx - length ips) (JStr [])
      in Option.bind (json_set spec ''clusterIPs'' (JArr (padded[idx := JStr ip]))) (\<lambda>spec'.
           if idx = 0 then json_set spec' ''clusterIP'' (JStr ip) else Some spec'))"

subsection \<open>Reading back what was written\<close>

lemma json_set_idx: "json_set v k x = Some v' \<Longrightarrow> json_idx v' k' = (if k' = k then x else json_idx v k')"
  using json_index_mut_get [of v k "\<lambda>_. Some x" v'] by (auto simp: json_set_def json_idx_def)

lemma str_items_strings [simp]: "str_items (JArr (map JStr xs)) = xs"
  by (induction xs) (auto simp: str_items_def as_array_def List.map_filter_def)

lemma str_items_nonarray: "as_array v = None \<Longrightarrow> str_items v = []"
  by (simp add: str_items_def List.map_filter_def)

lemma write_fields_idx:
  assumes "write_fields f spec = Some spec'" and "f_policy f = Some p"
  shows "json_idx spec' k =
    (if k = ''ipFamilyPolicy'' then JStr p
     else if k = ''ipFamilies'' \<and> f_families f \<noteq> [] then JArr (map JStr (f_families f))
     else if k = ''clusterIPs'' \<and> f_cluster_ips f \<noteq> [] then JArr (map JStr (f_cluster_ips f))
     else if k = ''clusterIP'' \<and> f_cluster_ips f \<noteq> [] then JStr (f_cluster_ip f)
     else json_idx spec k)"
proof -
  obtain s1 s2 where s1: "json_set spec ''ipFamilyPolicy'' (JStr p) = Some s1"
    and s2: "(if f_families f \<noteq> [] then json_set s1 ''ipFamilies'' (JArr (map JStr (f_families f))) else Some s1) = Some s2"
    and s3: "(if f_cluster_ips f \<noteq> []
       then Option.bind (json_set s2 ''clusterIPs'' (JArr (map JStr (f_cluster_ips f))))
              (\<lambda>s3. json_set s3 ''clusterIP'' (JStr (f_cluster_ip f)))
       else Some s2) = Some spec'"
    using assms unfolding write_fields_def by (auto simp: bind_eq_Some_conv simp del: not_Cons_self)
  have i2: "json_idx s2 k = (if k = ''ipFamilies'' \<and> f_families f \<noteq> [] then JArr (map JStr (f_families f)) else json_idx s1 k)" for k
    using s2 json_set_idx [of s1 "''ipFamilies''" _ s2 k] by (cases "f_families f = []") auto
  have i3: "json_idx spec' k =
      (if k = ''clusterIP'' \<and> f_cluster_ips f \<noteq> [] then JStr (f_cluster_ip f)
       else if k = ''clusterIPs'' \<and> f_cluster_ips f \<noteq> [] then JArr (map JStr (f_cluster_ips f)) else json_idx s2 k)" for k
  proof (cases "f_cluster_ips f = []")
    case False
    then obtain s3 where "json_set s2 ''clusterIPs'' (JArr (map JStr (f_cluster_ips f))) = Some s3"
      and "json_set s3 ''clusterIP'' (JStr (f_cluster_ip f)) = Some spec'"
      using s3 by (auto simp: bind_eq_Some_conv)
    then show ?thesis using False json_set_idx [of s3 _ _ spec' k] json_set_idx [of s2 _ _ s3 k] by simp
  qed (use s3 in simp)
  show ?thesis unfolding i3 i2 json_set_idx [OF s1] by simp
qed

lemma read_write_fields:
  assumes "write_fields f spec = Some spec'" and "f_policy f = Some p" and "f_families f \<noteq> []"
    and "f_cluster_ips f = [] \<Longrightarrow> f_cluster_ips (read_fields spec) = []"
  shows "f_policy (read_fields spec') = Some p \<and> f_families (read_fields spec') = f_families f \<and>
    f_cluster_ips (read_fields spec') = f_cluster_ips f \<and>
    f_type (read_fields spec') = f_type (read_fields spec) \<and>
    f_selectorless (read_fields spec') = f_selectorless (read_fields spec)"
proof -
  note idx = write_fields_idx [OF assms(1,2)]
  have "f_cluster_ips (read_fields spec') = f_cluster_ips f"
  proof (cases "f_cluster_ips f = []")
    case True
    then show ?thesis
      using assms(4) by (simp add: read_fields_def Let_def idx)
  qed (simp add: read_fields_def Let_def idx)
  then show ?thesis using assms(3) by (simp add: read_fields_def Let_def idx)
qed

lemma read_fields_consistent: "f_cluster_ip (read_fields spec) \<noteq> [] \<Longrightarrow> f_cluster_ips (read_fields spec) \<noteq> []"
proof -
  define ip where "ip = str_or (json_idx spec ''clusterIP'') []"
  define ips where "ips = str_items (json_idx spec ''clusterIPs'')"
  have "f_cluster_ips (read_fields spec) = (if ips = [] \<and> ip \<noteq> [] then [ip] else ips)"
    "f_cluster_ip (read_fields spec) = (if ip = [] \<and> f_cluster_ips (read_fields spec) \<noteq> []
       then hd (f_cluster_ips (read_fields spec)) else ip)"
    unfolding read_fields_def Let_def ip_def ips_def by (simp_all only: fields.simps)
  then show "f_cluster_ip (read_fields spec) \<noteq> [] \<Longrightarrow> f_cluster_ips (read_fields spec) \<noteq> []"
    by (cases "ip = []"; cases "ips = []") simp_all
qed

subsection \<open>What validation leaves\<close>

lemma concat_enumerate_Nil:
  "concat (map g (enumerate n xs)) = [] \<longleftrightarrow> (\<forall>i < length xs. g (n + i, xs ! i) = [])"
  by (induction xs arbitrary: n) (auto simp: All_less_Suc2)

lemma dup_families_Nil:
  assumes "dup_families fams = []"
  shows "distinct fams \<and> (\<forall>f \<in> set fams. f = ''IPv4'' \<or> f = ''IPv6'')"
proof -
  have each: "parse_ip_family (fams ! i) \<noteq> None" "fams ! i \<notin> set (take i fams)" if "i < length fams" for i
    using concat_enumerate_Nil [THEN iffD1, rule_format, OF assms [unfolded dup_families_def] that]
    by (simp_all split: if_splits)
  have "distinct fams"
    unfolding distinct_conv_nth
  proof (intro allI impI)
    fix i j assume ij: "i < length fams" "j < length fams" "i \<noteq> j"
    have "fams ! j \<in> set (take i fams)" if "j < i" "i < length fams" for i j
      using that by (auto simp: in_set_conv_nth)
    then show "fams ! i \<noteq> fams ! j"
      using ij each(2) [of i] each(2) [of j] by (metis linorder_neqE_nat)
  qed
  moreover have "fams ! i = ''IPv4'' \<or> fams ! i = ''IPv6''" if "i < length fams" for i
    using each(1) [OF that] by (auto simp: parse_ip_family_def split: if_splits)
  ultimately show ?thesis by (metis in_set_conv_nth)
qed

lemma ip_errors_Nil:
  assumes "ip_errors [] ips = []" and "i < length ips"
  shows "(i = 0 \<and> ips = [''None'']) \<or> (\<exists>a. parse_ip (ips ! i) = Some a \<and> ip_to_string a = ips ! i)"
proof -
  have "(if i = 0 \<and> ips ! i = ''None'' then (if length ips > 1 then [NoneMustBeOnly] else [])
        else (case parse_ip (ips ! i) of
                None \<Rightarrow> [NotAnIp i (ips ! i)]
              | Some a \<Rightarrow> if ip_to_string a \<noteq> ips ! i then [NotCanonical i (ips ! i)] else [])) = []"
    using assms unfolding ip_errors_def concat_enumerate_Nil by auto
  then show ?thesis
    using assms(2) by (cases ips) (auto split: if_splits option.splits)
qed

lemma family_mismatches_Nil:
  assumes "family_mismatches f = []" and "\<not> headless f"
    and "i < length (f_cluster_ips f)" and "i < length (f_families f)"
  shows "(f_families f ! i = ''IPv4'' \<longrightarrow> parse_family (f_cluster_ips f ! i) \<noteq> Some FamV6) \<and>
    (f_families f ! i = ''IPv6'' \<longrightarrow> parse_family (f_cluster_ips f ! i) = Some FamV6)"
proof -
  have ne: "f_cluster_ips f \<noteq> []" "f_families f \<noteq> []" using assms(3,4) by auto
  have "(case (0 + i, zip (f_cluster_ips f) (f_families f) ! i) of (i, (ip, fam)) \<Rightarrow>
      (let v6 = (parse_family ip = Some FamV6) in
       (if fam = ''IPv4'' \<and> v6 then [ExpectedV4 i ip] else []) @
       (if fam = ''IPv6'' \<and> \<not> v6 then [ExpectedV6 i ip] else []))) = []"
    using assms ne unfolding family_mismatches_def
    by (intro concat_enumerate_Nil [THEN iffD1, rule_format]) auto
  then show ?thesis using assms(3,4) by (auto simp: Let_def split: if_splits)
qed

subsection \<open>Resolution on create\<close>

definition ip_family_name :: "string \<Rightarrow> string" where
  "ip_family_name ip = (case parse_family ip of Some fam \<Rightarrow> family_str fam | None \<Rightarrow> [])"

lemma family_str_cases: "family_str fam = ''IPv4'' \<or> family_str fam = ''IPv6''"
  by (cases fam) auto

lemma family_str_inject [simp]: "family_str a = family_str b \<longleftrightarrow> a = b"
  by (cases a; cases b) auto

lemma imply_families_spec:
  assumes "imply_families configured i ips fams = (fams', [])" and "i \<le> length fams"
    and "\<forall>ip \<in> set ips. ip \<noteq> ''None'' \<and> parse_family ip \<noteq> None"
  shows "fams' = fams @ map ip_family_name (drop (length fams - i) ips)"
  using assms
proof (induction configured i ips fams arbitrary: fams' rule: imply_families.induct)
  case (2 configured i ip ips fams)
  obtain fam where fam: "parse_family ip = Some fam" "ip \<noteq> ''None''" using "2.prems"(3) by auto
  show ?case
  proof (cases "i \<ge> length fams")
    case True
    then have i: "i = length fams" using "2.prems"(2) by simp
    have cfg: "fam \<in> set configured" using "2.prems"(1) fam i by (auto split: if_splits prod.splits)
    have "fams' = (fams @ [family_str fam]) @ map ip_family_name (drop (length (fams @ [family_str fam]) - Suc i) ips)"
      using "2.IH"(2) [OF fam(2,1) True cfg] "2.prems" fam cfg i by simp
    then show ?thesis using i fam by (simp add: ip_family_name_def)
  next
    case False
    have "fams' = fams @ map ip_family_name (drop (length fams - Suc i) ips)"
      using "2.IH"(4) [OF fam(2,1) False] "2.prems" fam False by simp
    moreover have "drop (length fams - i) (ip # ips) = drop (length fams - Suc i) ips"
      using False by (simp add: Suc_diff_Suc [symmetric] del: Suc_diff_Suc)
    ultimately show ?thesis by simp
  qed
qed simp

lemma append_drop_agree:
  assumes "\<And>i. i < length xs \<Longrightarrow> i < length ys \<Longrightarrow> xs ! i = ys ! i"
  shows "xs @ drop (length xs) ys = (if length xs \<le> length ys then ys else xs)"
proof (cases "length xs \<le> length ys")
  case True
  then have "xs = take (length xs) ys" using assms by (intro nth_equalityI) auto
  then show ?thesis using True by (metis append_take_drop_id)
qed simp

definition families_ok :: "ip_family list \<Rightarrow> fields \<Rightarrow> bool" where
  "families_ok configured f =
     (f_families f \<noteq> [] \<and> distinct (f_families f) \<and> set (f_families f) \<subseteq> {''IPv4'', ''IPv6''} \<and>
      f_policy f \<in> {Some ''SingleStack'', Some ''PreferDualStack'', Some ''RequireDualStack''} \<and>
      (f_policy f = Some ''SingleStack'' \<longrightarrow> length (f_families f) = 1) \<and>
      (f_policy f = Some ''RequireDualStack'' \<longrightarrow> length (f_families f) = 2) \<and>
      (f_cluster_ips f \<noteq> [''None''] \<longrightarrow>
         (\<forall>i < length (f_cluster_ips f). \<exists>a. parse_ip (f_cluster_ips f ! i) = Some a \<and>
            ip_to_string a = f_cluster_ips f ! i \<and> i < length (f_families f) \<and>
            f_families f ! i = family_str (family_of a))) \<and>
      (f_cluster_ips f = [''None''] \<and> f_selectorless f \<or> set (f_families f) \<subseteq> family_str ` set configured))"

text \<open>The state after validation and implication, before the default family.\<close>

definition implied_ok :: "fields \<Rightarrow> bool" where
  "implied_ok f =
     (distinct (f_families f) \<and> set (f_families f) \<subseteq> {''IPv4'', ''IPv6''} \<and>
      f_policy f \<in> {Some ''SingleStack'', Some ''PreferDualStack'', Some ''RequireDualStack''} \<and>
      (f_policy f = Some ''SingleStack'' \<longrightarrow> length (f_families f) \<le> 1) \<and>
      (f_cluster_ip f = ''None'' \<longrightarrow> f_cluster_ips f = [''None'']) \<and>
      (f_cluster_ips f \<noteq> [''None''] \<longrightarrow>
         (\<forall>i < length (f_cluster_ips f). \<exists>a. parse_ip (f_cluster_ips f ! i) = Some a \<and>
            ip_to_string a = f_cluster_ips f ! i \<and> i < length (f_families f) \<and>
            f_families f ! i = family_str (family_of a))))"

lemma two_families: "distinct fams \<Longrightarrow> set fams \<subseteq> {''IPv4'', ''IPv6''} \<Longrightarrow> length fams \<le> 2"
  using distinct_card [of fams] card_mono [of "{''IPv4'', ''IPv6''}" "set fams"] by simp

lemma configured_errors_Nil: "configured_errors names fams = [] \<Longrightarrow> set fams \<subseteq> set names"
proof
  fix x assume err: "configured_errors names fams = []" and "x \<in> set fams"
  then obtain i where "i < length fams" "x = fams ! i" by (auto simp: in_set_conv_nth)
  then show "x \<in> set names"
    using concat_enumerate_Nil [THEN iffD1, rule_format, OF err [unfolded configured_errors_def], of i]
    by (simp split: if_splits)
qed

lemma configured_two:
  assumes "distinct configured" and "length configured = 2"
  shows "family_str ` set configured = {''IPv4'', ''IPv6''}"
proof -
  obtain a b where "configured = [a, b]"
    using assms(2) by (metis length_0_conv length_Suc_conv numeral_2_eq_2)
  then show ?thesis using assms(1) by (cases a; cases b) auto
qed

lemma configured_le_two: "distinct (configured :: ip_family list) \<Longrightarrow> length configured \<le> 2"
proof -
  assume d: "distinct configured"
  have "set (map family_str configured) \<subseteq> {''IPv4'', ''IPv6''}" using family_str_cases by auto
  moreover have "distinct (map family_str configured)" using d by (simp add: distinct_map inj_on_def)
  ultimately show ?thesis using two_families [of "map family_str configured"] by simp
qed

lemma finish_families_cases:
  assumes "finish_families configured policy f = Inr f'" and "distinct configured" and "configured \<noteq> []"
    and "length (f_families f) \<le> 2" and "set (f_families f) \<subseteq> {''IPv4'', ''IPv6''}"
  obtains fams more where "f' = f\<lparr>f_families := fams @ more\<rparr>"
    "fams = (if f_families f = [] then [hd (map family_str configured)] else f_families f)"
    "more = [] \<or> more = [alt_family (hd fams)] \<and> length fams = 1 \<and> policy \<noteq> ''SingleStack''"
    "policy = ''RequireDualStack'' \<longrightarrow> length (fams @ more) = 2"
    "f_cluster_ip f = ''None'' \<and> f_selectorless f \<or> set (fams @ more) \<subseteq> family_str ` set configured"
proof -
  define fams where "fams = (if f_families f = [] then [hd (map family_str configured)] else f_families f)"
  have dflt: "(case map family_str configured of [] \<Rightarrow> ''IPv4'' | n # _ \<Rightarrow> n) = hd (map family_str configured)"
    using assms(3) by (cases configured) auto
  have len: "length fams \<le> 2" "fams \<noteq> []" using assms(4) by (auto simp: fams_def)
  have two: "set fams \<subseteq> {''IPv4'', ''IPv6''}"
    using assms(3,5) family_str_cases by (cases configured) (auto simp: fams_def)
  have one: "length fams < 2 \<longleftrightarrow> length fams = 1" using len by (cases fams) auto
  show thesis
  proof (cases "f_cluster_ip f = ''None'' \<and> f_selectorless f")
    case True
    define more where "more = (if length fams < 2 \<and> policy \<noteq> ''SingleStack'' then [alt_family (hd fams)] else [])"
    have "f' = f\<lparr>f_families := fams @ more\<rparr>"
      using assms(1) True unfolding finish_families_def Let_def dflt fams_def [symmetric] more_def by auto
    then show thesis
      using True len one by (intro that [OF _ fams_def, of more]) (auto simp: more_def)
  next
    case False
    define more where "more = (if policy \<noteq> ''SingleStack'' \<and> length fams = 1 \<and> length configured = 2
       then [alt_family (hd fams)] else [])"
    have ok: "policy = ''RequireDualStack'' \<longrightarrow> \<not> length configured < 2"
        "configured_errors (map family_str configured) (f_families f) = []"
      and f': "f' = f\<lparr>f_families := fams @ more\<rparr>"
      using assms(1) False unfolding finish_families_def Let_def dflt fams_def [symmetric] more_def
      by (auto split: if_splits)
    have "set fams \<subseteq> family_str ` set configured"
      using configured_errors_Nil [OF ok(2)] assms(3) by (auto simp: fams_def hd_map)
    moreover have "alt_family (hd fams) \<in> family_str ` set configured" if "length configured = 2"
      using configured_two [OF assms(2) that] by (auto simp: alt_family_def)
    moreover have "policy = ''RequireDualStack'' \<longrightarrow> length (fams @ more) = 2"
      using ok(1) configured_le_two [OF assms(2)] len by (cases fams) (auto simp: more_def le_Suc_eq)
    ultimately show thesis
      using f' by (intro that [OF _ fams_def, of more]) (auto simp: more_def)
  qed
qed

lemma finish_families_ok:
  assumes "implied_ok f" and "finish_families configured policy f = Inr f'" and "f_policy f = Some policy"
    and "distinct configured" and "configured \<noteq> []"
  shows "families_ok configured f'"
proof -
  have imp: "distinct (f_families f)" "set (f_families f) \<subseteq> {''IPv4'', ''IPv6''}"
    using assms(1) by (auto simp: implied_ok_def)
  obtain fams more where f': "f' = f\<lparr>f_families := fams @ more\<rparr>"
    and fams: "fams = (if f_families f = [] then [hd (map family_str configured)] else f_families f)"
    and more: "more = [] \<or> more = [alt_family (hd fams)] \<and> length fams = 1 \<and> policy \<noteq> ''SingleStack''"
    and req: "policy = ''RequireDualStack'' \<longrightarrow> length (fams @ more) = 2"
    and sub: "f_cluster_ip f = ''None'' \<and> f_selectorless f \<or> set (fams @ more) \<subseteq> family_str ` set configured"
    by (rule finish_families_cases [OF assms(2,4,5) two_families [OF imp] imp(2)])
  have two: "set fams \<subseteq> {''IPv4'', ''IPv6''}" "distinct fams" "fams \<noteq> []"
    using imp assms(5) family_str_cases by (auto simp: fams hd_map)
  have "distinct (fams @ more) \<and> set (fams @ more) \<subseteq> {''IPv4'', ''IPv6''}"
  proof (cases "more = []")
    case False
    then obtain x where "fams = [x]" "more = [alt_family x]" using more by (cases fams) auto
    then show ?thesis using two(1) by (auto simp: alt_family_def)
  qed (use two in simp)
  then have fin: "distinct (fams @ more)" "set (fams @ more) \<subseteq> {''IPv4'', ''IPv6''}" by blast+
  have agree: "i < length (fams @ more) \<and> (fams @ more) ! i = f_families f ! i" if "i < length (f_families f)" for i
    using that by (auto simp: fams nth_append)
  have single: "policy = ''SingleStack'' \<longrightarrow> length (fams @ more) = 1"
  proof
    assume p: "policy = ''SingleStack''"
    then have "length (f_families f) \<le> 1" using assms(1,3) by (simp add: implied_ok_def)
    then have "length fams \<le> 1" by (simp add: fams)
    then show "length (fams @ more) = 1" using more p two(3) by (cases fams) auto
  qed
  have ips: "\<exists>a. parse_ip (f_cluster_ips f ! i) = Some a \<and> ip_to_string a = f_cluster_ips f ! i \<and>
      i < length (fams @ more) \<and> (fams @ more) ! i = family_str (family_of a)"
    if at: "f_cluster_ips f \<noteq> [''None'']" "i < length (f_cluster_ips f)" for i
  proof -
    obtain a where "parse_ip (f_cluster_ips f ! i) = Some a" "ip_to_string a = f_cluster_ips f ! i"
        "i < length (f_families f)" "f_families f ! i = family_str (family_of a)"
      using assms(1) at unfolding implied_ok_def by blast
    then show ?thesis using agree [of i] by simp
  qed
  have pol: "f_policy f \<in> {Some ''SingleStack'', Some ''PreferDualStack'', Some ''RequireDualStack''}"
    and none: "f_cluster_ip f = ''None'' \<Longrightarrow> f_cluster_ips f = [''None'']"
    using assms(1) by (simp_all add: implied_ok_def)
  have "f_cluster_ips f = [''None''] \<and> f_selectorless f \<or> set (fams @ more) \<subseteq> family_str ` set configured"
    using sub none by blast
  then show ?thesis
    unfolding families_ok_def f' using fin single req pol assms(3) two(3) ips by simp
qed

lemma validated_facts:
  assumes "validate_related_fields f None = Some []"
  shows "dup_families (f_families f) = [] \<and> policy_errors (f_policy f) = [] \<and> ip_errors [] (f_cluster_ips f) = [] \<and>
    length (f_cluster_ips f) \<le> 2 \<and>
    (length (f_cluster_ips f) = 2 \<longrightarrow> parse_family (f_cluster_ips f ! 0) \<noteq> parse_family (f_cluster_ips f ! 1)) \<and>
    family_mismatches f = [] \<and> (f_cluster_ip f \<noteq> [] \<longrightarrow> f_cluster_ips f \<noteq> [] \<and> hd (f_cluster_ips f) = f_cluster_ip f)"
proof -
  obtain e1 where e1: "(if f_cluster_ip f = [] then Some []
      else case f_cluster_ips f of [] \<Rightarrow> None | first # _ \<Rightarrow> Some (if first \<noteq> f_cluster_ip f then [FirstMustMatch] else [])) = Some e1"
    and rest: "e1 = []" "dup_families (f_families f) = []" "policy_errors (f_policy f) = []" "ip_errors [] (f_cluster_ips f) = []"
      "\<not> length (f_cluster_ips f) > 2"
      "\<not> (length (f_cluster_ips f) > 1 \<and> (length (f_cluster_ips f) \<noteq> 2 \<or>
          parse_family (f_cluster_ips f ! 0) = parse_family (f_cluster_ips f ! 1)))"
      "family_mismatches f = []"
    using assms unfolding validate_related_fields_def Let_def
    by (auto simp: bind_eq_Some_conv simp del: One_nat_def split: if_splits)
  have "f_cluster_ip f \<noteq> [] \<longrightarrow> f_cluster_ips f \<noteq> [] \<and> hd (f_cluster_ips f) = f_cluster_ip f"
    using e1 rest(1) by (cases "f_cluster_ips f") (auto split: if_splits)
  then show ?thesis using rest by auto
qed

lemma parse_none: "parse_ip ''None'' = None"
proof -
  have "read_groups (Suc k) True ''None'' = ([], False, ''None'')" for k
    by (simp add: read_separator_def read_ipv4_addr_def read_octet_def read_number_stuck to_digit_def)
  from this [of 7] have "read_groups 8 True ''None'' = ([], False, ''None'')" by (simp del: read_groups.simps)
  then show ?thesis by (simp add: parse_eval read_ipv6_addr_def del: read_groups.simps)
qed

lemma implied_ok_create:
  assumes "validate_related_fields f None = Some []" and "single_errors f policy = []"
    and "imply_families configured 0 (f_cluster_ips f) (f_families f) = (fams, [])" and "f_policy f = Some policy"
  shows "implied_ok (f\<lparr>f_families := fams\<rparr>)"
proof -
  note v = validated_facts [OF assms(1)]
  have fams0: "distinct (f_families f)" "set (f_families f) \<subseteq> {''IPv4'', ''IPv6''}"
    using dup_families_Nil [of "f_families f"] v by auto
  have pol: "f_policy f \<in> {Some ''SingleStack'', Some ''PreferDualStack'', Some ''RequireDualStack''}"
    using v assms(4) by (auto simp: policy_errors_def split: if_splits)
  have small: "policy = ''SingleStack'' \<longrightarrow> length (f_cluster_ips f) \<le> 1 \<and> length (f_families f) \<le> 1"
    using assms(2) v two_families [OF fams0] by (auto simp: single_errors_def split: if_splits)
  have none: "f_cluster_ip f = ''None'' \<longrightarrow> f_cluster_ips f = [''None'']"
    using v ip_errors_Nil [of "f_cluster_ips f" 0] by (cases "f_cluster_ips f") (auto simp: parse_none)
  show ?thesis
  proof (cases "f_cluster_ips f = [''None'']")
    case True
    then have "fams = f_families f" using assms(3) by simp
    then show ?thesis using True fams0 pol small none assms(4) by (simp add: implied_ok_def)
  next
    case False
    define g where "g = map ip_family_name (f_cluster_ips f)"
    have parsed: "\<exists>a. parse_ip (f_cluster_ips f ! i) = Some a \<and> ip_to_string a = f_cluster_ips f ! i"
      if "i < length (f_cluster_ips f)" for i
      using ip_errors_Nil [of "f_cluster_ips f" i] that v False by auto
    have nonone: "ip \<noteq> ''None'' \<and> parse_family ip \<noteq> None" if "ip \<in> set (f_cluster_ips f)" for ip
      using that parsed by (metis in_set_conv_nth map_option_is_None option.distinct(1) parse_family_def parse_none)
    have gi: "g ! i = family_str (family_of a)" if "i < length (f_cluster_ips f)" "parse_ip (f_cluster_ips f ! i) = Some a" for i a
      using that by (simp add: g_def ip_family_name_def parse_family_def)
    have agree: "f_families f ! i = g ! i" if at: "i < length (f_families f)" "i < length g" for i
    proof -
      obtain a where a: "parse_ip (f_cluster_ips f ! i) = Some a" using parsed [of i] at by (auto simp: g_def)
      have "f_families f ! i = ''IPv4'' \<or> f_families f ! i = ''IPv6''" using fams0(2) at by (auto dest: nth_mem)
      then show ?thesis
        using family_mismatches_Nil [of f i] v False at a gi [of i a]
        by (cases "family_of a") (auto simp: g_def headless_def parse_family_def)
    qed
    have fams: "fams = (if length (f_families f) \<le> length g then g else f_families f)"
      using imply_families_spec [OF assms(3)] nonone append_drop_agree [of "f_families f" g] agree
      by (simp add: g_def drop_map)
    have lg: "length g \<le> 2" "length g = length (f_cluster_ips f)" using v by (simp_all add: g_def)
    have two: "distinct g"
    proof (cases "length g = 2")
      case True
      obtain a b where ab: "parse_ip (f_cluster_ips f ! 0) = Some a" "parse_ip (f_cluster_ips f ! 1) = Some b"
        using parsed [of 0] parsed [of 1] True lg by (metis One_nat_def lessI numeral_2_eq_2 zero_less_Suc)
      have "family_of a \<noteq> family_of b" using v True lg ab by (auto simp: parse_family_def)
      moreover have "0 < length (f_cluster_ips f)" "1 < length (f_cluster_ips f)" using True lg by simp_all
      ultimately have "g ! 0 \<noteq> g ! 1" using gi [OF _ ab(1)] gi [OF _ ab(2)] by simp
      moreover obtain x y where "g = [x, y]" using True by (metis length_0_conv length_Suc_conv numeral_2_eq_2)
      ultimately show ?thesis by simp
    next
      case False
      then have "length g \<le> 1" using lg by simp
      then show ?thesis by (cases g) auto
    qed
    have "set g \<subseteq> {''IPv4'', ''IPv6''}"
    proof
      fix x assume "x \<in> set g"
      then obtain i where i: "i < length g" "x = g ! i" by (auto simp: in_set_conv_nth)
      then obtain a where "parse_ip (f_cluster_ips f ! i) = Some a" using parsed [of i] lg by auto
      then show "x \<in> {''IPv4'', ''IPv6''}" using gi [of i a] i lg family_str_cases [of "family_of a"] by auto
    qed
    moreover have "i < length fams \<and> fams ! i = g ! i" if "i < length g" for i
      using that agree [of i] by (auto simp: fams)
    ultimately show ?thesis
      using fams0 pol small none assms(4) False two lg parsed gi unfolding implied_ok_def
      by (simp add: fams) metis
  qed
qed

lemma inr_if: "(if P then Inl e else Inr x) = Inr y \<Longrightarrow> y = x"
  by (simp split: if_splits)

lemma finish_shape:
  assumes "finish_families configured policy f = Inr f'"
  shows "\<exists>fams. f' = f\<lparr>f_families := fams\<rparr>"
proof (cases "f_cluster_ip f = ''None'' \<and> f_selectorless f")
  case True
  then show ?thesis using assms unfolding finish_families_def Let_def if_P [OF True] sum.inject by (intro exI) (erule sym)
next
  case False
  then show ?thesis
    using assms unfolding finish_families_def Let_def if_not_P [OF False] by (intro exI) (erule inr_if)
qed

lemma create_simps:
  "patch_allocated f None = f" "prefer_dual_unchanged f None = False" "downgrade f None p = (f, [])"
  by (simp_all add: patch_allocated_def prefer_dual_unchanged_def downgrade_def)

lemma resolve_create_ok:
  assumes "resolve_fields configured None f = Some (Inr f')" and "distinct configured" and "configured \<noteq> []"
  shows "families_ok configured f' \<and> f_cluster_ips f' = f_cluster_ips f \<and> f_selectorless f' = f_selectorless f"
proof -
  define policy where "policy = resolve_policy f None"
  define f2 where "f2 = f\<lparr>f_policy := Some policy\<rparr>"
  obtain fams e3 where imp: "imply_families configured 0 (f_cluster_ips f2) (f_families f2) = (fams, e3)" by fastforce
  have run: "resolve_fields configured None f =
      Option.bind (validate_related_fields f2 None) (\<lambda>errs.
        if errs \<noteq> [] then Some (Inl errs)
        else if single_errors f2 policy @ e3 \<noteq> [] then Some (Inl (single_errors f2 policy @ e3))
        else Some (finish_families configured policy (f2\<lparr>f_families := fams\<rparr>)))"
    unfolding resolve_fields_def Let_def create_simps policy_def [symmetric] f2_def [symmetric] imp prod.case append_Nil if_False ..
  then obtain errs where errs: "validate_related_fields f2 None = Some errs"
    using assms(1) by (cases "validate_related_fields f2 None") auto
  then have v: "validate_related_fields f2 None = Some []" and e: "single_errors f2 policy = []" "e3 = []"
    and fin: "finish_families configured policy (f2\<lparr>f_families := fams\<rparr>) = Inr f'"
    using assms(1) run by (simp_all split: if_splits)
  have pol: "f_policy (f2\<lparr>f_families := fams\<rparr>) = Some policy" by (simp add: f2_def)
  have "implied_ok (f2\<lparr>f_families := fams\<rparr>)"
    using implied_ok_create [OF v e(1)] imp e(2) by (simp add: f2_def)
  then have "families_ok configured f'" using finish_families_ok [OF _ fin pol assms(2,3)] by blast
  moreover have "f_cluster_ips f' = f_cluster_ips f \<and> f_selectorless f' = f_selectorless f"
    using finish_shape [OF fin] by (auto simp: f2_def)
  ultimately show ?thesis by blast
qed

subsection \<open>Properties\<close>

text \<open>C40: a created Service leaves the resolution with consistent address fields. Whatever the client
  sent, if the fields are accepted for a type with addresses, then there is at least one family, every
  family is one of the two and occurs once, the policy is one of the three and agrees with the number of
  families (one for SingleStack, two for RequireDualStack), every clusterIP given is a canonical address
  whose family is the one listed at its index, and every family is configured on the cluster unless the
  Service is headless without a selector.\<close>

theorem families_resolved:
  assumes "init_ip_family_fields configured None spec = Some (Inr spec')"
    and "f_type (read_fields spec) \<noteq> ''ExternalName''"
    and "distinct configured" and "configured \<noteq> []"
  shows "families_ok configured (read_fields spec')"
proof -
  obtain f' where f': "resolve_fields configured None (read_fields spec) = Some (Inr f')"
    and w: "write_fields f' spec = Some spec'"
  proof -
    obtain res where "resolve_fields configured None (read_fields spec) = Some res"
      and "(case res of Inl errs \<Rightarrow> Some (Inl errs) | Inr f' \<Rightarrow> map_option Inr (write_fields f' spec)) = Some (Inr spec')"
      using assms(1,2) by (auto simp: init_ip_family_fields_def Let_def bind_eq_Some_conv)
    then show thesis using that by (cases res) auto
  qed
  note ok = resolve_create_ok [OF f' assms(3,4)]
  obtain p where p: "f_policy f' = Some p" using ok by (auto simp: families_ok_def)
  have ne: "f_families f' \<noteq> []" using ok by (simp add: families_ok_def)
  have eqs: "f_policy (read_fields spec') = f_policy f'" "f_families (read_fields spec') = f_families f'"
    "f_cluster_ips (read_fields spec') = f_cluster_ips f'"
    "f_selectorless (read_fields spec') = f_selectorless f'"
    using read_write_fields [OF w p ne] ok p by auto
  have "families_ok configured f'" using ok by blast
  then show ?thesis unfolding families_ok_def eqs .
qed

definition dual_spec :: json where
  "dual_spec = JObj [(''clusterIP'', JStr ''10.96.0.7''), (''ipFamilyPolicy'', JStr ''PreferDualStack'')]"

theorem families_resolved_witness:
  "\<exists>spec'. init_ip_family_fields [FamV4, FamV6] None dual_spec = Some (Inr spec') \<and>
     families_ok [FamV4, FamV6] (read_fields spec') \<and> f_families (read_fields spec') = [''IPv4'', ''IPv6'']"
proof -
  have ip: "parse_ip ''10.96.0.7'' = Some (V4 0x0A600007)" by (simp add: parse_eval)
  have shown: "ip_to_string (V4 0x0A600007) = ''10.96.0.7''"
    by (simp add: ip_to_string_def octets_def base_digits_def upt_rec show_octets_def radix_str.simps hex_digit_def char_of_def bit_0)
  define g where "g = \<lparr>f_type = ''ClusterIP'', f_cluster_ip = ''10.96.0.7'', f_cluster_ips = [''10.96.0.7''], f_families = [],
      f_policy = Some ''PreferDualStack'', f_selectorless = True\<rparr>"
  have g: "read_fields dual_spec = g"
    by (simp add: g_def dual_spec_def read_fields_def str_or_def str_items_def as_array_def as_object_def
        List.map_filter_def Let_def)
  have r: "resolve_fields [FamV4, FamV6] None g = Some (Inr (g\<lparr>f_families := [''IPv4'', ''IPv6'']\<rparr>))"
    using ip shown
    by (simp add: g_def resolve_fields_def create_simps resolve_policy_def Let_def
        validate_related_fields_def dup_families_def policy_errors_def ip_errors_def family_mismatches_def
        single_errors_def parse_family_def finish_families_def configured_errors_def alt_family_def)
  obtain spec' where w: "write_fields (g\<lparr>f_families := [''IPv4'', ''IPv6'']\<rparr>) dual_spec = Some spec'"
    by (simp add: g_def write_fields_def dual_spec_def json_set_def json_index_mut_def)
  have res: "init_ip_family_fields [FamV4, FamV6] None dual_spec = Some (Inr spec')"
    unfolding init_ip_family_fields_def g Let_def using r w by (simp add: g_def)
  have fams: "f_families (read_fields spec') = [''IPv4'', ''IPv6'']"
    using read_write_fields [OF w] by (simp add: g_def)
  have "families_ok [FamV4, FamV6] (read_fields spec')"
    by (rule families_resolved [OF res]) (simp_all add: g g_def)
  then show ?thesis using res fams by blast
qed

end
