(* ===== verification/Service_Alloc.thy ===== *)
theory Service_Alloc
  imports Service_Families
begin

text \<open>
  \<^verbatim>\<open>crates/apiserver/src/service_alloc.rs\<close>: cluster-wide reservation of clusterIPs, node ports and
  health-check node ports. Every reservation is a create-only sentinel key. A Service write reserves
  what it newly holds (\<^verbatim>\<open>begin\<close>), the write then commits or gives the reservations back, and
  \<^verbatim>\<open>repair\<close> reconciles sentinels with the stored Services at start-up. The code is generic in the
  store, so every operation takes the store's operations as an argument. A \<^verbatim>\<open>BTreeSet\<close> is a
  strictly sorted list.
\<close>

subsection \<open>Transactions\<close>

record alloc_txn =
  tx_created :: "string list"
  tx_stale :: "string list"

definition new_txn :: alloc_txn where
  "new_txn = \<lparr>tx_created = [], tx_stale = []\<rparr>"

definition delete_sentinel :: "('s, 'b) store_impl \<Rightarrow> string \<Rightarrow> 's \<Rightarrow> 's" where
  "delete_sentinel st k s = fst (st_delete st s k None)"

definition txn_commit :: "('s, 'b) store_impl \<Rightarrow> alloc_txn \<Rightarrow> 's \<Rightarrow> 's" where
  "txn_commit st t s = fold (delete_sentinel st) (tx_stale t) s"

definition txn_rollback :: "('s, 'b) store_impl \<Rightarrow> alloc_txn \<Rightarrow> 's \<Rightarrow> 's" where
  "txn_rollback st t s = fold (delete_sentinel st) (tx_created t) s"

text \<open>A transaction that is dropped without a commit frees what it created, as a task of its own.\<close>

definition txn_drop :: "('s, 'b) store_impl \<Rightarrow> alloc_txn \<Rightarrow> 's \<Rightarrow> 's" where
  "txn_drop st t s = (if tx_created t = [] then s else fold (delete_sentinel st) (tx_created t) s)"

record auto_cluster_ip =
  au_ips :: "string list"
  au_txn :: alloc_txn

definition auto_new :: auto_cluster_ip where
  "auto_new = \<lparr>au_ips = [], au_txn = new_txn\<rparr>"

definition auto_push :: "ip_addr \<Rightarrow> auto_cluster_ip \<Rightarrow> auto_cluster_ip" where
  "auto_push ip a =
     (let s = ip_to_string ip in
      a\<lparr>au_txn := (au_txn a)\<lparr>tx_created := tx_created (au_txn a) @ [ip_key s]\<rparr>,
        au_ips := insort_insert s (au_ips a)\<rparr>)"

text \<open>The write runs with its commit; on failure the transaction comes back to the caller.\<close>

definition create_committing ::
    "('s, 'b) store_impl \<Rightarrow> string \<Rightarrow> string \<Rightarrow> 'b \<Rightarrow> alloc_txn \<Rightarrow> 's \<Rightarrow> 's \<times> (create_error \<times> alloc_txn + rev)" where
  "create_committing st ns_key key v t s =
     (case st_create st s (Some ns_key) key v of
        (s', Inr r) \<Rightarrow> (txn_commit st t s', Inr r)
      | (s', Inl e) \<Rightarrow> (s', Inl (e, t)))"

subsection \<open>What a spec holds\<close>

definition node_port_min :: int where "node_port_min = 30000"
definition node_port_max :: int where "node_port_max = 32767"

definition node_port_prefix :: string where
  "node_port_prefix = ''/registry/service-nodeports/''"

definition port_key :: "int \<Rightarrow> string" where
  "port_key p = node_port_prefix @ int_str p"

definition spec_ips :: "json \<Rightarrow> string list" where
  "spec_ips spec =
     (let single = (case as_str (json_idx spec ''clusterIP'') of Some s \<Rightarrow> [s] | None \<Rightarrow> []);
          ips = single @ str_items (json_idx spec ''clusterIPs'')
      in fold insort_insert (filter (\<lambda>ip. ip \<noteq> [] \<and> ip \<noteq> ''None'') ips) [])"

definition nonzero_i64 :: "json \<Rightarrow> int option" where
  "nonzero_i64 v = (case as_i64 v of Some n \<Rightarrow> if n \<noteq> 0 then Some n else None | None \<Rightarrow> None)"

definition ports_of :: "json \<Rightarrow> json list" where
  "ports_of spec = (case as_array (json_idx spec ''ports'') of Some xs \<Rightarrow> xs | None \<Rightarrow> [])"

definition node_port_of :: "json \<Rightarrow> int option" where
  "node_port_of p = nonzero_i64 (json_idx p ''nodePort'')"

definition spec_ports :: "json \<Rightarrow> int list" where
  "spec_ports spec =
     (let ports = fold insort_insert (List.map_filter node_port_of (ports_of spec)) []
      in case nonzero_i64 (json_idx spec ''healthCheckNodePort'') of
           Some h \<Rightarrow> insort_insert h ports
         | None \<Rightarrow> ports)"

definition owner_of :: "string \<Rightarrow> string \<Rightarrow> string" where
  "owner_of ns name = ns @ ''/'' @ name"

definition owned_ip_sentinel :: "string \<Rightarrow> string \<Rightarrow> json" where
  "owned_ip_sentinel ns name = JObj [(''kind'', JStr ''ServiceIPAllocation''), (''owner'', JStr (owner_of ns name))]"

definition sentinel_doc :: json where
  "sentinel_doc = JObj [(''kind'', JStr ''ServiceAllocation'')]"

definition release_service_allocations ::
    "('s, 'b) store_impl \<Rightarrow> ip_config \<Rightarrow> json \<Rightarrow> 's \<Rightarrow> 's" where
  "release_service_allocations st cf spec s =
     fold (\<lambda>p. delete_sentinel st (port_key p)) (spec_ports spec)
       (fold (release_service_ip st cf) (spec_ips spec) s)"

subsection \<open>The reserver\<close>

definition reserve ::
    "'b codec \<Rightarrow> ('s, 'b) store_impl \<Rightarrow> bool \<Rightarrow> string \<Rightarrow> 's \<Rightarrow> alloc_txn \<Rightarrow> 's \<times> alloc_txn \<times> (svc_error + bool)" where
  "reserve c st dry_run key s t =
     (if dry_run then
        (s, t, case st_get st s key of Inr held \<Rightarrow> Inr (held = None) | Inl e \<Rightarrow> Inl (StoreFailed e))
      else
        (case st_put st s key (to_vec c sentinel_doc) (Some 0) of
           (s', Inr _) \<Rightarrow> (s', t\<lparr>tx_created := tx_created t @ [key]\<rparr>, Inr True)
         | (s', Inl e) \<Rightarrow>
             (case e of AlreadyExists _ \<Rightarrow> (s', t, Inr False) | _ \<Rightarrow> (s', t, Inl (StoreFailed e)))))"

definition pre_reserved_for ::
    "'b codec \<Rightarrow> ('s, 'b) store_impl \<Rightarrow> string \<Rightarrow> string \<Rightarrow> string \<Rightarrow> 's \<Rightarrow> svc_error + bool" where
  "pre_reserved_for c st key ns name s =
     (case st_get st s key of
        Inl e \<Rightarrow> Inl (StoreFailed e)
      | Inr held \<Rightarrow>
          Inr (case Option.bind held (\<lambda>ob. from_slice c (so_value ob)) of
                 Some v \<Rightarrow> as_str (json_idx v ''owner'') = Some (owner_of ns name)
               | None \<Rightarrow> False))"

text \<open>Rust's \<^verbatim>\<open>str::parse::<i64>\<close>: an optional sign, at least one digit, no overflow.\<close>

definition parse_i64 :: "string \<Rightarrow> int option" where
  "parse_i64 s =
     (let (neg, t) = (case s of
          ch # r \<Rightarrow> if ch = CHR ''-'' then (True, r) else if ch = CHR ''+'' then (False, r) else (False, s)
        | [] \<Rightarrow> (False, s));
          v = (if neg then - int (digits_val t) else int (digits_val t))
      in if t \<noteq> [] \<and> list_all is_digit t \<and> - (2 ^ 63) \<le> v \<and> v < 2 ^ 63 then Some v else None)"

definition used_ports :: "('s, 'b) store_impl \<Rightarrow> 's \<Rightarrow> svc_error + int list" where
  "used_ports st s =
     (case st_list st s node_port_prefix list_default of
        Inl e \<Rightarrow> Inl (StoreFailed e)
      | Inr resp \<Rightarrow>
          Inr (fold insort_insert
            (List.map_filter (\<lambda>ob. Option.bind (strip_prefix (so_key ob) node_port_prefix) parse_i64) (lr_items resp)) []))"

fun try_ports ::
    "'b codec \<Rightarrow> ('s, 'b) store_impl \<Rightarrow> bool \<Rightarrow> int list \<Rightarrow> int list \<Rightarrow> 's \<Rightarrow> alloc_txn \<Rightarrow>
       's \<times> alloc_txn \<times> (svc_error + int)" where
  "try_ports c st dry avoid [] s t = (s, t, Inl PortRangeFull)"
| "try_ports c st dry avoid (p # ps) s t =
     (if p \<in> set avoid then try_ports c st dry avoid ps s t
      else
        (case reserve c st dry (port_key p) s t of
           (s', t', Inl e) \<Rightarrow> (s', t', Inl e)
         | (s', t', Inr True) \<Rightarrow> (s', t', Inr p)
         | (s', t', Inr False) \<Rightarrow> try_ports c st dry avoid ps s' t'))"

definition allocate_next_port ::
    "'b codec \<Rightarrow> ('s, 'b) store_impl \<Rightarrow> bool \<Rightarrow> int list \<Rightarrow> 's \<Rightarrow> alloc_txn \<Rightarrow> 's \<times> alloc_txn \<times> (svc_error + int)" where
  "allocate_next_port c st dry taken s t =
     (case used_ports st s of
        Inl e \<Rightarrow> (s, t, Inl e)
      | Inr used \<Rightarrow> try_ports c st dry (used @ taken) [node_port_min..node_port_max] s t)"

subsection \<open>Fields that depend on the type\<close>

definition service_type :: "json \<Rightarrow> string" where
  "service_type spec = str_or (json_idx spec ''type'') ''ClusterIP''"

definition strip_node_port :: "json \<Rightarrow> json" where
  "strip_node_port p = (case p of JObj o' \<Rightarrow> JObj (bt_remove ''nodePort'' o') | _ \<Rightarrow> p)"

definition local_traffic :: "json \<Rightarrow> bool" where
  "local_traffic spec =
     (service_type spec = ''LoadBalancer'' \<and> as_str (json_idx spec ''externalTrafficPolicy'') = Some ''Local'')"

definition drop_type_dependent_fields :: "json \<Rightarrow> json option" where
  "drop_type_dependent_fields spec =
     map_option (\<lambda>spec1.
         if local_traffic spec1 then spec1
         else (case spec1 of JObj o' \<Rightarrow> JObj (bt_remove ''healthCheckNodePort'' o') | _ \<Rightarrow> spec1))
       (if service_type spec \<noteq> ''NodePort'' \<and> service_type spec \<noteq> ''LoadBalancer''
        then json_index_mut spec ''ports''
               (\<lambda>v. Some (case v of JArr ps \<Rightarrow> JArr (map strip_node_port ps) | _ \<Rightarrow> v))
        else Some spec)"

subsection \<open>Reserving what a Service needs\<close>

fun reserve_ips ::
    "'b codec \<Rightarrow> ('s, 'b) store_impl \<Rightarrow> ip_config \<Rightarrow> service_ip_allocator \<Rightarrow> bool \<Rightarrow> string \<Rightarrow> string \<Rightarrow> string list \<Rightarrow>
       's \<Rightarrow> alloc_txn \<Rightarrow> 's \<times> alloc_txn \<times> svc_error option" where
  "reserve_ips c st cf primary dry ns name [] s t = (s, t, None)"
| "reserve_ips c st cf primary dry ns name (ip # ips) s t =
     (let parsed = parse_ip ip;
          al = (case Option.bind parsed (\<lambda>a. service_ip_allocator_for cf (family_of a)) of Some al \<Rightarrow> al | None \<Rightarrow> primary)
      in if \<not> (case parsed of Some a \<Rightarrow> contains_host al a | None \<Rightarrow> False) then (s, t, Some (IpNotInRange ip))
         else
           (case reserve c st dry (ip_key ip) s t of
              (s', t', Inl e) \<Rightarrow> (s', t', Some e)
            | (s', t', Inr True) \<Rightarrow> reserve_ips c st cf primary dry ns name ips s' t'
            | (s', t', Inr False) \<Rightarrow>
                (case pre_reserved_for c st (ip_key ip) ns name s' of
                   Inl e \<Rightarrow> (s', t', Some e)
                 | Inr True \<Rightarrow> reserve_ips c st cf primary dry ns name ips s' t'
                 | Inr False \<Rightarrow> (s', t', Some (IpAllocated ip)))))"

definition in_port_range :: "int \<Rightarrow> bool" where
  "in_port_range p = (node_port_min \<le> p \<and> p \<le> node_port_max)"

text \<open>A port that is not held yet: check the range, then reserve it.\<close>

definition reserve_port ::
    "'b codec \<Rightarrow> ('s, 'b) store_impl \<Rightarrow> bool \<Rightarrow> string \<Rightarrow> int \<Rightarrow> 's \<Rightarrow> alloc_txn \<Rightarrow> 's \<times> alloc_txn \<times> svc_error option" where
  "reserve_port c st dry field p s t =
     (if \<not> in_port_range p then (s, t, Some (PortNotInRange field p))
      else
        (case reserve c st dry (port_key p) s t of
           (s', t', Inl e) \<Rightarrow> (s', t', Some e)
         | (s', t', Inr True) \<Rightarrow> (s', t', None)
         | (s', t', Inr False) \<Rightarrow> (s', t', Some (PortAllocated field p))))"

definition port_field :: "nat \<Rightarrow> string" where
  "port_field i = ''spec.ports['' @ nat_str i @ ''].nodePort''"

fun reserve_ports ::
    "'b codec \<Rightarrow> ('s, 'b) store_impl \<Rightarrow> bool \<Rightarrow> int list \<Rightarrow> nat \<Rightarrow> json list \<Rightarrow> int list \<Rightarrow> 's \<Rightarrow> alloc_txn \<Rightarrow>
       's \<times> alloc_txn \<times> (svc_error + int list)" where
  "reserve_ports c st dry old_ports i [] taken s t = (s, t, Inr taken)"
| "reserve_ports c st dry old_ports i (p # ps) taken s t =
     (case node_port_of p of
        None \<Rightarrow> reserve_ports c st dry old_ports (Suc i) ps taken s t
      | Some np \<Rightarrow>
          (if np \<in> set taken \<or> np \<in> set old_ports
           then reserve_ports c st dry old_ports (Suc i) ps (insort_insert np taken) s t
           else
             (case reserve_port c st dry (port_field i) np s t of
                (s', t', Some e) \<Rightarrow> (s', t', Inl e)
              | (s', t', None) \<Rightarrow> reserve_ports c st dry old_ports (Suc i) ps (insort_insert np taken) s' t')))"

definition reserve_health_check ::
    "'b codec \<Rightarrow> ('s, 'b) store_impl \<Rightarrow> bool \<Rightarrow> int list \<Rightarrow> int list \<Rightarrow> json \<Rightarrow> 's \<Rightarrow> alloc_txn \<Rightarrow>
       's \<times> alloc_txn \<times> svc_error option" where
  "reserve_health_check c st dry old_ports taken spec s t =
     (case nonzero_i64 (json_idx spec ''healthCheckNodePort'') of
        Some hc \<Rightarrow>
          (if hc \<in> set old_ports \<or> hc \<in> set taken then (s, t, None)
           else reserve_port c st dry ''spec.healthCheckNodePort'' hc s t)
      | None \<Rightarrow> (s, t, None))"

definition i64_or_zero :: "json \<Rightarrow> int" where
  "i64_or_zero v = (case as_i64 v of Some n \<Rightarrow> n | None \<Rightarrow> 0)"

text \<open>Port numbers that already have a node port; the first one counts.\<close>

definition ports_by_number :: "json list \<Rightarrow> (int \<times> int) list" where
  "ports_by_number ps =
     List.map_filter (\<lambda>p. case (as_i64 (json_idx p ''port''), node_port_of p) of
        (Some n, Some np) \<Rightarrow> Some (n, np) | _ \<Rightarrow> None) ps"

fun assign_ports ::
    "'b codec \<Rightarrow> ('s, 'b) store_impl \<Rightarrow> bool \<Rightarrow> json list \<Rightarrow> int list \<Rightarrow> (int \<times> int) list \<Rightarrow> 's \<Rightarrow> alloc_txn \<Rightarrow>
       's \<times> alloc_txn \<times> (svc_error + json list \<times> int list)" where
  "assign_ports c st dry [] taken by_port s t = (s, t, Inr ([], taken))"
| "assign_ports c st dry (p # ps) taken by_port s t =
     (if i64_or_zero (json_idx p ''nodePort'') \<noteq> 0
      then (case assign_ports c st dry ps taken by_port s t of
              (s', t', Inr (ps', taken')) \<Rightarrow> (s', t', Inr (p # ps', taken'))
            | (s', t', Inl e) \<Rightarrow> (s', t', Inl e))
      else
        (let svc_port = i64_or_zero (json_idx p ''port'');
             put = (\<lambda>np taken1 by_port1 s1 t1.
               case json_set p ''nodePort'' (JInt np) of
                 None \<Rightarrow> (s1, t1, Inl Panicked)
               | Some p' \<Rightarrow>
                   (case assign_ports c st dry ps taken1 by_port1 s1 t1 of
                      (s', t', Inr (ps', taken')) \<Rightarrow> (s', t', Inr (p' # ps', taken'))
                    | (s', t', Inl e) \<Rightarrow> (s', t', Inl e)))
         in case map_of by_port svc_port of
              Some np \<Rightarrow> put np taken by_port s t
            | None \<Rightarrow>
                (case allocate_next_port c st dry taken s t of
                   (s1, t1, Inl e) \<Rightarrow> (s1, t1, Inl e)
                 | (s1, t1, Inr np) \<Rightarrow> put np (insort_insert np taken) ((svc_port, np) # by_port) s1 t1)))"

definition allocates_node_ports :: "json \<Rightarrow> bool" where
  "allocates_node_ports spec =
     (service_type spec = ''NodePort'' \<or>
      service_type spec = ''LoadBalancer'' \<and> as_bool (json_idx spec ''allocateLoadBalancerNodePorts'') \<noteq> Some False)"

text \<open>The clusterIPs; the result lists the keys that become stale.\<close>

definition reserve_cluster_ips ::
    "'b codec \<Rightarrow> ('s, 'b) store_impl \<Rightarrow> ip_config \<Rightarrow> bool \<Rightarrow> string \<Rightarrow> string \<Rightarrow> json \<Rightarrow> json \<Rightarrow> string list \<Rightarrow>
       's \<Rightarrow> alloc_txn \<Rightarrow> 's \<times> alloc_txn \<times> (svc_error + string list)" where
  "reserve_cluster_ips c st cf dry ns name old_spec spec auto_ips s t =
     (case cf_primary cf of
        None \<Rightarrow> (s, t, Inr [])
      | Some primary \<Rightarrow>
          (let new_ips = spec_ips spec; old_ips = spec_ips old_spec in
           case reserve_ips c st cf primary dry ns name
                  (filter (\<lambda>ip. ip \<notin> set old_ips \<and> ip \<notin> set auto_ips) new_ips) s t of
             (s', t', Some e) \<Rightarrow> (s', t', Inl e)
           | (s', t', None) \<Rightarrow> (s', t', Inr (map ip_key (filter (\<lambda>ip. ip \<notin> set new_ips) old_ips)))))"

definition set_ports :: "json \<Rightarrow> json list \<Rightarrow> json option" where
  "set_ports spec ps =
     (case as_array (json_idx spec ''ports'') of Some _ \<Rightarrow> json_set spec ''ports'' (JArr ps) | None \<Rightarrow> Some spec)"

text \<open>Node ports that are unset, then the health-check port; the result is the spec to store.\<close>

definition assign_node_ports ::
    "'b codec \<Rightarrow> ('s, 'b) store_impl \<Rightarrow> bool \<Rightarrow> int list \<Rightarrow> json \<Rightarrow> 's \<Rightarrow> alloc_txn \<Rightarrow> 's \<times> alloc_txn \<times> (svc_error + json \<times> int list)" where
  "assign_node_ports c st dry taken spec s t =
     (if allocates_node_ports spec then
        (case assign_ports c st dry (ports_of spec) taken (ports_by_number (ports_of spec)) s t of
           (s', t', Inl e) \<Rightarrow> (s', t', Inl e)
         | (s', t', Inr (ps, taken')) \<Rightarrow>
             (s', t', case set_ports spec ps of None \<Rightarrow> Inl Panicked | Some spec' \<Rightarrow> Inr (spec', taken')))
      else (s, t, Inr (spec, taken)))"

definition assign_health_check ::
    "'b codec \<Rightarrow> ('s, 'b) store_impl \<Rightarrow> bool \<Rightarrow> int list \<Rightarrow> json \<Rightarrow> 's \<Rightarrow> alloc_txn \<Rightarrow> 's \<times> alloc_txn \<times> (svc_error + json)" where
  "assign_health_check c st dry taken spec s t =
     (if local_traffic spec \<and> i64_or_zero (json_idx spec ''healthCheckNodePort'') = 0 then
        (case allocate_next_port c st dry taken s t of
           (s', t', Inl e) \<Rightarrow> (s', t', Inl e)
         | (s', t', Inr hc) \<Rightarrow>
             (s', t', case json_set spec ''healthCheckNodePort'' (JInt hc) of None \<Rightarrow> Inl Panicked | Some spec' \<Rightarrow> Inr spec'))
      else (s, t, Inr spec))"

definition reserve_node_ports ::
    "'b codec \<Rightarrow> ('s, 'b) store_impl \<Rightarrow> bool \<Rightarrow> int list \<Rightarrow> json \<Rightarrow> 's \<Rightarrow> alloc_txn \<Rightarrow> 's \<times> alloc_txn \<times> (svc_error + json)" where
  "reserve_node_ports c st dry old_ports spec s t =
     (case reserve_ports c st dry old_ports 0 (ports_of spec) [] s t of
        (s1, t1, Inl e) \<Rightarrow> (s1, t1, Inl e)
      | (s1, t1, Inr taken) \<Rightarrow>
          (case reserve_health_check c st dry old_ports taken spec s1 t1 of
             (s2, t2, Some e) \<Rightarrow> (s2, t2, Inl e)
           | (s2, t2, None) \<Rightarrow>
               (case assign_node_ports c st dry taken spec s2 t2 of
                  (s3, t3, Inl e) \<Rightarrow> (s3, t3, Inl e)
                | (s3, t3, Inr (spec', taken')) \<Rightarrow> assign_health_check c st dry taken' spec' s3 t3)))"

definition reserve_all ::
    "'b codec \<Rightarrow> ('s, 'b) store_impl \<Rightarrow> ip_config \<Rightarrow> bool \<Rightarrow> string \<Rightarrow> string \<Rightarrow> json option \<Rightarrow> json \<Rightarrow> string list \<Rightarrow>
       's \<Rightarrow> alloc_txn \<Rightarrow> 's \<times> alloc_txn \<times> (svc_error + json \<times> string list)" where
  "reserve_all c st cf dry ns name old_spec spec auto_ips s t =
     (let old = (case old_spec of Some o' \<Rightarrow> o' | None \<Rightarrow> JNull) in
      case drop_type_dependent_fields spec of
        None \<Rightarrow> (s, t, Inl Panicked)
      | Some spec1 \<Rightarrow>
          (case reserve_cluster_ips c st cf dry ns name old spec1 auto_ips s t of
             (s1, t1, Inl e) \<Rightarrow> (s1, t1, Inl e)
           | (s1, t1, Inr stale) \<Rightarrow>
               (case reserve_node_ports c st dry (spec_ports old) spec1 s1 t1 of
                  (s2, t2, Inl e) \<Rightarrow> (s2, t2, Inl e)
                | (s2, t2, Inr spec2) \<Rightarrow>
                    (s2, t2, Inr (spec2, stale @ map port_key (filter (\<lambda>p. p \<notin> set (spec_ports spec2)) (spec_ports old)))))))"

text \<open>
  \<^verbatim>\<open>begin\<close>: on success the transaction also carries the stale keys and the body its resolved spec;
  on failure the transaction is what the caller drops.
\<close>

definition begin_alloc ::
    "'b codec \<Rightarrow> ('s, 'b) store_impl \<Rightarrow> ip_config \<Rightarrow> bool \<Rightarrow> string \<Rightarrow> string \<Rightarrow> json option \<Rightarrow> json \<Rightarrow>
       auto_cluster_ip option \<Rightarrow> 's \<Rightarrow> 's \<times> alloc_txn \<times> (svc_error + json)" where
  "begin_alloc c st cf dry ns name old_spec body auto s =
     (let (t, auto_ips) = (case auto of Some a \<Rightarrow> (au_txn a, au_ips a) | None \<Rightarrow> (new_txn, [])) in
      if json_set body ''spec'' JNull = None then (s, t, Inl Panicked)
      else
        (case reserve_all c st cf dry ns name old_spec (json_idx body ''spec'') auto_ips s t of
           (s', t', Inl e) \<Rightarrow> (s', t', Inl e)
         | (s', t', Inr (spec', stale)) \<Rightarrow>
             (s', t'\<lparr>tx_stale := stale\<rparr>,
              case json_set body ''spec'' spec' of None \<Rightarrow> Inl Panicked | Some body' \<Rightarrow> Inr body')))"

subsection \<open>Addresses for the slots that have none\<close>

fun allocate_slots ::
    "'b codec \<Rightarrow> ('s, 'b) store_impl \<Rightarrow> ip_config \<Rightarrow> (nat \<Rightarrow> u128) \<Rightarrow> bool \<Rightarrow> (nat \<times> ip_family) list \<Rightarrow> json \<Rightarrow>
       auto_cluster_ip \<Rightarrow> 's \<Rightarrow> 's \<times> auto_cluster_ip \<times> (svc_error + json)" where
  "allocate_slots c st cf random k8s [] spec a s = (s, a, Inr spec)"
| "allocate_slots c st cf random k8s ((idx, fam) # slots) spec a s =
     (case allocate_service_ip c st cf (random idx) fam k8s s of
        (s', Inl e) \<Rightarrow> (s', a, Inl e)
      | (s', Inr None) \<Rightarrow> allocate_slots c st cf random k8s slots spec a s'
      | (s', Inr (Some ip)) \<Rightarrow>
          (case set_cluster_ip spec idx (ip_to_string ip) of
             None \<Rightarrow> (s', auto_push ip a, Inl Panicked)
           | Some spec' \<Rightarrow> allocate_slots c st cf random k8s slots spec' (auto_push ip a) s'))"

text \<open>
  \<^verbatim>\<open>maybe_allocate_cluster_ip\<close> of \<^verbatim>\<open>handlers/resource.rs\<close>, on the spec of the body: the result
  carries the spec with its addresses and the addresses taken for it.
\<close>

definition maybe_allocate_cluster_ip ::
    "'b codec \<Rightarrow> ('s, 'b) store_impl \<Rightarrow> ip_config \<Rightarrow> (nat \<Rightarrow> u128) \<Rightarrow> string \<Rightarrow> string \<Rightarrow> json option \<Rightarrow> json \<Rightarrow> bool \<Rightarrow>
       's \<Rightarrow> 's \<times> auto_cluster_ip \<times> (svc_error + json \<times> auto_cluster_ip option)" where
  "maybe_allocate_cluster_ip c st cf random ns name old_spec spec dry s =
     (if as_str (json_idx spec ''type'') = Some ''ExternalName'' then (s, auto_new, Inr (spec, None))
      else
        (case init_ip_family_fields (service_ip_families cf) old_spec spec of
           None \<Rightarrow> (s, auto_new, Inl Panicked)
         | Some (Inl errs) \<Rightarrow> (s, auto_new, Inl FamilyRejected)
         | Some (Inr spec1) \<Rightarrow>
             (if (case old_spec of Some old \<Rightarrow> validate_ip_fields_update old spec1 \<noteq> [] | None \<Rightarrow> False)
              then (s, auto_new, Inl FamilyRejected)
              else if dry \<or> service_ip_allocators cf = [] then (s, auto_new, Inr (spec1, None))
              else
                (case allocate_slots c st cf random (ns = ''default'' \<and> name = ''kubernetes'')
                        (unallocated_slots spec1) spec1 auto_new s of
                   (s', a, Inl e) \<Rightarrow> (s', a, Inl e)
                 | (s', a, Inr spec2) \<Rightarrow> (s', a, Inr (spec2, if au_ips a = [] then None else Some a))))))"

subsection \<open>Repair\<close>

record repair_report =
  rr_seeded :: nat
  rr_released :: nat
  rr_conflicts :: nat

definition list_sentinels ::
    "'b codec \<Rightarrow> ('s, 'b) store_impl \<Rightarrow> string \<Rightarrow> 's \<Rightarrow> store_error + (string \<times> string option) list" where
  "list_sentinels c st p s =
     (case st_list st s p list_default of
        Inl e \<Rightarrow> Inl e
      | Inr resp \<Rightarrow>
          Inr (fold (\<lambda>ob m. bt_insert (so_key ob)
                 (Option.bind (from_slice c (so_value ob)) (\<lambda>v. as_str (json_idx v ''owner''))) m) (lr_items resp) []))"

definition services_prefix :: string where
  "services_prefix = ''/registry/services/''"

text \<open>The stored Services that parse, each with its \<^verbatim>\<open>namespace/name\<close>.\<close>

definition service_specs :: "'b codec \<Rightarrow> 'b store_object list \<Rightarrow> (string \<times> json) list" where
  "service_specs c items =
     List.map_filter (\<lambda>ob.
       case (strip_prefix (so_key ob) services_prefix, from_slice c (so_value ob)) of
         (Some id', Some svc) \<Rightarrow> Some (id', json_idx svc ''spec'')
       | _ \<Rightarrow> None) items"

definition add_holder :: "string \<Rightarrow> 'k::linorder \<Rightarrow> ('k \<times> string list) list \<Rightarrow> ('k \<times> string list) list" where
  "add_holder id' k m = bt_insert k ((case map_of m k of Some h \<Rightarrow> h | None \<Rightarrow> []) @ [id']) m"

definition holders_of :: "(json \<Rightarrow> 'k::linorder list) \<Rightarrow> (string \<times> json) list \<Rightarrow> ('k \<times> string list) list" where
  "holders_of held specs = fold (\<lambda>(id', spec) m. fold (add_holder id') (held spec) m) specs []"

fun seed_wanted ::
    "'b codec \<Rightarrow> ('s, 'b) store_impl \<Rightarrow> (string \<Rightarrow> string option option) \<Rightarrow> (string \<times> string list) list \<Rightarrow> 's \<Rightarrow> repair_report \<Rightarrow>
       's \<times> (store_error + repair_report)" where
  "seed_wanted c st sentinel [] s rep = (s, Inr rep)"
| "seed_wanted c st sentinel ((key, holders) # ws) s rep =
     (let rep1 = (if length holders > 1 then rep\<lparr>rr_conflicts := Suc (rr_conflicts rep)\<rparr> else rep) in
      case sentinel key of
        None \<Rightarrow>
          (case st_put st s key (to_vec c sentinel_doc) (Some 0) of
             (s', Inr _) \<Rightarrow> seed_wanted c st sentinel ws s' (rep1\<lparr>rr_seeded := Suc (rr_seeded rep1)\<rparr>)
           | (s', Inl e) \<Rightarrow>
               (case e of AlreadyExists _ \<Rightarrow> seed_wanted c st sentinel ws s' rep1 | _ \<Rightarrow> (s', Inl e)))
      | Some (Some owner) \<Rightarrow>
          seed_wanted c st sentinel ws s
            (if owner \<notin> set holders then rep1\<lparr>rr_conflicts := Suc (rr_conflicts rep1)\<rparr> else rep1)
      | Some None \<Rightarrow> seed_wanted c st sentinel ws s rep1)"

definition release_orphans ::
    "('s, 'b) store_impl \<Rightarrow> string set \<Rightarrow> (string \<times> string option) list \<Rightarrow> 's \<times> repair_report \<Rightarrow> 's \<times> repair_report" where
  "release_orphans st wanted_keys sentinels sr =
     fold (\<lambda>(key, owner) (s, rep).
        if owner = None \<and> key \<notin> wanted_keys
        then (delete_sentinel st key s, rep\<lparr>rr_released := Suc (rr_released rep)\<rparr>) else (s, rep)) sentinels sr"

definition repair :: "'b codec \<Rightarrow> ('s, 'b) store_impl \<Rightarrow> 's \<Rightarrow> 's \<times> (store_error + repair_report)" where
  "repair c st s =
     (case st_list st s services_prefix list_default of
        Inl e \<Rightarrow> (s, Inl e)
      | Inr services \<Rightarrow>
          (case list_sentinels c st service_ip_prefix s of
             Inl e \<Rightarrow> (s, Inl e)
           | Inr ip_sentinels \<Rightarrow>
               (case list_sentinels c st node_port_prefix s of
                  Inl e \<Rightarrow> (s, Inl e)
                | Inr port_sentinels \<Rightarrow>
                    (let specs = service_specs c (lr_items services);
                         wanted = map (\<lambda>(ip, h). (ip_key ip, h)) (holders_of spec_ips specs) @
                                  map (\<lambda>(p, h). (port_key p, h)) (holders_of spec_ports specs);
                         sentinel = (\<lambda>k. case map_of ip_sentinels k of Some v \<Rightarrow> Some v | None \<Rightarrow> map_of port_sentinels k)
                     in case seed_wanted c st sentinel wanted s \<lparr>rr_seeded = 0, rr_released = 0, rr_conflicts = 0\<rparr> of
                          (s', Inl e) \<Rightarrow> (s', Inl e)
                        | (s', Inr rep) \<Rightarrow>
                            (let (s'', rep') = release_orphans st (fst ` set wanted) (ip_sentinels @ port_sentinels) (s', rep)
                             in (s'', Inr rep'))))))"

subsection \<open>Reservations only grow the store by what they record\<close>

text \<open>
  Between two states the keys \<open>new\<close> were created as plain sentinels and recorded in the transaction,
  in this order, and nothing else changed.
\<close>

definition plain_doc :: "'b codec \<Rightarrow> 'b store_object \<Rightarrow> bool" where
  "plain_doc c ob = (\<forall>j. from_slice c (so_value ob) = Some j \<longrightarrow> as_str (json_idx j ''owner'') = None)"

definition grown ::
    "'b codec \<Rightarrow> (string \<Rightarrow> 'b store_object option) \<Rightarrow> (string \<Rightarrow> 'b store_object option) \<Rightarrow> string list \<Rightarrow> bool" where
  "grown c m m' new =
     (distinct new \<and> set new \<inter> dom m = {} \<and> dom m' = dom m \<union> set new \<and>
      (\<forall>k \<in> dom m. m' k = m k) \<and> (\<forall>k \<in> set new. \<forall>ob. m' k = Some ob \<longrightarrow> plain_doc c ob))"

definition recorded :: "alloc_txn \<Rightarrow> alloc_txn \<Rightarrow> string list \<Rightarrow> bool" where
  "recorded t t' new = (t' = t\<lparr>tx_created := tx_created t @ new\<rparr>)"

lemma grown_refl [simp]: "grown c m m []"
  by (simp add: grown_def)

lemma recorded_refl [simp]: "recorded t t []"
  by (simp add: recorded_def)

lemma recorded_trans: "recorded t t1 n1 \<Longrightarrow> recorded t1 t2 n2 \<Longrightarrow> recorded t t2 (n1 @ n2)"
  by (auto simp: recorded_def)

lemma grown_trans:
  assumes "grown c m m1 n1" and "grown c m1 m2 n2"
  shows "grown c m m2 (n1 @ n2)"
proof -
  have d1: "distinct n1" "set n1 \<inter> dom m = {}" "dom m1 = dom m \<union> set n1" "\<And>k. k \<in> dom m \<Longrightarrow> m1 k = m k"
    and p1: "\<And>k ob. k \<in> set n1 \<Longrightarrow> m1 k = Some ob \<Longrightarrow> plain_doc c ob"
    using assms(1) by (auto simp: grown_def)
  have d2: "distinct n2" "set n2 \<inter> dom m1 = {}" "dom m2 = dom m1 \<union> set n2" "\<And>k. k \<in> dom m1 \<Longrightarrow> m2 k = m1 k"
    and p2: "\<And>k ob. k \<in> set n2 \<Longrightarrow> m2 k = Some ob \<Longrightarrow> plain_doc c ob"
    using assms(2) by (auto simp: grown_def)
  show ?thesis
    unfolding grown_def
  proof (intro conjI ballI allI impI)
    show "distinct (n1 @ n2)" using d1 d2 by auto
    show "set (n1 @ n2) \<inter> dom m = {}" using d1 d2 by auto
    show "dom m2 = dom m \<union> set (n1 @ n2)" using d1(3) d2(3) by auto
    show "m2 k = m k" if "k \<in> dom m" for k using that d1(3,4) d2(4) by simp
    show "plain_doc c ob" if "k \<in> set (n1 @ n2)" "m2 k = Some ob" for k ob
      using that p1 p2 d1(3) d2(4) by (cases "k \<in> set n1") auto
  qed
qed

lemma plain_sentinel_doc: "stores_doc c k sentinel_doc ob \<Longrightarrow> plain_doc c ob"
  by (auto simp: stores_doc_def plain_doc_def same_outside_metadata_def sentinel_doc_def json_idx_def)

lemma plain_ip_sentinel_doc: "stores_doc c k ip_sentinel_doc ob \<Longrightarrow> plain_doc c ob"
  by (auto simp: stores_doc_def plain_doc_def same_outside_metadata_def ip_sentinel_doc_def json_idx_def)

lemma sentinel_storable: "storable sentinel_doc"
  by (simp add: storable_def sentinel_doc_def bt_wf_def)

lemma grown_one:
  "m k = None \<Longrightarrow> m' = m(k \<mapsto> ob) \<Longrightarrow> plain_doc c ob \<Longrightarrow> grown c m m' [k]"
  by (auto simp: grown_def)

text \<open>No key is an address that was set aside for a named Service.\<close>

definition plain_ips :: "'b codec \<Rightarrow> (string \<Rightarrow> 'b store_object option) \<Rightarrow> bool" where
  "plain_ips c m = (\<forall>ip ob. m (ip_key ip) = Some ob \<longrightarrow> plain_doc c ob)"

lemma plain_ips_grown: "plain_ips c m \<Longrightarrow> grown c m m' new \<Longrightarrow> plain_ips c m'"
  unfolding plain_ips_def grown_def by (metis Un_iff domI)

definition node_ports :: "json list \<Rightarrow> int set" where
  "node_ports ps = set (List.map_filter node_port_of ps)"

lemma node_ports_simps [simp]:
  "node_ports [] = {}"
  "node_ports (p # ps) = (case node_port_of p of Some np \<Rightarrow> insert np (node_ports ps) | None \<Rightarrow> node_ports ps)"
  by (auto simp: node_ports_def List.map_filter_def split: option.splits)

definition ip_served :: "ip_config \<Rightarrow> service_ip_allocator \<Rightarrow> string \<Rightarrow> bool" where
  "ip_served cf primary ip =
     (case parse_ip ip of None \<Rightarrow> False
      | Some a \<Rightarrow> contains_host
          (case Option.bind (parse_ip ip) (\<lambda>a. service_ip_allocator_for cf (family_of a)) of
             None \<Rightarrow> primary | Some al \<Rightarrow> al) a)"

lemma reserve_ips_Cons:
  "reserve_ips c st cf primary dry ns name (ip # ips) s t =
     (if \<not> ip_served cf primary ip then (s, t, Some (IpNotInRange ip))
      else case reserve c st dry (ip_key ip) s t of
        (s', t', Inl e) \<Rightarrow> (s', t', Some e)
      | (s', t', Inr True) \<Rightarrow> reserve_ips c st cf primary dry ns name ips s' t'
      | (s', t', Inr False) \<Rightarrow>
          (case pre_reserved_for c st (ip_key ip) ns name s' of
             Inl e \<Rightarrow> (s', t', Some e)
           | Inr True \<Rightarrow> reserve_ips c st cf primary dry ns name ips s' t'
           | Inr False \<Rightarrow> (s', t', Some (IpAllocated ip))))"
  by (simp add: ip_served_def Let_def)

context object_store
begin

lemma reserve_spec:
  assumes "inv s" and "reserve c st False key s t = (s', t', r)"
  shows "inv s' \<and>
    (r = Inr True \<and> grown c (lookup s) (lookup s') [key] \<and> recorded t t' [key] \<or>
     r = Inr False \<and> s' = s \<and> t' = t \<and> lookup s key \<noteq> None)"
proof (rule put_create_cases [OF assms(1) sentinel_storable, of key])
  fix ob
  assume "lookup s key = Some ob" "st_put st s key (to_vec c sentinel_doc) (Some 0) = (s, Inl (AlreadyExists key))"
  then show ?thesis using assms by (auto simp: reserve_def)
next
  fix s1 r1 ob
  assume "lookup s key = None" "st_put st s key (to_vec c sentinel_doc) (Some 0) = (s1, Inr r1)" "inv s1"
    "lookup s1 = (lookup s)(key \<mapsto> ob)" "stores_doc c key sentinel_doc ob"
  then show ?thesis
    using assms grown_one [of "lookup s" key "lookup s1" ob c] plain_sentinel_doc [of c key ob]
    by (auto simp: reserve_def recorded_def)
qed

lemma reserve_dry: "inv s \<Longrightarrow> reserve c st True key s t = (s, t, Inr (lookup s key = None))"
  by (simp add: reserve_def get_law)

lemma pre_reserved_plain:
  "inv s \<Longrightarrow> plain_ips c (lookup s) \<Longrightarrow> pre_reserved_for c st (ip_key ip) ns name s = Inr False"
  unfolding pre_reserved_for_def get_law plain_ips_def plain_doc_def
  by (cases "lookup s (ip_key ip)") (auto split: option.splits)

lemma reserve_ips_spec:
  "inv s \<Longrightarrow> reserve_ips c st cf primary False ns name ips s t = (s', t', r) \<Longrightarrow>
     inv s' \<and> (\<exists>new. grown c (lookup s) (lookup s') new \<and> recorded t t' new \<and> set new \<subseteq> ip_key ` set ips \<and>
       (plain_ips c (lookup s) \<and> r = None \<longrightarrow> set new = ip_key ` set ips))"
proof (induction ips arbitrary: s t)
  case Nil
  then show ?case by (auto intro!: exI [of _ "[]"])
next
  case (Cons ip ips)
  show ?case
  proof (cases "ip_served cf primary ip")
    case False
    then show ?thesis using Cons.prems unfolding reserve_ips_Cons by (auto intro!: exI [of _ "[]"])
  next
    case True
    obtain s1 t1 r1 where rs: "reserve c st False (ip_key ip) s t = (s1, t1, r1)" by (metis prod_cases3)
    from reserve_spec [OF Cons.prems(1) rs] consider
        (ok) "inv s1" "r1 = Inr True" "grown c (lookup s) (lookup s1) [ip_key ip]" "recorded t t1 [ip_key ip]"
      | (held) "r1 = Inr False" "s1 = s" "t1 = t" by blast
    then show ?thesis
    proof cases
      case ok
      have rest: "reserve_ips c st cf primary False ns name ips s1 t1 = (s', t', r)"
        using Cons.prems(2) True ok(2) unfolding reserve_ips_Cons rs by simp
      obtain new where "inv s'" "grown c (lookup s1) (lookup s') new" "recorded t1 t' new"
          "set new \<subseteq> ip_key ` set ips" "plain_ips c (lookup s1) \<and> r = None \<longrightarrow> set new = ip_key ` set ips"
        using Cons.IH [OF ok(1) rest] by blast
      then show ?thesis
        using grown_trans [OF ok(3)] recorded_trans [OF ok(4)] plain_ips_grown [OF _ ok(3)]
        by (intro conjI exI [of _ "[ip_key ip] @ new"]) auto
    next
      case held
      show ?thesis
      proof (cases "pre_reserved_for c st (ip_key ip) ns name s = Inr True")
        case claimed: True
        then have rest: "reserve_ips c st cf primary False ns name ips s t = (s', t', r)"
          using Cons.prems(2) True held unfolding reserve_ips_Cons rs by simp
        have "\<not> plain_ips c (lookup s)"
          using pre_reserved_plain [OF Cons.prems(1), of ip ns name] claimed by auto
        then show ?thesis using Cons.IH [OF Cons.prems(1) rest] by auto
      next
        case False
        then show ?thesis
          using Cons.prems True held unfolding reserve_ips_Cons rs
          by (auto split: sum.splits bool.splits intro!: exI [of _ "[]"])
      qed
    qed
  qed
qed

end

definition took ::
    "'b codec \<Rightarrow> (string \<Rightarrow> 'b store_object option) \<Rightarrow> alloc_txn \<Rightarrow> (string \<Rightarrow> 'b store_object option) \<Rightarrow> alloc_txn \<Rightarrow>
       string list \<Rightarrow> bool" where
  "took c m t m' t' new = (grown c m m' new \<and> recorded t t' new)"

lemma took_refl [simp]: "took c m t m t []"
  by (simp add: took_def)

lemma took_trans: "took c m t m1 t1 n1 \<Longrightarrow> took c m1 t1 m2 t2 n2 \<Longrightarrow> took c m t m2 t2 (n1 @ n2)"
  by (auto simp: took_def intro: grown_trans recorded_trans)

definition valid_port :: "int \<Rightarrow> bool" where
  "valid_port p = (p \<noteq> 0 \<and> - (2 ^ 63) \<le> p \<and> p < 2 ^ 63)"

lemma node_port_valid: "node_port_of p = Some np \<Longrightarrow> valid_port np"
  by (auto simp: node_port_of_def nonzero_i64_def as_i64_def valid_port_def split: option.splits json.splits if_splits)

lemma node_port_of_set: "json_set p ''nodePort'' (JInt np) = Some p' \<Longrightarrow> valid_port np \<Longrightarrow> node_port_of p' = Some np"
  by (auto simp: node_port_of_def nonzero_i64_def as_i64_def valid_port_def json_set_idx)

lemma node_port_of_zero: "i64_or_zero (json_idx p ''nodePort'') = 0 \<longleftrightarrow> node_port_of p = None"
  by (auto simp: node_port_of_def nonzero_i64_def i64_or_zero_def split: option.splits)

lemma in_range_valid: "p \<in> set [node_port_min..node_port_max] \<Longrightarrow> valid_port p"
  unfolding set_upto by (simp add: node_port_min_def node_port_max_def valid_port_def)

text \<open>What looking for a free port among \<open>ps\<close> gives: the first one that is neither avoided nor held.\<close>

definition first_free :: "int list \<Rightarrow> (int \<Rightarrow> bool) \<Rightarrow> int \<Rightarrow> bool" where
  "first_free ps held p = (\<exists>ps1 ps2. ps = ps1 @ p # ps2 \<and> \<not> held p \<and> list_all held ps1)"

lemma first_free_Cons: "first_free (q # ps) held p \<longleftrightarrow> (if held q then first_free ps held p else p = q)"
proof (cases "held q")
  case True
  have "first_free (q # ps) held p" if "first_free ps held p"
    using that True unfolding first_free_def by (metis append_Cons list.pred_inject(2))
  moreover have "first_free ps held p" if "first_free (q # ps) held p"
    using that True unfolding first_free_def by (auto simp: Cons_eq_append_conv)
  ultimately show ?thesis using True by auto
next
  case False
  then show ?thesis unfolding first_free_def by (auto simp: Cons_eq_append_conv)
qed

context object_store
begin

lemma try_ports_spec:
  "inv s \<Longrightarrow> try_ports c st False avoid ps s t = (s', t', r) \<Longrightarrow>
     inv s' \<and>
     (case r of
        Inr p \<Rightarrow> first_free ps (\<lambda>q. q \<in> set avoid \<or> lookup s (port_key q) \<noteq> None) p \<and>
          took c (lookup s) t (lookup s') t' [port_key p]
      | Inl e \<Rightarrow> e = PortRangeFull \<and> s' = s \<and> t' = t \<and>
          list_all (\<lambda>q. q \<in> set avoid \<or> lookup s (port_key q) \<noteq> None) ps)"
proof (induction ps arbitrary: s t)
  case Nil
  then show ?case by auto
next
  case (Cons p ps)
  show ?case
  proof (cases "p \<in> set avoid")
    case True
    then show ?thesis using Cons.IH [of s t] Cons.prems by (cases r) (simp_all add: first_free_Cons)
  next
    case False
    obtain s1 t1 r1 where rs: "reserve c st False (port_key p) s t = (s1, t1, r1)" by (metis prod_cases3)
    from reserve_spec [OF Cons.prems(1) rs] consider
        (ok) "inv s1" "r1 = Inr True" "took c (lookup s) t (lookup s1) t1 [port_key p]"
      | (held) "r1 = Inr False" "s1 = s" "t1 = t" "lookup s (port_key p) \<noteq> None" unfolding took_def by blast
    then show ?thesis
    proof cases
      case ok
      then have "lookup s (port_key p) = None" by (auto simp: took_def grown_def)
      then show ?thesis using Cons.prems(2) False rs ok by (auto simp: first_free_Cons)
    next
      case held
      then show ?thesis using Cons.IH [of s t] Cons.prems False rs by (cases r) (simp_all add: first_free_Cons)
    qed
  qed
qed

lemma reserve_port_spec:
  assumes "inv s" and "reserve_port c st False f p s t = (s', t', r)"
  shows "inv s' \<and> (r = None \<and> in_port_range p \<and> took c (lookup s) t (lookup s') t' [port_key p] \<or> (\<exists>e. r = Some e) \<and> s' = s \<and> t' = t)"
proof (cases "in_port_range p")
  case True
  obtain s1 t1 r1 where rs: "reserve c st False (port_key p) s t = (s1, t1, r1)" by (metis prod_cases3)
  show ?thesis
    using reserve_spec [OF assms(1) rs] assms(2) True unfolding reserve_port_def rs took_def by auto
qed (use assms in \<open>auto simp: reserve_port_def\<close>)

lemma reserve_ports_spec:
  "inv s \<Longrightarrow> reserve_ports c st False old i ps taken s t = (s', t', r) \<Longrightarrow>
     inv s' \<and> (\<exists>new. took c (lookup s) t (lookup s') t' new \<and>
       (\<forall>taken'. r = Inr taken' \<longrightarrow> set taken' = set taken \<union> node_ports ps \<and>
          set new = port_key ` (node_ports ps - set old - set taken)))"
proof (induction ps arbitrary: s t i taken)
  case Nil
  then show ?case by (auto intro!: exI [of _ "[]"])
next
  case (Cons p ps)
  show ?case
  proof (cases "node_port_of p")
    case None
    then show ?thesis using Cons.IH [of s "Suc i" taken t] Cons.prems by simp
  next
    case (Some np)
    show ?thesis
    proof (cases "np \<in> set taken \<or> np \<in> set old")
      case True
      then have "reserve_ports c st False old (Suc i) ps (insort_insert np taken) s t = (s', t', r)"
        using Cons.prems(2) Some by simp
      from Cons.IH [OF Cons.prems(1) this] show ?thesis
        using True Some by (elim conjE exE, intro conjI exI) (auto simp: set_insort_insert)
    next
      case False
      obtain s1 t1 r1 where rp: "reserve_port c st False (port_field i) np s t = (s1, t1, r1)" by (metis prod_cases3)
      from reserve_port_spec [OF Cons.prems(1) rp] consider
          (ok) "inv s1" "r1 = None" "took c (lookup s) t (lookup s1) t1 [port_key np]"
        | (err) e where "r1 = Some e" "s1 = s" "t1 = t" by blast
      then show ?thesis
      proof cases
        case ok
        then have "reserve_ports c st False old (Suc i) ps (insort_insert np taken) s1 t1 = (s', t', r)"
          using Cons.prems(2) Some False rp by simp
        from Cons.IH [OF ok(1) this] obtain new where "inv s'" "took c (lookup s1) t1 (lookup s') t' new"
            and new: "\<And>tk. r = Inr tk \<Longrightarrow> set tk = insert np (set taken) \<union> node_ports ps \<and>
                 set new = port_key ` (node_ports ps - set old - insert np (set taken))"
          by (auto simp: set_insort_insert)
        then show ?thesis
          using took_trans [OF ok(3)] False Some
          by (intro conjI exI [of _ "[port_key np] @ new"]) (auto dest!: new)
      next
        case err
        then show ?thesis using Cons.prems Some False rp by (auto intro!: exI [of _ "[]"])
      qed
    qed
  qed
qed

end

text \<open>Every key under the node-port prefix is the key of a port, as \<^const>\<open>port_key\<close> spells it.\<close>

definition port_keys_ok :: "(string \<Rightarrow> 'b store_object option) \<Rightarrow> bool" where
  "port_keys_ok m = (\<forall>k ob. m k = Some ob \<and> starts_with k node_port_prefix \<longrightarrow> (\<exists>p. k = port_key p))"

lemma parse_i64_int_str: "parse_i64 (int_str p) = (if - (2 ^ 63) \<le> p \<and> p < 2 ^ 63 then Some p else None)"
proof (cases "p < 0")
  case True
  then show ?thesis
    by (auto simp: parse_i64_def int_str_def digits_val_nat_str nat_str_digits nat_le_iff)
next
  case False
  obtain ch r where nr: "nat_str (nat p) = ch # r" by (cases "nat_str (nat p)") auto
  then have "is_digit ch" using nat_str_digits [of "nat p"] by simp
  then have "ch \<noteq> CHR ''-''" "ch \<noteq> CHR ''+''" by (auto simp: is_digit_def)
  then have "parse_i64 (nat_str (nat p)) =
      (let v = int (digits_val (nat_str (nat p)))
       in if list_all is_digit (nat_str (nat p)) \<and> - (2 ^ 63) \<le> v \<and> v < 2 ^ 63 then Some v else None)"
    by (simp add: parse_i64_def nr)
  then show ?thesis using False by (simp add: int_str_def digits_val_nat_str nat_str_digits)
qed

lemma port_key_inject [simp]: "port_key p = port_key q \<longleftrightarrow> p = q"
  by (simp add: port_key_def)

lemma ip_key_inject [simp]: "ip_key a = ip_key b \<longleftrightarrow> a = b"
  by (simp add: ip_key_def)

lemma ip_key_not_port_key [simp]: "ip_key a \<noteq> port_key p" "port_key p \<noteq> ip_key a"
  by (auto simp: ip_key_def port_key_def service_ip_prefix_def node_port_prefix_def)

lemma node_port_prefix_listable: "listable_prefix node_port_prefix"
  by code_simp

context object_store
begin

lemma used_ports_spec:
  assumes "inv s"
  obtains used where "used_ports st s = Inr used"
    "set used = {p. \<exists>k r ob. lookup s k = Some ob \<and> k = node_port_prefix @ r \<and> parse_i64 r = Some p}"
proof -
  obtain resp where r: "st_list st s node_port_prefix list_default = Inr resp"
    and items: "set (lr_items resp) = {ob. \<exists>k. lookup s k = Some ob \<and> starts_with k node_port_prefix}"
    using list_law [OF assms node_port_prefix_listable] by blast
  define f where "f = (\<lambda>ob :: 'b store_object. Option.bind (strip_prefix (so_key ob) node_port_prefix) parse_i64)"
  have "set (List.map_filter f (lr_items resp)) = {p. \<exists>ob k. lookup s k = Some ob \<and> starts_with k node_port_prefix \<and> f ob = Some p}"
    unfolding set_map_filter items by blast
  also have "\<dots> = {p. \<exists>k r ob. lookup s k = Some ob \<and> k = node_port_prefix @ r \<and> parse_i64 r = Some p}"
    using lookup_key [OF assms] by (fastforce simp: f_def strip_prefix_Some_iff bind_eq_Some_conv)
  finally show ?thesis
    using that r by (simp add: used_ports_def f_def set_fold_insort_insert)
qed

lemma used_ports_canonical:
  assumes "inv s" and "port_keys_ok (lookup s)"
  obtains used where "used_ports st s = Inr used" "\<And>p. valid_port p \<Longrightarrow> p \<in> set used \<longleftrightarrow> lookup s (port_key p) \<noteq> None"
proof (rule used_ports_spec [OF assms(1)])
  fix used
  assume u: "used_ports st s = Inr used"
    and set: "set used = {p. \<exists>k r ob. lookup s k = Some ob \<and> k = node_port_prefix @ r \<and> parse_i64 r = Some p}"
  have "p \<in> set used \<longleftrightarrow> lookup s (port_key p) \<noteq> None" if v: "valid_port p" for p
  proof
    assume "p \<in> set used"
    then obtain r ob where r: "lookup s (node_port_prefix @ r) = Some ob" "parse_i64 r = Some p" unfolding set by blast
    then obtain q where "node_port_prefix @ r = port_key q"
      using assms(2) unfolding port_keys_ok_def by (meson starts_with_append)
    then show "lookup s (port_key p) \<noteq> None" using r by (auto simp: port_key_def parse_i64_int_str split: if_splits)
  next
    assume "lookup s (port_key p) \<noteq> None"
    then show "p \<in> set used"
      unfolding set port_key_def using parse_i64_int_str [of p] v by (auto simp: valid_port_def)
  qed
  then show ?thesis using that u by blast
qed

end

text \<open>The node ports of the resolved ports: those that were there, those copied from a port with the same number, those taken.\<close>

definition ports_resolved :: "json list \<Rightarrow> (int \<times> int) list \<Rightarrow> json list \<Rightarrow> int list \<Rightarrow> bool" where
  "ports_resolved ps by_port ps' fresh =
     (node_ports ps \<union> set fresh \<subseteq> node_ports ps' \<and> node_ports ps' \<subseteq> node_ports ps \<union> snd ` set by_port \<union> set fresh \<and>
      list_all (\<lambda>p. node_port_of p \<noteq> None) ps')"

lemma ports_resolved_keep:
  "node_port_of p = Some np \<Longrightarrow> ports_resolved ps by_port ps' fresh \<Longrightarrow> ports_resolved (p # ps) by_port (p # ps') fresh"
  by (auto simp: ports_resolved_def)

lemma ports_resolved_copy:
  "node_port_of p = None \<Longrightarrow> node_port_of p' = Some np \<Longrightarrow> np \<in> snd ` set by_port \<Longrightarrow>
     ports_resolved ps by_port ps' fresh \<Longrightarrow> ports_resolved (p # ps) by_port (p' # ps') fresh"
  by (auto simp: ports_resolved_def)

lemma ports_resolved_fresh:
  "node_port_of p = None \<Longrightarrow> node_port_of p' = Some np \<Longrightarrow>
     ports_resolved ps ((n, np) # by_port) ps' fresh \<Longrightarrow> ports_resolved (p # ps) by_port (p' # ps') (np # fresh)"
  by (auto simp: ports_resolved_def)

definition assign_rest ::
    "'b codec \<Rightarrow> ('s, 'b) store_impl \<Rightarrow> bool \<Rightarrow> json \<Rightarrow> json list \<Rightarrow> int \<Rightarrow> int list \<Rightarrow> (int \<times> int) list \<Rightarrow> 's \<Rightarrow> alloc_txn \<Rightarrow>
       's \<times> alloc_txn \<times> (svc_error + json list \<times> int list)" where
  "assign_rest c st dry p ps np taken by_port s t =
     (case json_set p ''nodePort'' (JInt np) of
        None \<Rightarrow> (s, t, Inl Panicked)
      | Some p' \<Rightarrow>
          (case assign_ports c st dry ps taken by_port s t of
             (s', t', Inr (ps', taken')) \<Rightarrow> (s', t', Inr (p' # ps', taken'))
           | (s', t', Inl e) \<Rightarrow> (s', t', Inl e)))"

lemma assign_ports_Cons:
  "assign_ports c st dry (p # ps) taken by_port s t =
     (if node_port_of p \<noteq> None
      then (case assign_ports c st dry ps taken by_port s t of
              (s', t', Inr (ps', taken')) \<Rightarrow> (s', t', Inr (p # ps', taken'))
            | (s', t', Inl e) \<Rightarrow> (s', t', Inl e))
      else (case map_of by_port (i64_or_zero (json_idx p ''port'')) of
              Some np \<Rightarrow> assign_rest c st dry p ps np taken by_port s t
            | None \<Rightarrow>
                (case allocate_next_port c st dry taken s t of
                   (s1, t1, Inl e) \<Rightarrow> (s1, t1, Inl e)
                 | (s1, t1, Inr np) \<Rightarrow>
                     assign_rest c st dry p ps np (insort_insert np taken) ((i64_or_zero (json_idx p ''port''), np) # by_port) s1 t1)))"
  unfolding assign_ports.simps Let_def assign_rest_def node_port_of_zero ..

context object_store
begin

lemma allocate_next_port_takes:
  assumes "inv s" and "allocate_next_port c st False taken s t = (s', t', r)"
  shows "inv s' \<and> (case r of
       Inr p \<Rightarrow> valid_port p \<and> p \<notin> set taken \<and> took c (lookup s) t (lookup s') t' [port_key p]
     | Inl e \<Rightarrow> s' = s \<and> t' = t)"
proof (rule used_ports_spec [OF assms(1)])
  fix used
  assume u: "used_ports st s = Inr used"
  have tp: "try_ports c st False (used @ taken) [node_port_min..node_port_max] s t = (s', t', r)"
    using assms(2) unfolding allocate_next_port_def u by simp
  have free: "valid_port p \<and> p \<notin> set taken"
    if "first_free [node_port_min..node_port_max] (\<lambda>q. q \<in> set (used @ taken) \<or> lookup s (port_key q) \<noteq> None) p" for p
  proof -
    from that have "p \<in> set [node_port_min..node_port_max]" "p \<notin> set (used @ taken)"
      unfolding first_free_def by (elim exE conjE, simp)+
    then show ?thesis using in_range_valid [of p] by simp
  qed
  show ?thesis
    using try_ports_spec [OF assms(1) tp] assms(1) free by (cases r) simp_all
qed

lemma assign_rest_spec:
  assumes IH: "\<And>s' t' r. assign_ports c st False ps taken by_port s t = (s', t', r) \<Longrightarrow>
     inv s' \<and> (\<exists>fresh. took c (lookup s) t (lookup s') t' (map port_key fresh) \<and>
       (\<forall>ps' taken'. r = Inr (ps', taken') \<longrightarrow> ports_resolved ps by_port ps' fresh \<and> set taken' = set taken \<union> set fresh))"
    and "inv s" and "valid_port np" and "assign_rest c st False p ps np taken by_port s t = (s', t', r)"
  shows "inv s' \<and> (\<exists>fresh. took c (lookup s) t (lookup s') t' (map port_key fresh) \<and>
     (\<forall>ps' taken'. r = Inr (ps', taken') \<longrightarrow>
        (\<exists>p' ps''. ps' = p' # ps'' \<and> node_port_of p' = Some np \<and> ports_resolved ps by_port ps'' fresh) \<and>
        set taken' = set taken \<union> set fresh))"
proof (cases "json_set p ''nodePort'' (JInt np)")
  case None
  then show ?thesis using assms(2,4) by (auto simp: assign_rest_def intro!: exI [of _ "[]"])
next
  case (Some p')
  obtain s1 t1 r1 where a: "assign_ports c st False ps taken by_port s t = (s1, t1, r1)" by (metis prod_cases3)
  have eqs: "s' = s1" "t' = t1"
    and r: "\<And>ps' taken'. r = Inr (ps', taken') \<Longrightarrow> \<exists>ps''. ps' = p' # ps'' \<and> r1 = Inr (ps'', taken')"
    using assms(4) Some a by (auto simp: assign_rest_def split: sum.splits)
  obtain fresh where f: "inv s1" "took c (lookup s) t (lookup s1) t1 (map port_key fresh)"
      and g: "\<And>ps' taken'. r1 = Inr (ps', taken') \<Longrightarrow> ports_resolved ps by_port ps' fresh \<and> set taken' = set taken \<union> set fresh"
    using IH [OF a] by blast
  show ?thesis
  proof (intro conjI exI [of _ fresh] allI impI)
    fix ps' taken'
    assume "r = Inr (ps', taken')"
    then obtain ps'' where ps': "ps' = p' # ps''" "r1 = Inr (ps'', taken')" using r by blast
    show "\<exists>p' ps''. ps' = p' # ps'' \<and> node_port_of p' = Some np \<and> ports_resolved ps by_port ps'' fresh"
      using ps'(1) g [OF ps'(2)] node_port_of_set [OF Some assms(3)] by blast
    show "set taken' = set taken \<union> set fresh" using g [OF ps'(2)] by blast
  qed (use f eqs in simp_all)
qed

lemma assign_ports_spec:
  "inv s \<Longrightarrow> \<forall>e \<in> set by_port. valid_port (snd e) \<Longrightarrow> assign_ports c st False ps taken by_port s t = (s', t', r) \<Longrightarrow>
     inv s' \<and> (\<exists>fresh. took c (lookup s) t (lookup s') t' (map port_key fresh) \<and>
       (\<forall>ps' taken'. r = Inr (ps', taken') \<longrightarrow> ports_resolved ps by_port ps' fresh \<and> set taken' = set taken \<union> set fresh))"
proof (induction ps arbitrary: s t s' t' r taken by_port)
  case Nil
  then show ?case by (auto simp: ports_resolved_def intro!: exI [of _ "[]"])
next
  case (Cons p ps)
  show ?case
  proof (cases "node_port_of p")
    case (Some np)
    obtain s1 t1 r1 where a: "assign_ports c st False ps taken by_port s t = (s1, t1, r1)" by (metis prod_cases3)
    have eqs: "s' = s1" "t' = t1"
    and r: "\<And>ps' taken'. r = Inr (ps', taken') \<Longrightarrow> \<exists>ps''. ps' = p # ps'' \<and> r1 = Inr (ps'', taken')"
      using Cons.prems(3) Some a unfolding assign_ports_Cons by (auto split: sum.splits)
    obtain fresh where f: "inv s1" "took c (lookup s) t (lookup s1) t1 (map port_key fresh)"
        and g: "\<And>ps' taken'. r1 = Inr (ps', taken') \<Longrightarrow> ports_resolved ps by_port ps' fresh \<and> set taken' = set taken \<union> set fresh"
      using Cons.IH [OF Cons.prems(1,2) a] by blast
    show ?thesis
    proof (intro conjI exI [of _ fresh] allI impI)
      fix ps' taken'
      assume "r = Inr (ps', taken')"
      then obtain ps'' where ps': "ps' = p # ps''" "r1 = Inr (ps'', taken')" using r by blast
      show "ports_resolved (p # ps) by_port ps' fresh"
        using ps'(1) g [OF ps'(2)] ports_resolved_keep [OF Some] by blast
      show "set taken' = set taken \<union> set fresh" using g [OF ps'(2)] by blast
    qed (use f eqs in simp_all)
  next
    case None
    let ?n = "i64_or_zero (json_idx p ''port'')"
    show ?thesis
    proof (cases "map_of by_port ?n")
      case (Some np)
      then have mem: "(?n, np) \<in> set by_port" by (rule map_of_SomeD)
      have "assign_rest c st False p ps np taken by_port s t = (s', t', r)"
        using Cons.prems(3) None Some unfolding assign_ports_Cons by simp
      from assign_rest_spec [OF Cons.IH [OF Cons.prems(1,2)] Cons.prems(1) _ this] obtain fs where
          "inv s'" and tk: "took c (lookup s) t (lookup s') t' (map port_key fs)"
          and res: "\<And>ps' taken'. r = Inr (ps', taken') \<Longrightarrow>
            (\<exists>p' ps''. ps' = p' # ps'' \<and> node_port_of p' = Some np \<and> ports_resolved ps by_port ps'' fs) \<and>
            set taken' = set taken \<union> set fs"
        using Cons.prems(2) mem by fastforce
      then show ?thesis
        using ports_resolved_copy [OF None, of _ np by_port ps] image_eqI [OF _ mem, of np snd]
        by (intro conjI exI [of _ fs]) (auto dest!: res)
    next
      case fresh: None
      obtain s1 t1 r1 where a: "allocate_next_port c st False taken s t = (s1, t1, r1)" by (metis prod_cases3)
      show ?thesis
      proof (cases r1)
        case (Inl e)
        then show ?thesis
          using allocate_next_port_takes [OF Cons.prems(1) a] Cons.prems(3) None fresh a
          unfolding assign_ports_Cons by (auto intro!: exI [of _ "[]"])
      next
        case (Inr np)
        have al: "inv s1" "valid_port np" "took c (lookup s) t (lookup s1) t1 [port_key np]"
          using allocate_next_port_takes [OF Cons.prems(1) a] Inr by auto
        have rest: "assign_rest c st False p ps np (insort_insert np taken) ((?n, np) # by_port) s1 t1 = (s', t', r)"
          using Cons.prems(3) None fresh a Inr unfolding assign_ports_Cons by simp
        have bp: "\<forall>e \<in> set ((?n, np) # by_port). valid_port (snd e)" using Cons.prems(2) al(2) by simp
        from assign_rest_spec [OF Cons.IH [OF al(1) bp] al(1,2) rest] obtain fs where
            "inv s'" and tk: "took c (lookup s1) t1 (lookup s') t' (map port_key fs)"
            and res: "\<And>ps' taken'. r = Inr (ps', taken') \<Longrightarrow>
              (\<exists>p' ps''. ps' = p' # ps'' \<and> node_port_of p' = Some np \<and> ports_resolved ps ((?n, np) # by_port) ps'' fs) \<and>
              set taken' = set (insort_insert np taken) \<union> set fs"
          by blast
        then show ?thesis
          using took_trans [OF al(3) tk] ports_resolved_fresh [OF None, of _ np ps ?n by_port]
          by (intro conjI exI [of _ "np # fs"]) (auto simp: set_insort_insert dest!: res)
      qed
    qed
  qed
qed

end

definition hc_ports :: "json \<Rightarrow> int set" where
  "hc_ports spec = set_option (nonzero_i64 (json_idx spec ''healthCheckNodePort''))"

lemma set_spec_ports: "set (spec_ports spec) = node_ports (ports_of spec) \<union> hc_ports spec"
  by (auto simp: spec_ports_def node_ports_def hc_ports_def Let_def set_insort_insert split: option.splits)

lemma hc_ports_cong: "json_idx s1 ''healthCheckNodePort'' = json_idx s2 ''healthCheckNodePort'' \<Longrightarrow> hc_ports s1 = hc_ports s2"
  by (simp add: hc_ports_def)

lemma ports_of_cong: "json_idx s1 ''ports'' = json_idx s2 ''ports'' \<Longrightarrow> ports_of s1 = ports_of s2"
  by (simp add: ports_of_def)

lemma hc_ports_zero: "i64_or_zero (json_idx spec ''healthCheckNodePort'') = 0 \<Longrightarrow> hc_ports spec = {}"
  by (auto simp: hc_ports_def nonzero_i64_def i64_or_zero_def split: option.splits)

lemma hc_ports_set: "json_set spec ''healthCheckNodePort'' (JInt p) = Some spec' \<Longrightarrow> valid_port p \<Longrightarrow> hc_ports spec' = {p}"
  by (simp add: hc_ports_def json_set_idx nonzero_i64_def as_i64_def valid_port_def)

lemma ports_by_number_subset: "snd ` set (ports_by_number ps) \<subseteq> node_ports ps"
  by (force simp: ports_by_number_def node_ports_def set_map_filter split: option.splits)

lemma node_ports_valid: "np \<in> node_ports ps \<Longrightarrow> valid_port np"
  by (auto simp: node_ports_def set_map_filter dest: node_port_valid)

context object_store
begin

lemma assign_node_ports_spec:
  assumes "inv s" and "assign_node_ports c st False taken spec s t = (s', t', r)"
  shows "inv s' \<and> (\<exists>fresh. took c (lookup s) t (lookup s') t' (map port_key fresh) \<and>
     (\<forall>spec' taken'. r = Inr (spec', taken') \<longrightarrow>
        node_ports (ports_of spec') = node_ports (ports_of spec) \<union> set fresh \<and> set taken' = set taken \<union> set fresh \<and>
        (\<forall>k. k \<noteq> ''ports'' \<longrightarrow> json_idx spec' k = json_idx spec k)))"
proof (cases "allocates_node_ports spec")
  case True
  obtain s1 t1 r1 where a: "assign_ports c st False (ports_of spec) taken (ports_by_number (ports_of spec)) s t = (s1, t1, r1)"
    by (metis prod_cases3)
  have sub: "snd ` set (ports_by_number (ports_of spec)) \<subseteq> node_ports (ports_of spec)" by (rule ports_by_number_subset)
  then have vp: "\<forall>e \<in> set (ports_by_number (ports_of spec)). valid_port (snd e)" using node_ports_valid by blast
  obtain fresh where f: "inv s1" "took c (lookup s) t (lookup s1) t1 (map port_key fresh)"
      and g: "\<And>ps' taken'. r1 = Inr (ps', taken') \<Longrightarrow>
        ports_resolved (ports_of spec) (ports_by_number (ports_of spec)) ps' fresh \<and> set taken' = set taken \<union> set fresh"
    using assign_ports_spec [OF assms(1) vp a] by blast
  have eqs: "s' = s1" "t' = t1"
    and r: "\<And>spec' taken'. r = Inr (spec', taken') \<Longrightarrow> \<exists>ps. r1 = Inr (ps, taken') \<and> set_ports spec ps = Some spec'"
    using assms(2) True a by (auto simp: assign_node_ports_def split: sum.splits option.splits)
  show ?thesis
  proof (intro conjI exI [of _ fresh] allI impI)
    fix spec' taken'
    assume "r = Inr (spec', taken')"
    then obtain ps where ps: "r1 = Inr (ps, taken')" "set_ports spec ps = Some spec'" using r by blast
    have res: "node_ports ps = node_ports (ports_of spec) \<union> set fresh"
      using g [OF ps(1)] sub unfolding ports_resolved_def by blast
    show "set taken' = set taken \<union> set fresh" using g [OF ps(1)] by blast
    show "json_idx spec' k = json_idx spec k" if "k \<noteq> ''ports''" for k
      using ps(2) that by (auto simp: set_ports_def json_set_idx split: option.splits)
    show "node_ports (ports_of spec') = node_ports (ports_of spec) \<union> set fresh"
    proof (cases "as_array (json_idx spec ''ports'')")
      case None
      then have "ports_of spec = []" by (simp add: ports_of_def)
      then have "ps = []" "spec' = spec" using a ps None by (simp_all add: set_ports_def)
      then show ?thesis using res \<open>ports_of spec = []\<close> by simp
    next
      case (Some xs)
      then have "json_set spec ''ports'' (JArr ps) = Some spec'" using ps(2) by (simp add: set_ports_def)
      then show ?thesis using res by (simp add: json_set_idx ports_of_def as_array_def)
    qed
  qed (use f eqs in simp_all)
qed (use assms in \<open>auto simp: assign_node_ports_def intro!: exI [of _ "[]"]\<close>)

lemma assign_health_check_spec:
  assumes "inv s" and "assign_health_check c st False taken spec s t = (s', t', r)"
  shows "inv s' \<and> (\<exists>fresh. took c (lookup s) t (lookup s') t' (map port_key fresh) \<and>
     (\<forall>spec'. r = Inr spec' \<longrightarrow> hc_ports spec' = hc_ports spec \<union> set fresh \<and>
        (\<forall>k. k \<noteq> ''healthCheckNodePort'' \<longrightarrow> json_idx spec' k = json_idx spec k)))"
proof (cases "local_traffic spec \<and> i64_or_zero (json_idx spec ''healthCheckNodePort'') = 0")
  case True
  obtain s1 t1 r1 where a: "allocate_next_port c st False taken s t = (s1, t1, r1)" by (metis prod_cases3)
  show ?thesis
  proof (cases r1)
    case (Inl e)
    then show ?thesis
      using allocate_next_port_takes [OF assms(1) a] assms(2) True a
      by (auto simp: assign_health_check_def intro!: exI [of _ "[]"])
  next
    case (Inr p)
    have al: "inv s1" "valid_port p" "took c (lookup s) t (lookup s1) t1 [port_key p]"
      using allocate_next_port_takes [OF assms(1) a] Inr by auto
    have eqs: "s' = s1" "t' = t1" and r: "\<And>spec'. r = Inr spec' \<Longrightarrow> json_set spec ''healthCheckNodePort'' (JInt p) = Some spec'"
      using assms(2) True a Inr by (auto simp: assign_health_check_def split: option.splits)
    have post: "hc_ports spec' = hc_ports spec \<union> set [p] \<and> (\<forall>k. k \<noteq> ''healthCheckNodePort'' \<longrightarrow> json_idx spec' k = json_idx spec k)"
      if "r = Inr spec'" for spec'
      using hc_ports_set [OF r [OF that] al(2)] hc_ports_zero [of spec] True json_set_idx [OF r [OF that]] by simp
    show ?thesis unfolding eqs using al post by (intro conjI exI [of _ "[p]"]) auto
  qed
qed (use assms in \<open>auto simp: assign_health_check_def intro!: exI [of _ "[]"]\<close>)

lemma reserve_health_check_spec:
  assumes "inv s" and "reserve_health_check c st False old taken spec s t = (s', t', r)"
  shows "inv s' \<and> (\<exists>new. took c (lookup s) t (lookup s') t' new \<and>
     (r = None \<longrightarrow> set new = port_key ` (hc_ports spec - set old - set taken)))"
proof (cases "nonzero_i64 (json_idx spec ''healthCheckNodePort'')")
  case (Some hc)
  then have hc: "hc_ports spec = {hc}" by (simp add: hc_ports_def)
  show ?thesis
  proof (cases "hc \<in> set old \<or> hc \<in> set taken")
    case False
    then have "reserve_port c st False ''spec.healthCheckNodePort'' hc s t = (s', t', r)"
      using assms(2) Some by (simp add: reserve_health_check_def)
    from reserve_port_spec [OF assms(1) this] show ?thesis
      using False hc by (auto intro: exI [of _ "[]"] exI [of _ "[port_key hc]"])
  qed (use assms Some hc in \<open>auto simp: reserve_health_check_def intro!: exI [of _ "[]"]\<close>)
qed (use assms in \<open>auto simp: reserve_health_check_def hc_ports_def intro!: exI [of _ "[]"]\<close>)

end

text \<open>The store keys a Service with this spec holds.\<close>

definition spec_keys :: "ip_config \<Rightarrow> json \<Rightarrow> string list" where
  "spec_keys cf spec =
     (if cf_primary cf = None then [] else map ip_key (spec_ips spec)) @ map port_key (spec_ports spec)"

lemma distinct_spec_ips: "distinct (spec_ips spec)"
  by (simp add: spec_ips_def Let_def distinct_fold_insort_insert)

lemma distinct_spec_ports: "distinct (spec_ports spec)"
  by (auto simp: spec_ports_def Let_def distinct_fold_insort_insert distinct_insort_insert split: option.splits)

lemma distinct_spec_keys: "distinct (spec_keys cf spec)"
  by (auto simp: spec_keys_def distinct_map inj_on_def distinct_spec_ips distinct_spec_ports)

lemma spec_ips_cong:
  "json_idx s1 ''clusterIP'' = json_idx s2 ''clusterIP'' \<Longrightarrow> json_idx s1 ''clusterIPs'' = json_idx s2 ''clusterIPs'' \<Longrightarrow>
     spec_ips s1 = spec_ips s2"
  by (simp add: spec_ips_def)

text \<open>
  What a reservation for a write from \<open>old\<close> to \<open>spec\<close> achieves: every key of the new spec is one the old spec holds,
  one taken in advance or one just created; every key created is needed; what only the old spec holds is stale.
\<close>

definition covers_keys :: "ip_config \<Rightarrow> json \<Rightarrow> string list \<Rightarrow> json \<Rightarrow> string list \<Rightarrow> string list \<Rightarrow> bool" where
  "covers_keys cf old auto_ips spec new stale =
     (set (spec_keys cf spec) \<subseteq> set (spec_keys cf old) \<union> ip_key ` set auto_ips \<union> set new \<and>
      set new \<subseteq> set (spec_keys cf spec) \<and>
      set stale = set (spec_keys cf old) - set (spec_keys cf spec) \<and> distinct stale)"

context object_store
begin

lemma reserve_node_ports_spec:
  assumes "inv s" and "reserve_node_ports c st False old spec s t = (s', t', r)"
  shows "inv s' \<and> (\<exists>new. took c (lookup s) t (lookup s') t' new \<and>
     (\<forall>spec'. r = Inr spec' \<longrightarrow>
        (\<exists>A. set new = port_key ` A \<and> A \<subseteq> set (spec_ports spec') \<and> set (spec_ports spec') \<subseteq> set old \<union> A) \<and>
        (\<forall>k. k \<noteq> ''ports'' \<and> k \<noteq> ''healthCheckNodePort'' \<longrightarrow> json_idx spec' k = json_idx spec k)))"
proof -
  obtain s1 t1 r1 where p: "reserve_ports c st False old 0 (ports_of spec) [] s t = (s1, t1, r1)" by (metis prod_cases3)
  obtain n1 where i1: "inv s1" and k1: "took c (lookup s) t (lookup s1) t1 n1"
    and v1: "\<And>tk. r1 = Inr tk \<Longrightarrow> set n1 = port_key ` (node_ports (ports_of spec) - set old) \<and> set tk = node_ports (ports_of spec)"
    using reserve_ports_spec [OF assms(1) p] by auto
  show ?thesis
  proof (cases r1)
    case (Inl e)
    then show ?thesis using assms(2) p i1 k1 by (auto simp: reserve_node_ports_def)
  next
    case (Inr tk)
    obtain s2 t2 r2 where h: "reserve_health_check c st False old tk spec s1 t1 = (s2, t2, r2)" by (metis prod_cases3)
    obtain n2 where i2: "inv s2" and k2: "took c (lookup s1) t1 (lookup s2) t2 n2"
      and v2: "r2 = None \<Longrightarrow> set n2 = port_key ` (hc_ports spec - set old - set tk)"
      using reserve_health_check_spec [OF i1 h] by auto
    note k12 = took_trans [OF k1 k2]
    show ?thesis
    proof (cases r2)
      case (Some e)
      then show ?thesis using assms(2) p h Inr i2 k12 by (auto simp: reserve_node_ports_def)
    next
      case None
      obtain s3 t3 r3 where n: "assign_node_ports c st False tk spec s2 t2 = (s3, t3, r3)" by (metis prod_cases3)
      obtain f3 where i3: "inv s3" and k3: "took c (lookup s2) t2 (lookup s3) t3 (map port_key f3)"
        and v3: "\<And>sp tk'. r3 = Inr (sp, tk') \<Longrightarrow> node_ports (ports_of sp) = node_ports (ports_of spec) \<union> set f3 \<and>
            (\<forall>k. k \<noteq> ''ports'' \<longrightarrow> json_idx sp k = json_idx spec k)"
        using assign_node_ports_spec [OF i2 n] by auto
      note k123 = took_trans [OF k12 k3]
      show ?thesis
      proof (cases r3)
        case (Inl e)
        then show ?thesis using assms(2) p h n \<open>r1 = Inr tk\<close> None i3 k123 by (auto simp: reserve_node_ports_def)
      next
        case r3: (Inr b)
        obtain sp tk' where b: "b = (sp, tk')" by (cases b)
        have a: "assign_health_check c st False tk' sp s3 t3 = (s', t', r)"
          using assms(2) p h n \<open>r1 = Inr tk\<close> None r3 b by (simp add: reserve_node_ports_def)
        obtain f4 where i4: "inv s'" and k4: "took c (lookup s3) t3 (lookup s') t' (map port_key f4)"
          and v4: "\<And>spec'. r = Inr spec' \<Longrightarrow> hc_ports spec' = hc_ports sp \<union> set f4 \<and>
              (\<forall>k. k \<noteq> ''healthCheckNodePort'' \<longrightarrow> json_idx spec' k = json_idx sp k)"
          using assign_health_check_spec [OF i3 a] by auto
        let ?A = "(node_ports (ports_of spec) - set old) \<union> (hc_ports spec - set old - set tk) \<union> set f3 \<union> set f4"
        have new: "set (((n1 @ n2) @ map port_key f3) @ map port_key f4) = port_key ` ?A"
          using v1 [OF Inr] v2 [OF None] by (simp add: image_Un Un_assoc)
        have ports: "set (spec_ports spec') = node_ports (ports_of spec) \<union> set f3 \<union> hc_ports spec \<union> set f4"
          if "r = Inr spec'" for spec'
          using v3 [of sp tk'] v4 [OF that] r3 b ports_of_cong [of spec' sp] hc_ports_cong [of sp spec]
          unfolding set_spec_ports by auto
        have idx: "json_idx spec' k = json_idx spec k"
          if "r = Inr spec'" "k \<noteq> ''ports'' \<and> k \<noteq> ''healthCheckNodePort''" for spec' k
          using v3 [of sp tk'] v4 [OF that(1)] r3 b that(2) by simp
        show ?thesis
          using i4 took_trans [OF k123 k4] new ports v1 [OF Inr] idx
          by (intro conjI exI [of _ "((n1 @ n2) @ map port_key f3) @ map port_key f4"] allI impI exI [of _ ?A]) auto
      qed
    qed
  qed
qed

lemma reserve_cluster_ips_spec:
  assumes "inv s" and "reserve_cluster_ips c st cf False ns name old spec auto_ips s t = (s', t', r)"
  shows "inv s' \<and> (\<exists>new. took c (lookup s) t (lookup s') t' new \<and>
     (\<forall>stale. plain_ips c (lookup s) \<and> r = Inr stale \<longrightarrow>
        (if cf_primary cf = None then new = [] \<and> stale = []
         else set new = ip_key ` (set (spec_ips spec) - set (spec_ips old) - set auto_ips) \<and>
              stale = map ip_key (filter (\<lambda>ip. ip \<notin> set (spec_ips spec)) (spec_ips old)))))"
proof (cases "cf_primary cf")
  case None
  then show ?thesis using assms by (auto simp: reserve_cluster_ips_def intro!: exI [of _ "[]"])
next
  case (Some primary)
  let ?ips = "filter (\<lambda>ip. ip \<notin> set (spec_ips old) \<and> ip \<notin> set auto_ips) (spec_ips spec)"
  obtain s1 t1 r1 where ri: "reserve_ips c st cf primary False ns name ?ips s t = (s1, t1, r1)" by (metis prod_cases3)
  have set: "set ?ips = set (spec_ips spec) - set (spec_ips old) - set auto_ips" by auto
  obtain new where "inv s1" "took c (lookup s) t (lookup s1) t1 new" "plain_ips c (lookup s) \<and> r1 = None \<longrightarrow> set new = ip_key ` set ?ips"
    using reserve_ips_spec [OF assms(1) ri] unfolding took_def by blast
  then show ?thesis
    using assms(2) Some ri unfolding reserve_cluster_ips_def set by (auto simp: Let_def split: option.splits)
qed

end

lemma drop_type_dependent_ips: "drop_type_dependent_fields spec = Some spec1 \<Longrightarrow> spec_ips spec1 = spec_ips spec"
proof -
  assume d: "drop_type_dependent_fields spec = Some spec1"
  let ?strip = "\<lambda>v. Some (case v of JArr ps \<Rightarrow> JArr (map strip_node_port ps) | _ \<Rightarrow> v)"
  obtain sp where sp: "(if service_type spec \<noteq> ''NodePort'' \<and> service_type spec \<noteq> ''LoadBalancer''
        then json_index_mut spec ''ports'' ?strip else Some spec) = Some sp"
      and spec1: "spec1 = (if local_traffic sp then sp
         else (case sp of JObj o' \<Rightarrow> JObj (bt_remove ''healthCheckNodePort'' o') | _ \<Rightarrow> sp))"
    using d unfolding drop_type_dependent_fields_def by (auto simp only: map_option_eq_Some)
  have i1: "json_idx sp k = json_idx spec k" if "k \<noteq> ''ports''" for k
    using sp that json_index_mut_get [of spec "''ports''" ?strip sp] by (auto simp: json_idx_def split: if_splits)
  have i2: "json_idx spec1 k = json_idx sp k" if "k \<noteq> ''healthCheckNodePort''" for k
    using that unfolding spec1 by (auto simp: json_idx_def map_of_bt_remove split: json.splits)
  show ?thesis by (rule spec_ips_cong) (simp_all add: i1 i2)
qed

lemma covers_keys_parts:
  assumes ips: "if cf_primary cf = None then n1 = [] \<and> stale = []
      else set n1 = ip_key ` (set (spec_ips spec) - set (spec_ips old) - set auto_ips) \<and>
           stale = map ip_key (filter (\<lambda>ip. ip \<notin> set (spec_ips spec)) (spec_ips old))"
    and ports: "set n2 = port_key ` A" "A \<subseteq> set (spec_ports spec)" "set (spec_ports spec) \<subseteq> set (spec_ports old) \<union> A"
  shows "covers_keys cf old auto_ips spec (n1 @ n2) (stale @ map port_key (filter (\<lambda>p. p \<notin> set (spec_ports spec)) (spec_ports old)))"
proof (cases "cf_primary cf = None")
  case True
  then show ?thesis
    using assms by (auto simp: covers_keys_def spec_keys_def distinct_map inj_on_def distinct_spec_ports)
next
  case False
  then have "distinct stale" using ips by (auto simp: distinct_map inj_on_def distinct_spec_ips)
  then show ?thesis
    using assms False by (auto simp: covers_keys_def spec_keys_def distinct_map inj_on_def distinct_spec_ports)
qed

context object_store
begin

lemma reserve_all_spec:
  assumes "inv s" and "reserve_all c st cf False ns name old_spec spec auto_ips s t = (s', t', r)"
  shows "inv s' \<and> (\<exists>new. took c (lookup s) t (lookup s') t' new \<and>
     (\<forall>spec' stale. plain_ips c (lookup s) \<and> r = Inr (spec', stale) \<longrightarrow>
        covers_keys cf (case old_spec of Some o' \<Rightarrow> o' | None \<Rightarrow> JNull) auto_ips spec' new stale))"
proof (cases "drop_type_dependent_fields spec")
  case None
  then show ?thesis using assms by (auto simp: reserve_all_def Let_def intro!: exI [of _ "[]"])
next
  case (Some spec1)
  define old where "old = (case old_spec of Some o' \<Rightarrow> o' | None \<Rightarrow> JNull)"
  obtain s1 t1 r1 where ci: "reserve_cluster_ips c st cf False ns name old spec1 auto_ips s t = (s1, t1, r1)"
    by (metis prod_cases3)
  obtain n1 where i1: "inv s1" and k1: "took c (lookup s) t (lookup s1) t1 n1"
    and v1: "\<And>stale. plain_ips c (lookup s) \<Longrightarrow> r1 = Inr stale \<Longrightarrow>
        (if cf_primary cf = None then n1 = [] \<and> stale = []
         else set n1 = ip_key ` (set (spec_ips spec1) - set (spec_ips old) - set auto_ips) \<and>
              stale = map ip_key (filter (\<lambda>ip. ip \<notin> set (spec_ips spec1)) (spec_ips old)))"
    using reserve_cluster_ips_spec [OF assms(1) ci] by auto
  show ?thesis
  proof (cases r1)
    case (Inl e)
    then show ?thesis using assms(2) Some ci i1 k1 by (auto simp: reserve_all_def Let_def old_def)
  next
    case (Inr stale)
    obtain s2 t2 r2 where np: "reserve_node_ports c st False (spec_ports old) spec1 s1 t1 = (s2, t2, r2)" by (metis prod_cases3)
    obtain n2 where i2: "inv s2" and k2: "took c (lookup s1) t1 (lookup s2) t2 n2"
      and v2: "\<And>sp. r2 = Inr sp \<Longrightarrow>
          (\<exists>A. set n2 = port_key ` A \<and> A \<subseteq> set (spec_ports sp) \<and> set (spec_ports sp) \<subseteq> set (spec_ports old) \<union> A) \<and>
          (\<forall>k. k \<noteq> ''ports'' \<and> k \<noteq> ''healthCheckNodePort'' \<longrightarrow> json_idx sp k = json_idx spec1 k)"
      using reserve_node_ports_spec [OF i1 np] by auto
    have eqs: "s' = s2" "t' = t2"
      and r: "\<And>spec' st'. r = Inr (spec', st') \<Longrightarrow> r2 = Inr spec' \<and>
         st' = stale @ map port_key (filter (\<lambda>p. p \<notin> set (spec_ports spec')) (spec_ports old))"
      using assms(2) Some ci np Inr by (auto simp: reserve_all_def Let_def old_def split: sum.splits)
    have "covers_keys cf old auto_ips spec' (n1 @ n2) st'" if plain: "plain_ips c (lookup s)" and that: "r = Inr (spec', st')" for spec' st'
    proof -
      from r [OF that] v2 have idx: "\<And>k. k \<noteq> ''ports'' \<and> k \<noteq> ''healthCheckNodePort'' \<Longrightarrow> json_idx spec' k = json_idx spec1 k"
        by blast
      then have "spec_ips spec' = spec_ips spec1" by (intro spec_ips_cong) simp_all
      then show ?thesis using covers_keys_parts [of cf n1 stale] v1 [OF plain Inr] v2 r [OF that] by metis
    qed
    then show ?thesis
      unfolding old_def [symmetric] eqs using i2 took_trans [OF k1 k2] by blast
  qed
qed

end

definition auto_txn :: "auto_cluster_ip option \<Rightarrow> alloc_txn" where
  "auto_txn auto = (case auto of Some a \<Rightarrow> au_txn a | None \<Rightarrow> new_txn)"

definition auto_addresses :: "auto_cluster_ip option \<Rightarrow> string list" where
  "auto_addresses auto = (case auto of Some a \<Rightarrow> au_ips a | None \<Rightarrow> [])"

context object_store
begin

lemma begin_alloc_spec:
  assumes "inv s" and "begin_alloc c st cf False ns name old_spec body auto s = (s', t', r)"
  shows "inv s' \<and> (\<exists>new. grown c (lookup s) (lookup s') new \<and> tx_created t' = tx_created (auto_txn auto) @ new \<and>
     (\<forall>body'. plain_ips c (lookup s) \<and> r = Inr body' \<longrightarrow>
        covers_keys cf (case old_spec of Some o' \<Rightarrow> o' | None \<Rightarrow> JNull) (auto_addresses auto)
          (json_idx body' ''spec'') new (tx_stale t')))"
proof -
  have split: "(case auto of Some a \<Rightarrow> (au_txn a, au_ips a) | None \<Rightarrow> (new_txn, [])) = (auto_txn auto, auto_addresses auto)"
    by (simp add: auto_txn_def auto_addresses_def split: option.splits)
  show ?thesis
  proof (cases "json_set body ''spec'' JNull = None")
    case True
    then have "s' = s" "t' = auto_txn auto" "r = Inl Panicked"
      using assms(2) unfolding begin_alloc_def split by simp_all
    then show ?thesis using assms(1) by (intro conjI exI [of _ "[]"]) auto
  next
    case False
    obtain s1 t1 r1 where ra:
        "reserve_all c st cf False ns name old_spec (json_idx body ''spec'') (auto_addresses auto) s (auto_txn auto) = (s1, t1, r1)"
      by (metis prod_cases3)
    obtain new where n: "inv s1" "grown c (lookup s) (lookup s1) new" "tx_created t1 = tx_created (auto_txn auto) @ new"
      and cov: "\<And>sp stale. plain_ips c (lookup s) \<Longrightarrow> r1 = Inr (sp, stale) \<Longrightarrow>
          covers_keys cf (case old_spec of Some o' \<Rightarrow> o' | None \<Rightarrow> JNull) (auto_addresses auto) sp new stale"
      using reserve_all_spec [OF assms(1) ra] by (auto simp: took_def recorded_def)
    have run: "(case (s1, t1, r1) of
         (s', t', Inl e) \<Rightarrow> (s', t', Inl e)
       | (s', t', Inr (spec', stale)) \<Rightarrow>
           (s', t'\<lparr>tx_stale := stale\<rparr>,
            case json_set body ''spec'' spec' of None \<Rightarrow> Inl Panicked | Some body' \<Rightarrow> Inr body')) = (s', t', r)"
      using assms(2) False unfolding begin_alloc_def split by (simp add: ra)
    show ?thesis
    proof (cases r1)
      case (Inl e)
      then show ?thesis using run n by auto
    next
      case (Inr b)
      obtain sp stale where b: "b = (sp, stale)" by (cases b)
      have "s' = s1" "t' = t1\<lparr>tx_stale := stale\<rparr>"
        and r: "\<And>body'. r = Inr body' \<Longrightarrow> json_set body ''spec'' sp = Some body'"
        using run Inr b by (auto split: option.splits)
      then show ?thesis
        using n cov [OF _ Inr [unfolded b]] by (intro conjI exI [of _ new]) (auto dest!: r simp: json_set_idx)
    qed
  qed
qed

lemma probe_grows:
  "inv s \<Longrightarrow> probe_service_ip c st al k8s left off s = (s', r) \<Longrightarrow>
     inv s' \<and> (case r of Inr ip \<Rightarrow> grown c (lookup s) (lookup s') [ip_key (ip_to_string ip)] | Inl e \<Rightarrow> s' = s)"
proof (induction left arbitrary: off)
  case 0
  then show ?case by auto
next
  case (Suc left)
  show ?case
  proof (cases "skip_offset al k8s off")
    case True
    then show ?thesis using Suc.IH [OF Suc.prems(1)] Suc.prems(2) by simp
  next
    case False
    let ?key = "ip_key (ip_to_string (ip_at al off))"
    show ?thesis
    proof (rule put_create_cases [OF Suc.prems(1) ip_sentinel_storable, of ?key])
      fix ob
      assume "st_put st s ?key (to_vec c ip_sentinel_doc) (Some 0) = (s, Inl (AlreadyExists ?key))"
      then show ?thesis using Suc.IH [OF Suc.prems(1)] Suc.prems(2) False by (simp add: Let_def)
    next
      fix s1 r1 ob
      assume a: "lookup s ?key = None" "st_put st s ?key (to_vec c ip_sentinel_doc) (Some 0) = (s1, Inr r1)" "inv s1"
        "lookup s1 = (lookup s)(?key \<mapsto> ob)" "stores_doc c ?key ip_sentinel_doc ob"
      then have "s' = s1" "r = Inr (ip_at al off)" using Suc.prems(2) False by (simp_all add: Let_def)
      then show ?thesis using a grown_one [of "lookup s" ?key "lookup s1" ob c] plain_ip_sentinel_doc [OF a(5)] by simp
    qed
  qed
qed

lemma allocate_service_ip_grows:
  assumes "inv s" and "allocate_service_ip c st cf random fam k8s s = (s', r)"
  shows "inv s' \<and> (case r of
      Inr (Some ip) \<Rightarrow> grown c (lookup s) (lookup s') [ip_key (ip_to_string ip)]
    | Inr None \<Rightarrow> s' = s
    | Inl e \<Rightarrow> s' = s)"
proof (cases "service_ip_allocator_for cf fam")
  case (Some al)
  obtain s1 r1 where p: "probe_service_ip c st al k8s (unat (al_size al)) (random mod al_size al) s = (s1, r1)" by fastforce
  show ?thesis
    using probe_grows [OF assms(1) p] assms(2) Some p by (auto simp: allocate_service_ip_def split: sum.splits)
qed (use assms in \<open>auto simp: allocate_service_ip_def\<close>)

lemma allocate_slots_spec:
  "inv s \<Longrightarrow> allocate_slots c st cf random k8s slots spec a s = (s', a', r) \<Longrightarrow>
     inv s' \<and> (\<exists>new. took c (lookup s) (au_txn a) (lookup s') (au_txn a') new \<and>
       ip_key ` set (au_ips a') = ip_key ` set (au_ips a) \<union> set new)"
proof (induction slots arbitrary: spec a s)
  case Nil
  then show ?case by (auto intro!: exI [of _ "[]"])
next
  case (Cons slot slots)
  obtain idx fam where slot: "slot = (idx, fam)" by (cases slot)
  obtain s1 r1 where al: "allocate_service_ip c st cf (random idx) fam k8s s = (s1, r1)" by fastforce
  note g = allocate_service_ip_grows [OF Cons.prems(1) al]
  consider (err) e where "r1 = Inl e" | (none) "r1 = Inr None" | (ok) ip where "r1 = Inr (Some ip)"
    by (metis old.sum.exhaust option.exhaust)
  then show ?case
  proof cases
    case err
    then show ?thesis using g Cons.prems slot al by (auto intro!: exI [of _ "[]"])
  next
    case none
    then show ?thesis using g Cons.IH [of s spec a] Cons.prems slot al by simp
  next
    case ok
    let ?key = "ip_key (ip_to_string ip)"
    have g': "inv s1" "grown c (lookup s) (lookup s1) [?key]" using g ok by simp_all
    have pushed: "took c (lookup s) (au_txn a) (lookup s1) (au_txn (auto_push ip a)) [?key]"
        "set (au_ips (auto_push ip a)) = insert (ip_to_string ip) (set (au_ips a))"
      using g' by (simp_all add: took_def recorded_def auto_push_def Let_def set_insort_insert)
    show ?thesis
    proof (cases "set_cluster_ip spec idx (ip_to_string ip)")
      case None
      then have "s' = s1" "a' = auto_push ip a" using Cons.prems(2) ok slot al by simp_all
      then show ?thesis using g' pushed by (intro conjI exI [of _ "[?key]"]) auto
    next
      case (Some spec')
      then have rest: "allocate_slots c st cf random k8s slots spec' (auto_push ip a) s1 = (s', a', r)"
        using Cons.prems(2) ok slot al by simp
      obtain new where "inv s'" "took c (lookup s1) (au_txn (auto_push ip a)) (lookup s') (au_txn a') new"
          "ip_key ` set (au_ips a') = ip_key ` set (au_ips (auto_push ip a)) \<union> set new"
        using Cons.IH [OF g'(1) rest] by blast
      then show ?thesis
        using took_trans [OF pushed(1)] pushed(2) by (intro conjI exI [of _ "[?key] @ new"]) auto
    qed
  qed
qed

lemma maybe_allocate_spec:
  assumes "inv s" and "maybe_allocate_cluster_ip c st cf random ns name old_spec spec False s = (s', a, r)"
  shows "inv s' \<and> grown c (lookup s) (lookup s') (tx_created (au_txn a)) \<and>
     ip_key ` set (au_ips a) = set (tx_created (au_txn a)) \<and>
     (\<forall>spec' auto. r = Inr (spec', auto) \<longrightarrow> auto_txn auto = au_txn a \<and> auto_addresses auto = au_ips a)"
proof -
  have idle: ?thesis if "s' = s" "a = auto_new" "\<And>spec' auto. r = Inr (spec', auto) \<Longrightarrow> auto = None"
    using assms(1) that by (auto simp: auto_new_def new_txn_def auto_txn_def auto_addresses_def)
  have slots: ?thesis
    if al: "allocate_slots c st cf random k8s slots spec1 auto_new s = (s1, a1, r1)"
      and run: "(case (s1, a1, r1) of (s', a, Inl e) \<Rightarrow> (s', a, Inl e)
        | (s', a, Inr spec2) \<Rightarrow> (s', a, Inr (spec2, if au_ips a = [] then None else Some a))) = (s', a, r)"
    for k8s slots spec1 s1 a1 r1
  proof -
    obtain new where n: "inv s1" "took c (lookup s) new_txn (lookup s1) (au_txn a1) new" "ip_key ` set (au_ips a1) = set new"
      using allocate_slots_spec [OF assms(1) al] by (auto simp: auto_new_def)
    then have created: "au_txn a1 = \<lparr>tx_created = new, tx_stale = []\<rparr>" "grown c (lookup s) (lookup s1) new"
      by (auto simp: took_def recorded_def new_txn_def)
    have "s' = s1" "a = a1"
      and r: "\<And>spec' auto. r = Inr (spec', auto) \<Longrightarrow> auto = (if au_ips a1 = [] then None else Some a1)"
      using run by (auto split: sum.splits)
    moreover have "new = []" if "au_ips a1 = []" using n(3) that by simp
    ultimately show ?thesis
      using n created by (auto simp: auto_txn_def auto_addresses_def new_txn_def dest!: r)
  qed
  let ?rejected = "\<lambda>spec1. case old_spec of Some old \<Rightarrow> validate_ip_fields_update old spec1 \<noteq> [] | None \<Rightarrow> False"
  note run = assms(2) [unfolded maybe_allocate_cluster_ip_def]
  show ?thesis
  proof (cases "as_str (json_idx spec ''type'') = Some ''ExternalName''")
    case True
    then show ?thesis using run by (intro idle) auto
  next
    case False
    note run = run [unfolded if_not_P [OF False]]
    consider (panic) "init_ip_family_fields (service_ip_families cf) old_spec spec = None"
      | (bad) errs where "init_ip_family_fields (service_ip_families cf) old_spec spec = Some (Inl errs)"
      | (good) spec1 where "init_ip_family_fields (service_ip_families cf) old_spec spec = Some (Inr spec1)"
      by (metis option.exhaust old.sum.exhaust)
    then show ?thesis
    proof cases
      case good
      note run = run [unfolded good option.case sum.case]
      show ?thesis
      proof (cases "?rejected spec1 \<or> service_ip_allocators cf = []")
        case True
        then show ?thesis using run by (intro idle) (auto split: if_splits)
      next
        case False
        obtain s1 a1 r1 where al: "allocate_slots c st cf random (ns = ''default'' \<and> name = ''kubernetes'')
            (unallocated_slots spec1) spec1 auto_new s = (s1, a1, r1)" by (metis prod_cases3)
        show ?thesis using run False unfolding al by (intro slots [OF al]) simp
      qed
    qed (rule idle; use run in auto)+
  qed
qed

end

end
