(* ===== verification/Service_World.thy ===== *)
theory Service_World
  imports Service_Alloc "HOL-Library.Multiset"
begin

text \<open>
  Services under concurrent requests: how the handlers of \<^verbatim>\<open>apiserver/src/handlers/resource.rs\<close>
  compose \<^const>\<open>maybe_allocate_cluster_ip\<close>, \<^const>\<open>begin_alloc\<close>, the write of the object and the
  release of what is no longer held. A request takes its addresses first, reserves the rest after
  admission (which may have changed the body), writes the object, and on success releases the stale
  keys; a request that fails or is dropped releases what it created; a DELETE reads the object, removes
  whatever is stored by then and releases what the spec it read holds. Every release is a task of its
  own: any number of other steps may come in between. A step says whether it acted on the spec that
  was read: a write without a \<^verbatim>\<open>resourceVersion\<close> and every DELETE may not. The theorems: while all do,
  no two stored Services ever hold the same node port or cluster address; what a failed request
  reserved is given back; the port that is assigned is the lowest free one; and, for a DELETE that
  releases a spec that changed after it was read, a run in which two Services end with one port.
\<close>

subsection \<open>Requests in flight\<close>

datatype request =
    Prepared "string \<times> string" "json option" "auto_cluster_ip option"
  | Reserved "string \<times> string" "json option" json alloc_txn
  | Deleting "string \<times> string" json

primrec created_by :: "request \<Rightarrow> string list" where
  "created_by (Prepared id' old auto) = tx_created (auto_txn auto)"
| "created_by (Reserved id' old spec t) = tx_created t"
| "created_by (Deleting id' spec) = []"

record 's world =
  wo_store :: 's
  wo_services :: "string \<times> string \<Rightarrow> json option"
  wo_requests :: "request list"
  wo_releasing :: "string list"

text \<open>
  The end of a DELETE: the object goes, whatever its version, and the keys of the spec that the
  handler read are released. If there is none any more, the request fails and releases nothing.
\<close>

definition delete_finish :: "ip_config \<Rightarrow> string \<times> string \<Rightarrow> json \<Rightarrow> 's world \<Rightarrow> 's world" where
  "delete_finish cf id' spec w =
     (case wo_services w id' of
        None \<Rightarrow> w
      | Some _ \<Rightarrow>
          w\<lparr>wo_services := (wo_services w)(id' := None), wo_releasing := wo_releasing w @ spec_keys cf spec\<rparr>)"

text \<open>
  \<^verbatim>\<open>old\<close> is what the handler read for the name (nothing, for a create). The label of a step is false
  when the step acts on a spec that is not the one it read: a PUT without a \<^verbatim>\<open>resourceVersion\<close> overwrites
  whatever is stored, and a DELETE removes it. A write with a \<^verbatim>\<open>resourceVersion\<close>, and a create, that
  meets another version is refused by the store; its request is then dropped.
\<close>

inductive svc_step :: "'b codec \<Rightarrow> ('s, 'b) store_impl \<Rightarrow> ip_config \<Rightarrow> bool \<Rightarrow> 's world \<Rightarrow> 's world \<Rightarrow> bool"
  for c st cf where
  prepare:
    "maybe_allocate_cluster_ip c st cf random ns name old spec False (wo_store w) = (s', a, Inr (spec', auto)) \<Longrightarrow>
       svc_step c st cf True w (w\<lparr>wo_store := s', wo_requests := wo_requests w @ [Prepared (ns, name) old auto]\<rparr>)"
| prepare_failed:
    "maybe_allocate_cluster_ip c st cf random ns name old spec False (wo_store w) = (s', a, Inl e) \<Longrightarrow>
       svc_step c st cf True w (w\<lparr>wo_store := s', wo_releasing := wo_releasing w @ tx_created (au_txn a)\<rparr>)"
| reserve_rest:
    "wo_requests w = rs1 @ Prepared (ns, name) old auto # rs2 \<Longrightarrow>
     begin_alloc c st cf False ns name old body auto (wo_store w) = (s', t, Inr body') \<Longrightarrow>
       svc_step c st cf True w (w\<lparr>wo_store := s', wo_requests := rs1 @ Reserved (ns, name) old (json_idx body' ''spec'') t # rs2\<rparr>)"
| reserve_failed:
    "wo_requests w = rs1 @ Prepared (ns, name) old auto # rs2 \<Longrightarrow>
     begin_alloc c st cf False ns name old body auto (wo_store w) = (s', t, Inl e) \<Longrightarrow>
       svc_step c st cf True w (w\<lparr>wo_store := s', wo_requests := rs1 @ rs2, wo_releasing := wo_releasing w @ tx_created t\<rparr>)"
| land:
    "wo_requests w = rs1 @ Reserved id' old spec t # rs2 \<Longrightarrow>
       svc_step c st cf (wo_services w id' = old) w
         (w\<lparr>wo_services := (wo_services w)(id' \<mapsto> spec), wo_requests := rs1 @ rs2,
            wo_releasing := wo_releasing w @ tx_stale t\<rparr>)"
| dropped:
    "wo_requests w = rs1 @ r # rs2 \<Longrightarrow>
       svc_step c st cf True w (w\<lparr>wo_requests := rs1 @ rs2, wo_releasing := wo_releasing w @ created_by r\<rparr>)"
| read_delete:
    "wo_services w id' = Some spec \<Longrightarrow>
       svc_step c st cf True w (w\<lparr>wo_requests := wo_requests w @ [Deleting id' spec]\<rparr>)"
| finish_delete:
    "wo_requests w = rs1 @ Deleting id' spec # rs2 \<Longrightarrow>
       svc_step c st cf (wo_services w id' = None \<or> wo_services w id' = Some spec) w
         (delete_finish cf id' spec (w\<lparr>wo_requests := rs1 @ rs2\<rparr>))"
| release:
    "wo_releasing w = ks1 @ k # ks2 \<Longrightarrow>
       svc_step c st cf True w (w\<lparr>wo_store := delete_sentinel st k (wo_store w), wo_releasing := ks1 @ ks2\<rparr>)"

subsection \<open>Who holds what\<close>

definition in_flight :: "'s world \<Rightarrow> string list" where
  "in_flight w = concat (map created_by (wo_requests w)) @ wo_releasing w"

definition request_ok :: "ip_config \<Rightarrow> request \<Rightarrow> bool" where
  "request_ok cf r =
     (case r of
        Prepared id' old auto \<Rightarrow> ip_key ` set (auto_addresses auto) = set (tx_created (auto_txn auto))
      | Reserved id' old spec t \<Rightarrow>
          (let held = (case old of Some o' \<Rightarrow> set (spec_keys cf o') | None \<Rightarrow> {}) in
           set (spec_keys cf spec) \<subseteq> held \<union> set (tx_created t) \<and>
           set (tx_stale t) = held - set (spec_keys cf spec) \<and> distinct (tx_stale t))
      | Deleting id' spec \<Rightarrow> True)"

text \<open>
  Every key that a Service holds, that a request created or that waits for its release has its
  sentinel, and no key is in two of these places.
\<close>

definition world_ok :: "ip_config \<Rightarrow> (string \<Rightarrow> 'b store_object option) \<Rightarrow> 's world \<Rightarrow> bool" where
  "world_ok cf m w =
     (distinct (in_flight w) \<and> set (in_flight w) \<subseteq> dom m \<and>
      (\<forall>id' spec. wo_services w id' = Some spec \<longrightarrow>
         set (spec_keys cf spec) \<subseteq> dom m \<and> set (spec_keys cf spec) \<inter> set (in_flight w) = {}) \<and>
      (\<forall>id1 id2 s1 s2. id1 \<noteq> id2 \<longrightarrow> wo_services w id1 = Some s1 \<longrightarrow> wo_services w id2 = Some s2 \<longrightarrow>
         set (spec_keys cf s1) \<inter> set (spec_keys cf s2) = {}) \<and>
      (\<forall>r \<in> set (wo_requests w). request_ok cf r))"

lemma spec_keys_null [simp]: "spec_keys cf JNull = []"
  by (simp add: spec_keys_def spec_ips_def spec_ports_def ports_of_def str_items_def nonzero_i64_def as_array_def as_i64_def
      json_idx_def List.map_filter_def)

lemma in_flight_split:
  "wo_requests w = rs1 @ r # rs2 \<Longrightarrow>
     mset (in_flight w) = mset (concat (map created_by (rs1 @ rs2))) + mset (created_by r) + mset (wo_releasing w)"
  by (simp add: in_flight_def)

lemma world_okD:
  assumes "world_ok cf m w"
  shows "distinct (in_flight w)" "set (in_flight w) \<subseteq> dom m"
    "wo_services w i = Some sp \<Longrightarrow> set (spec_keys cf sp) \<subseteq> dom m \<and> set (spec_keys cf sp) \<inter> set (in_flight w) = {}"
    "i1 \<noteq> i2 \<Longrightarrow> wo_services w i1 = Some s1 \<Longrightarrow> wo_services w i2 = Some s2 \<Longrightarrow>
       set (spec_keys cf s1) \<inter> set (spec_keys cf s2) = {}"
    "r \<in> set (wo_requests w) \<Longrightarrow> request_ok cf r"
  using assms unfolding world_ok_def by blast+

text \<open>New keys were created: whoever takes them, nobody else had them.\<close>

lemma world_ok_grow:
  assumes ok: "world_ok cf m w" and g: "grown c m m' new" and same: "wo_services w' = wo_services w"
    and flight: "mset (in_flight w') = mset (in_flight w) + mset new"
    and reqs: "\<And>r. r \<in> set (wo_requests w') \<Longrightarrow> request_ok cf r"
  shows "world_ok cf m' w'"
proof -
  have sets: "set (in_flight w') = set (in_flight w) \<union> set new"
    using flight mset_eq_setD [of "in_flight w'" "in_flight w @ new"] by simp
  have new: "distinct new" "set new \<inter> dom m = {}" "dom m' = dom m \<union> set new" using g by (auto simp: grown_def)
  have old: "distinct (in_flight w)" "set (in_flight w) \<subseteq> dom m"
    and svc: "\<And>i sp. wo_services w i = Some sp \<Longrightarrow> set (spec_keys cf sp) \<subseteq> dom m \<and> set (spec_keys cf sp) \<inter> set (in_flight w) = {}"
    and apart: "\<And>i1 i2 s1 s2. i1 \<noteq> i2 \<Longrightarrow> wo_services w i1 = Some s1 \<Longrightarrow> wo_services w i2 = Some s2 \<Longrightarrow>
       set (spec_keys cf s1) \<inter> set (spec_keys cf s2) = {}"
    using world_okD [OF ok] by blast+
  have "distinct (in_flight w @ new)" using old new by auto
  then have "distinct (in_flight w')"
    using flight mset_eq_imp_distinct_iff [of "in_flight w'" "in_flight w @ new"] by simp
  moreover have "set (in_flight w') \<subseteq> dom m'" using sets old(2) new(3) by blast
  moreover have "set (spec_keys cf sp) \<subseteq> dom m' \<and> set (spec_keys cf sp) \<inter> set (in_flight w') = {}"
    if "wo_services w' i = Some sp" for i sp
    using svc [of i sp] that new(2,3) unfolding same sets by blast
  ultimately show ?thesis
    unfolding world_ok_def same using reqs apart by (simp add: same)
qed

text \<open>Keys change hands without a change of the store.\<close>

lemma world_ok_services:
  assumes ok: "world_ok cf m w" and upd: "wo_services w' = (wo_services w)(id' := new)"
    and flight: "mset (in_flight w') + mset used = mset (in_flight w) + mset freed"
    and reqs: "\<And>r. r \<in> set (wo_requests w') \<Longrightarrow> request_ok cf r"
    and keys: "set (case new of Some sp \<Rightarrow> spec_keys cf sp | None \<Rightarrow> []) \<subseteq>
        (case wo_services w id' of Some sp \<Rightarrow> set (spec_keys cf sp) | None \<Rightarrow> {}) \<union> set used"
    and used: "set used \<subseteq> set (in_flight w)"
    and freed: "distinct freed" "set freed \<subseteq> (case wo_services w id' of Some sp \<Rightarrow> set (spec_keys cf sp) | None \<Rightarrow> {})"
        "set freed \<inter> set (case new of Some sp \<Rightarrow> spec_keys cf sp | None \<Rightarrow> []) = {}"
  shows "world_ok cf m w'"
proof -
  define held where "held = (case wo_services w id' of Some sp \<Rightarrow> set (spec_keys cf sp) | None \<Rightarrow> {})"
  have old: "distinct (in_flight w)" "set (in_flight w) \<subseteq> dom m"
    and svc: "\<And>i sp. wo_services w i = Some sp \<Longrightarrow> set (spec_keys cf sp) \<subseteq> dom m \<and> set (spec_keys cf sp) \<inter> set (in_flight w) = {}"
    and apart: "\<And>i1 i2 s1 s2. i1 \<noteq> i2 \<Longrightarrow> wo_services w i1 = Some s1 \<Longrightarrow> wo_services w i2 = Some s2 \<Longrightarrow>
       set (spec_keys cf s1) \<inter> set (spec_keys cf s2) = {}"
    using world_okD [OF ok] by blast+
  have held: "held \<subseteq> dom m" "held \<inter> set (in_flight w) = {}"
      "\<And>i sp. i \<noteq> id' \<Longrightarrow> wo_services w i = Some sp \<Longrightarrow> set (spec_keys cf sp) \<inter> held = {}"
    using svc [of id'] apart [of _ id'] by (auto simp: held_def split: option.splits)
  have fr: "distinct freed" "set freed \<subseteq> held" using freed(1,2) unfolding held_def by blast+
  have "distinct (in_flight w @ freed)" using old(1) fr held(2) by auto
  then have d: "distinct (in_flight w' @ used)"
    using flight mset_eq_imp_distinct_iff [of "in_flight w' @ used" "in_flight w @ freed"] by simp
  have sets: "set (in_flight w') \<union> set used = set (in_flight w) \<union> set freed"
    using flight mset_eq_setD [of "in_flight w' @ used" "in_flight w @ freed"] by simp
  have out: "set (in_flight w') = (set (in_flight w) \<union> set freed) - set used"
    using d sets by auto
  have keys': "set (case new of Some sp \<Rightarrow> spec_keys cf sp | None \<Rightarrow> []) \<subseteq> held \<union> set used" using keys by (simp add: held_def)
  have c1: "distinct (in_flight w')" "set (in_flight w') \<subseteq> dom m" using d out old(2) held(1) fr(2) by auto
  have other: "set (spec_keys cf sp) \<inter> (held \<union> set (in_flight w)) = {}" if "i \<noteq> id'" "wo_services w i = Some sp" for i sp
    using svc [OF that(2)] held(3) [OF that] by blast
  have c2: "set (spec_keys cf sp) \<subseteq> dom m \<and> set (spec_keys cf sp) \<inter> set (in_flight w') = {}"
    if "wo_services w' i = Some sp" for i sp
  proof (cases "i = id'")
    case True
    then have new: "new = Some sp" using that upd by simp
    have "set (spec_keys cf sp) \<subseteq> held \<union> set used" "set freed \<inter> set (spec_keys cf sp) = {}"
      using keys' freed(3) unfolding new by simp_all
    then show ?thesis using held old used out by blast
  next
    case False
    then have sp: "wo_services w i = Some sp" using that upd by simp
    show ?thesis using svc [OF sp] other [OF False sp] fr(2) out by blast
  qed
  have c3: "set (spec_keys cf s1) \<inter> set (spec_keys cf s2) = {}"
    if "i1 \<noteq> i2" "wo_services w' i1 = Some s1" "wo_services w' i2 = Some s2" for i1 i2 s1 s2
  proof -
    have cross: "set (spec_keys cf a) \<inter> set (spec_keys cf b) = {}"
      if "i \<noteq> id'" "wo_services w i = Some a" "new = Some b" for i a b
      using other [OF that(1,2)] keys' used that(3) by auto
    show ?thesis
      using that upd apart [of i1 i2 s1 s2] cross [of i1 s1 s2] cross [of i2 s2 s1]
      by (cases "i1 = id'"; cases "i2 = id'") auto
  qed
  show ?thesis unfolding world_ok_def using c1 c2 c3 reqs by blast
qed

lemma world_ok_release:
  assumes ok: "world_ok cf m w" and rel: "wo_releasing w = ks1 @ k # ks2"
    and w': "w' = w\<lparr>wo_store := s', wo_releasing := ks1 @ ks2\<rparr>"
  shows "world_ok cf (m(k := None)) w'"
proof -
  have fl: "in_flight w = concat (map created_by (wo_requests w)) @ ks1 @ k # ks2"
      "in_flight w' = concat (map created_by (wo_requests w)) @ ks1 @ ks2"
    using rel by (simp_all add: in_flight_def w')
  then have sub: "distinct (in_flight w')" "set (in_flight w') \<subseteq> set (in_flight w) - {k}" "k \<in> set (in_flight w)"
    using world_okD(1) [OF ok] by auto
  have "set (in_flight w') \<subseteq> dom (m(k := None))" using world_okD(2) [OF ok] sub(2) by auto
  moreover have "set (spec_keys cf sp) \<subseteq> dom (m(k := None)) \<and> set (spec_keys cf sp) \<inter> set (in_flight w') = {}"
    if "wo_services w i = Some sp" for i sp
    using world_okD(3) [OF ok that] sub by auto
  moreover have "wo_services w' = wo_services w" "wo_requests w' = wo_requests w" by (simp_all add: w')
  ultimately show ?thesis
    using world_okD [OF ok] sub(1) unfolding world_ok_def by metis
qed

lemma reserved_ok:
  assumes "covers_keys cf (case old of Some o' \<Rightarrow> o' | None \<Rightarrow> JNull) auto_ips spec new (tx_stale t)"
    and "ip_key ` set auto_ips \<subseteq> set (tx_created t)" and "set new \<subseteq> set (tx_created t)"
  shows "request_ok cf (Reserved id' old spec t)"
  using assms unfolding request_ok_def covers_keys_def by (cases old) (simp_all add: Let_def, blast+)

definition world_inv ::
    "'b codec \<Rightarrow> ip_config \<Rightarrow> ('s \<Rightarrow> bool) \<Rightarrow> ('s \<Rightarrow> string \<Rightarrow> 'b store_object option) \<Rightarrow> 's world \<Rightarrow> bool" where
  "world_inv c cf store_ok lookup w =
     (store_ok (wo_store w) \<and> plain_ips c (lookup (wo_store w)) \<and> world_ok cf (lookup (wo_store w)) w)"

context object_store
begin

lemma svc_step_inv:
  assumes step: "svc_step c st cf True w w'" and W: "world_inv c cf inv lookup w"
  shows "world_inv c cf inv lookup w'"
proof -
  have inv: "inv (wo_store w)" and plain: "plain_ips c (lookup (wo_store w))" and ok: "world_ok cf (lookup (wo_store w)) w"
    using W by (simp_all add: world_inv_def)
  note reqs = world_okD(5) [OF ok]
  have grow: "world_inv c cf inv lookup w'"
    if "grown c (lookup (wo_store w)) (lookup (wo_store w')) new" "inv (wo_store w')" "wo_services w' = wo_services w"
      "mset (in_flight w') = mset (in_flight w) + mset new" "\<And>r. r \<in> set (wo_requests w') \<Longrightarrow> request_ok cf r" for new
    using that plain_ips_grown [OF plain that(1)] world_ok_grow [OF ok that(1,3,4,5)] by (simp add: world_inv_def)
  from step show ?thesis
  proof cases
    case (prepare random ns name old spec s' a spec' auto)
    note spec = maybe_allocate_spec [OF inv prepare(2)]
    show ?thesis
      by (rule grow [of "tx_created (au_txn a)"])
        (use spec reqs in \<open>auto simp: prepare(1) in_flight_def request_ok_def\<close>)
  next
    case (prepare_failed random ns name old spec s' a e)
    note spec = maybe_allocate_spec [OF inv prepare_failed(2)]
    show ?thesis
      by (rule grow [of "tx_created (au_txn a)"]) (use spec reqs in \<open>auto simp: prepare_failed(1) in_flight_def\<close>)
  next
    case (reserve_rest rs1 ns name old auto rs2 body s' t body')
    obtain new where new: "inv s'" "grown c (lookup (wo_store w)) (lookup s') new"
        "tx_created t = tx_created (auto_txn auto) @ new"
        "covers_keys cf (case old of Some o' \<Rightarrow> o' | None \<Rightarrow> JNull) (auto_addresses auto) (json_idx body' ''spec'') new (tx_stale t)"
      using begin_alloc_spec [OF inv reserve_rest(3)] plain by blast
    have "request_ok cf (Prepared (ns, name) old auto)" using reqs reserve_rest(2) by simp
    then have "request_ok cf (Reserved (ns, name) old (json_idx body' ''spec'') t)"
      using new by (intro reserved_ok [OF new(4)]) (auto simp: request_ok_def)
    then show ?thesis
      by (intro grow [of new]) (use new reqs reserve_rest(2) in \<open>auto simp: reserve_rest(1) in_flight_def\<close>)
  next
    case (reserve_failed rs1 ns name old auto rs2 body s' t e)
    obtain new where new: "inv s'" "grown c (lookup (wo_store w)) (lookup s') new"
        "tx_created t = tx_created (auto_txn auto) @ new"
      using begin_alloc_spec [OF inv reserve_failed(3)] by blast
    show ?thesis
      by (rule grow [of new]) (use new reqs reserve_failed(2) in \<open>auto simp: reserve_failed(1) in_flight_def\<close>)
  next
    case (land rs1 id' old spec t rs2)
    have r: "request_ok cf (Reserved id' old spec t)" and same: "wo_services w id' = old"
      and req: "wo_requests w = rs1 @ Reserved id' old spec t # rs2" using reqs land by simp_all
    have w': "w' = w\<lparr>wo_services := (wo_services w)(id' \<mapsto> spec), wo_requests := rs1 @ rs2,
        wo_releasing := wo_releasing w @ tx_stale t\<rparr>" using land by simp
    let ?held = "case old of Some o' \<Rightarrow> set (spec_keys cf o') | None \<Rightarrow> {}"
    have "world_ok cf (lookup (wo_store w)) w'"
      by (rule world_ok_services [OF ok, where id' = id' and new = "Some spec" and used = "tx_created t" and freed = "tx_stale t"])
        (use r same req reqs in \<open>auto simp: w' in_flight_def request_ok_def Let_def\<close>)
    then show ?thesis using inv plain by (simp add: world_inv_def w')
  next
    case (dropped rs1 r rs2)
    show ?thesis
      by (rule grow [of "[]"]) (use inv reqs dropped(2) in \<open>auto simp: dropped(1) in_flight_def\<close>)
  next
    case (read_delete id' spec)
    show ?thesis
      by (rule grow [of "[]"]) (use inv reqs in \<open>auto simp: read_delete(1) in_flight_def request_ok_def\<close>)
  next
    case (finish_delete rs1 id' spec rs2)
    let ?w = "w\<lparr>wo_requests := rs1 @ rs2\<rparr>"
    have req: "wo_requests w = rs1 @ Deleting id' spec # rs2" and end': "w' = delete_finish cf id' spec ?w"
      and read: "wo_services w id' = None \<or> wo_services w id' = Some spec" using finish_delete by simp_all
    have "world_ok cf (lookup (wo_store w)) w'"
    proof (cases "wo_services w id'")
      case None
      then have "w' = ?w" using end' by (simp add: delete_finish_def)
      then show ?thesis
        by (intro world_ok_grow [OF ok grown_refl]) (use req reqs in \<open>auto simp: in_flight_def\<close>)
    next
      case (Some spec')
      then have w': "w' = ?w\<lparr>wo_services := (wo_services w)(id' := None), wo_releasing := wo_releasing w @ spec_keys cf spec\<rparr>"
        and same: "spec' = spec" using end' read by (simp_all add: delete_finish_def)
      show ?thesis
        by (rule world_ok_services [OF ok, where id' = id' and new = None and used = "[]" and freed = "spec_keys cf spec"])
          (use Some same req reqs in \<open>auto simp: w' in_flight_def distinct_spec_keys\<close>)
    qed
    moreover have "wo_store w' = wo_store w" by (simp add: end' delete_finish_def split: option.splits)
    ultimately show ?thesis using inv plain by (simp add: world_inv_def)
  next
    case (release ks1 k ks2)
    have del: "inv (wo_store w')" "lookup (wo_store w') = (lookup (wo_store w))(k := None)"
      using delete_effect [OF inv, of k] by (simp_all add: release(1) delete_sentinel_def)
    have "world_ok cf (lookup (wo_store w')) w'"
      unfolding del(2) by (rule world_ok_release [OF ok release(2,1)])
    moreover have "plain_ips c (lookup (wo_store w'))" using plain unfolding del(2) plain_ips_def by simp
    ultimately show ?thesis using del(1) by (simp add: world_inv_def)
  qed
qed

lemma svc_steps_inv:
  "(svc_step c st cf True)\<^sup>*\<^sup>* w w' \<Longrightarrow> world_inv c cf inv lookup w \<Longrightarrow> world_inv c cf inv lookup w'"
  by (induction rule: rtranclp_induct) (auto intro: svc_step_inv)

end

subsection \<open>A Service with one node port\<close>

definition no_ips :: ip_config where
  "no_ips = \<lparr>cf_primary = None, cf_secondary = None\<rparr>"

definition port_entry :: "int \<Rightarrow> json" where
  "port_entry p = JObj [(''nodePort'', JInt p), (''port'', JInt 80)]"

definition port_spec :: "int \<Rightarrow> json" where
  "port_spec p =
     JObj [(''ipFamilies'', JArr [JStr ''IPv4'']), (''ipFamilyPolicy'', JStr ''SingleStack''),
           (''ports'', JArr [port_entry p]), (''type'', JStr ''NodePort'')]"

definition port_body :: "int \<Rightarrow> json" where
  "port_body p = JObj [(''spec'', port_spec p)]"

lemma port_spec_idx [simp]:
  "json_idx (port_spec p) ''type'' = JStr ''NodePort''"
  "json_idx (port_spec p) ''ports'' = JArr [port_entry p]"
  "json_idx (port_spec p) ''clusterIP'' = JNull"
  "json_idx (port_spec p) ''clusterIPs'' = JNull"
  "json_idx (port_spec p) ''healthCheckNodePort'' = JNull"
  "json_idx (port_spec p) ''ipFamilies'' = JArr [JStr ''IPv4'']"
  "json_idx (port_spec p) ''ipFamilyPolicy'' = JStr ''SingleStack''"
  "json_idx (port_spec p) ''externalTrafficPolicy'' = JNull"
  "json_idx (port_spec p) ''selector'' = JNull"
  "json_idx (port_body p) ''spec'' = port_spec p"
  by (simp_all add: port_spec_def port_body_def json_idx_def)

definition port_fields :: fields where
  "port_fields = \<lparr>f_type = ''NodePort'', f_cluster_ip = [], f_cluster_ips = [], f_families = [''IPv4''],
     f_policy = Some ''SingleStack'', f_selectorless = True\<rparr>"

lemma port_fields_sel [simp]:
  "f_type port_fields = ''NodePort''" "f_cluster_ip port_fields = []" "f_cluster_ips port_fields = []"
  "f_families port_fields = [''IPv4'']" "f_policy port_fields = Some ''SingleStack''"
  "port_fields\<lparr>f_cluster_ip := []\<rparr> = port_fields" "port_fields\<lparr>f_families := [''IPv4'']\<rparr> = port_fields"
  "port_fields\<lparr>f_policy := Some ''SingleStack''\<rparr> = port_fields"
  by (simp_all add: port_fields_def)

lemma port_fields_resolved:
  assumes "old = None \<or> old = Some port_fields"
  shows "resolve_fields [FamV4] old port_fields = Some (Inr port_fields)"
proof -
  have 1: "patch_allocated port_fields old = port_fields" using assms by (auto simp: patch_allocated_def Let_def)
  have 2: "\<not> prefer_dual_unchanged port_fields old" by (auto simp: prefer_dual_unchanged_def split: option.splits)
  have 3: "resolve_policy port_fields old = ''SingleStack''" by (simp add: resolve_policy_def)
  have "dup_families [''IPv4''] = []" by (simp add: dup_families_def parse_ip_family_def)
  then have 4: "validate_related_fields port_fields old = Some []"
    by (simp add: validate_related_fields_def policy_errors_def ip_errors_def family_mismatches_def Let_def)
  have 5: "downgrade port_fields old ''SingleStack'' = (port_fields, [])" using assms by (auto simp: downgrade_def Let_def)
  have 6: "single_errors port_fields ''SingleStack'' = []" by (simp add: single_errors_def)
  have "configured_errors [''IPv4''] [''IPv4''] = []" by (simp add: configured_errors_def)
  then have 7: "finish_families [FamV4] ''SingleStack'' port_fields = Inr port_fields" by (simp add: finish_families_def Let_def)
  show ?thesis unfolding resolve_fields_def Let_def 1 3 by (simp add: 2 4 5 6 7)
qed

lemma port_spec_fields: "read_fields (port_spec p) = port_fields"
  by (simp add: port_fields_def read_fields_def Let_def str_items_def as_array_def as_object_def str_or_def as_str_def List.map_filter_def)

lemma insort_insert_Nil [simp]: "insort_insert x [] = [x]"
  by (simp add: insort_insert_key_def)

lemma port_entry_port: "valid_port p \<Longrightarrow> node_port_of (port_entry p) = Some p"
  by (simp add: node_port_of_def nonzero_i64_def as_i64_def port_entry_def json_idx_def valid_port_def)

lemma port_spec_ports:
  assumes "valid_port p"
  shows "spec_ports (port_spec p) = [p] \<and> spec_ips (port_spec p) = [] \<and> node_port_of (port_entry p) = Some p"
proof -
  have "ports_of (port_spec p) = [port_entry p]" by (simp add: ports_of_def as_array_def)
  then have "spec_ports (port_spec p) = [p]"
    using port_entry_port [OF assms] by (simp add: spec_ports_def nonzero_i64_def as_i64_def List.map_filter_def)
  moreover have "spec_ips (port_spec p) = []"
    by (simp add: spec_ips_def str_items_def as_array_def List.map_filter_def)
  ultimately show ?thesis using port_entry_port [OF assms] by simp
qed

lemma port_spec_keys: "valid_port p \<Longrightarrow> spec_keys no_ips (port_spec p) = [port_key p]"
  by (simp add: spec_keys_def no_ips_def port_spec_ports)

lemma port_spec_init:
  assumes "old = None \<or> old = Some (port_spec q)"
  shows "init_ip_family_fields (service_ip_families no_ips) old (port_spec p) = Some (Inr (port_spec p))"
proof -
  have w: "write_fields (read_fields (port_spec p)) (port_spec p) = Some (port_spec p)"
    unfolding port_spec_fields write_fields_def by (simp add: json_set_def json_index_mut_def port_spec_def)
  have r: "resolve_fields [FamV4] (map_option read_fields old) (read_fields (port_spec p)) = Some (Inr (read_fields (port_spec p)))"
    using assms port_fields_resolved [of None] port_fields_resolved [of "Some port_fields"]
    by (auto simp: port_spec_fields)
  have "service_ip_families no_ips = [FamV4]"
    by (simp add: service_ip_families_def service_ip_allocators_def no_ips_def)
  then show ?thesis using w r by (simp add: init_ip_family_fields_def Let_def port_spec_fields)
qed

lemma port_spec_prepare:
  assumes "old = None \<or> old = Some (port_spec q)"
  shows "maybe_allocate_cluster_ip c st no_ips random ns name old (port_spec p) False s = (s, auto_new, Inr (port_spec p, None))"
proof -
  have "validate_ip_fields_update (port_spec q) (port_spec p) = []"
    by (simp add: validate_ip_fields_update_def port_spec_fields ip_change_errors_def family_change_errors_def Let_def headless_def)
  moreover have "service_ip_allocators no_ips = []" by (simp add: service_ip_allocators_def no_ips_def)
  ultimately show ?thesis
    using assms by (auto simp: maybe_allocate_cluster_ip_def port_spec_init)
qed

lemma port_spec_drop: "drop_type_dependent_fields (port_spec p) = Some (port_spec p)"
  by (simp add: drop_type_dependent_fields_def local_traffic_def service_type_def str_or_def as_str_def)
    (simp add: port_spec_def bt_remove_def)

context object_store
begin

lemma port_reserved:
  assumes "inv s" and "lookup s (port_key p) = None" and "in_port_range p" and "old = None \<or> (\<exists>q. old = Some (port_spec q) \<and> valid_port q \<and> q \<noteq> p)"
  shows "\<exists>s'. begin_alloc c st no_ips False ns name old (port_body p) None s =
      (s', \<lparr>tx_created = [port_key p], tx_stale = (case old of None \<Rightarrow> [] | Some o' \<Rightarrow> map port_key (spec_ports o'))\<rparr>, Inr (port_body p)) \<and>
    inv s' \<and> dom (lookup s') = insert (port_key p) (dom (lookup s))"
proof -
  have vp: "valid_port p" using assms(3) by (simp add: in_port_range_def valid_port_def node_port_min_def node_port_max_def)
  obtain s' t' r where rs: "reserve c st False (port_key p) s new_txn = (s', t', r)" by (metis prod_cases3)
  have res: "inv s'" "r = Inr True" "grown c (lookup s) (lookup s') [port_key p]" "t' = new_txn\<lparr>tx_created := [port_key p]\<rparr>"
    using reserve_spec [OF assms(1) rs] assms(2) by (auto simp: recorded_def new_txn_def)
  define oports where "oports = spec_ports (case old of None \<Rightarrow> JNull | Some o' \<Rightarrow> o')"
  have fresh: "p \<notin> set oports"
    using assms(4) port_spec_ports
    by (auto simp: oports_def spec_ports_def ports_of_def nonzero_i64_def as_array_def as_i64_def json_idx_def List.map_filter_def)
  have ports: "ports_of (port_spec p) = [port_entry p]" by (simp add: ports_of_def as_array_def)
  have np: "node_port_of (port_entry p) = Some p" using port_spec_ports [OF vp] by simp
  have rp: "reserve_ports c st False oports 0 [port_entry p] [] s new_txn = (s', t', Inr [p])"
    using fresh assms(3) rs res(2) by (simp add: np reserve_port_def)
  have ap: "assign_ports c st False [port_entry p] [p] (ports_by_number [port_entry p]) s' t' = (s', t', Inr ([port_entry p], [p]))"
    unfolding assign_ports_Cons by (simp add: np)
  have same: "set_ports (port_spec p) [port_entry p] = Some (port_spec p)"
    by (simp add: set_ports_def as_array_def) (simp add: json_set_def json_index_mut_def port_spec_def)
  have an: "assign_node_ports c st False [p] (port_spec p) s' t' = (s', t', Inr (port_spec p, [p]))"
    unfolding assign_node_ports_def ports ap by (simp add: same allocates_node_ports_def service_type_def str_or_def as_str_def)
  have hc: "reserve_health_check c st False oports [p] (port_spec p) s' t' = (s', t', None)"
      "assign_health_check c st False [p] (port_spec p) s' t' = (s', t', Inr (port_spec p))"
    by (simp_all add: reserve_health_check_def nonzero_i64_def as_i64_def assign_health_check_def local_traffic_def service_type_def
        str_or_def as_str_def)
  have nports: "reserve_node_ports c st False oports (port_spec p) s new_txn = (s', t', Inr (port_spec p))"
    unfolding reserve_node_ports_def ports rp by (simp add: hc an)
  have all: "reserve_all c st no_ips False ns name old (port_spec p) [] s new_txn =
      (s', t', Inr (port_spec p, map port_key (filter (\<lambda>q. q \<notin> {p}) oports)))"
    using nports port_spec_ports [OF vp]
    by (auto simp: reserve_all_def Let_def port_spec_drop reserve_cluster_ips_def no_ips_def oports_def split: option.splits)
  have stale: "map port_key (filter (\<lambda>q. q \<notin> {p}) oports) = (case old of None \<Rightarrow> [] | Some o' \<Rightarrow> map port_key (spec_ports o'))"
    using assms(4) port_spec_ports
    by (auto simp: oports_def spec_ports_def ports_of_def nonzero_i64_def as_array_def as_i64_def json_idx_def List.map_filter_def)
  have "begin_alloc c st no_ips False ns name old (port_body p) None s =
      (s', t'\<lparr>tx_stale := map port_key (filter (\<lambda>q. q \<notin> {p}) oports)\<rparr>, Inr (port_body p))"
    using all by (simp add: begin_alloc_def Let_def json_set_def json_index_mut_def port_body_def json_idx_def)
  then show ?thesis
    using res stale by (auto simp: new_txn_def grown_def)
qed

end

subsection \<open>Runs\<close>

definition idle_world :: "'s \<Rightarrow> 's world" where
  "idle_world s = \<lparr>wo_store = s, wo_services = (\<lambda>_. None), wo_requests = [], wo_releasing = []\<rparr>"


context object_store
begin

text \<open>A create, or an update that moves a Service to another port, from the first read to the landed write.\<close>

lemma port_written:
  assumes "inv (wo_store w)" and "lookup (wo_store w) (port_key p) = None" and "in_port_range p"
    and "wo_services w (ns, name) = None \<or> (\<exists>q. wo_services w (ns, name) = Some (port_spec q) \<and> valid_port q \<and> q \<noteq> p)"
  obtains w' where "(svc_step c st no_ips True)\<^sup>*\<^sup>* w w'" "inv (wo_store w')" "wo_requests w' = wo_requests w"
    "dom (lookup (wo_store w')) = insert (port_key p) (dom (lookup (wo_store w)))"
    "wo_services w' = (wo_services w)((ns, name) \<mapsto> port_spec p)"
    "wo_releasing w' = wo_releasing w @
       (case wo_services w (ns, name) of None \<Rightarrow> [] | Some o' \<Rightarrow> map port_key (spec_ports o'))"
proof -
  define old where "old = wo_services w (ns, name)"
  obtain s' t where b: "begin_alloc c st no_ips False ns name old (port_body p) None (wo_store w) = (s', t, Inr (port_body p))"
      and t: "t = \<lparr>tx_created = [port_key p], tx_stale = (case old of None \<Rightarrow> [] | Some o' \<Rightarrow> map port_key (spec_ports o'))\<rparr>"
      and s': "inv s'" "dom (lookup s') = insert (port_key p) (dom (lookup (wo_store w)))"
    using port_reserved [OF assms(1-3), of old ns name] assms(4) unfolding old_def by blast
  let ?w1 = "w\<lparr>wo_store := wo_store w, wo_requests := wo_requests w @ [Prepared (ns, name) old None]\<rparr>"
  let ?w2 = "?w1\<lparr>wo_store := s', wo_requests := wo_requests w @ Reserved (ns, name) old (json_idx (port_body p) ''spec'') t # []\<rparr>"
  let ?w3 = "?w2\<lparr>wo_services := (wo_services ?w2)((ns, name) \<mapsto> json_idx (port_body p) ''spec''), wo_requests := wo_requests w @ [],
    wo_releasing := wo_releasing ?w2 @ tx_stale t\<rparr>"
  have "\<exists>q. old = None \<or> old = Some (port_spec q)" using assms(4) by (auto simp: old_def)
  then have "svc_step c st no_ips True w ?w1"
    using svc_step.prepare [where w = w and old = old, OF port_spec_prepare] by blast
  moreover have "svc_step c st no_ips True ?w1 ?w2"
    by (rule svc_step.reserve_rest [where ?rs1.0 = "wo_requests w" and ?rs2.0 = "[]" and auto = None]) (use b in simp_all)
  moreover have "svc_step c st no_ips (wo_services ?w2 (ns, name) = old) ?w2 ?w3"
    by (rule svc_step.land [where ?rs1.0 = "wo_requests w" and ?rs2.0 = "[]"]) simp
  then have "svc_step c st no_ips True ?w2 ?w3" by (simp add: old_def)
  ultimately have "(svc_step c st no_ips True)\<^sup>*\<^sup>* w ?w3" by (meson converse_rtranclp_into_rtranclp rtranclp.rtrancl_refl)
  then show ?thesis by (rule that) (use s' t in \<open>simp_all add: old_def\<close>)
qed

lemma key_released:
  assumes "inv (wo_store w)" and "wo_releasing w = [k]"
  obtains w' where "svc_step c st cf True w w'" "inv (wo_store w')" "wo_requests w' = wo_requests w"
    "dom (lookup (wo_store w')) = dom (lookup (wo_store w)) - {k}" "wo_services w' = wo_services w" "wo_releasing w' = []"
proof (rule that)
  let ?w' = "w\<lparr>wo_store := delete_sentinel st k (wo_store w), wo_releasing := [] @ []\<rparr>"
  show "svc_step c st cf True w ?w'" by (rule svc_step.release [where k = k]) (use assms(2) in simp)
  show "inv (wo_store ?w')" "dom (lookup (wo_store ?w')) = dom (lookup (wo_store w)) - {k}"
    using delete_effect [OF assms(1), of k] by (simp_all add: delete_sentinel_def)
qed simp_all

text \<open>
  A Service is created and a DELETE reads it; an update moves it to another port, the port it left is
  released and a second Service takes it.
\<close>

lemma moved_while_deleting:
  assumes "inv s" and "port_key p \<notin> dom (lookup s)" and "port_key q \<notin> dom (lookup s)" and "p \<noteq> q"
    and "in_port_range p" and "in_port_range q" and "x \<noteq> y"
  obtains w1 w2 where "(svc_step c st no_ips True)\<^sup>*\<^sup>* (idle_world s) w1" "wo_services w1 (ns, x) = Some (port_spec p)"
    "wo_requests w1 = [Deleting (ns, x) (port_spec p)]" "(svc_step c st no_ips True)\<^sup>*\<^sup>* w1 w2" "inv (wo_store w2)"
    "wo_requests w2 = [Deleting (ns, x) (port_spec p)]" "wo_releasing w2 = []"
    "dom (lookup (wo_store w2)) = insert (port_key p) (insert (port_key q) (dom (lookup s)))"
    "wo_services w2 = (\<lambda>_. None)((ns, x) \<mapsto> port_spec q, (ns, y) \<mapsto> port_spec p)"
proof -
  have valid: "valid_port p" "valid_port q"
    using assms(5,6) by (simp_all add: in_port_range_def valid_port_def node_port_min_def node_port_max_def)
  obtain w0 where w0: "(svc_step c st no_ips True)\<^sup>*\<^sup>* (idle_world s) w0" "inv (wo_store w0)" "wo_requests w0 = []"
      "dom (lookup (wo_store w0)) = insert (port_key p) (dom (lookup s))"
      "wo_services w0 = (\<lambda>_. None)((ns, x) \<mapsto> port_spec p)" "wo_releasing w0 = []"
  proof (rule port_written [of "idle_world s" p ns x])
    show "lookup (wo_store (idle_world s)) (port_key p) = None" using assms(2) by (simp add: idle_world_def domIff)
  qed (use assms in \<open>auto simp: idle_world_def\<close>)
  define w1 where "w1 = w0\<lparr>wo_requests := wo_requests w0 @ [Deleting (ns, x) (port_spec p)]\<rparr>"
  have read: "svc_step c st no_ips True w0 w1" unfolding w1_def by (rule svc_step.read_delete) (simp add: w0(5))
  obtain w2 where w2: "(svc_step c st no_ips True)\<^sup>*\<^sup>* w1 w2" "inv (wo_store w2)" "wo_requests w2 = wo_requests w1"
      "dom (lookup (wo_store w2)) = insert (port_key q) (insert (port_key p) (dom (lookup s)))"
      "wo_services w2 = (\<lambda>_. None)((ns, x) \<mapsto> port_spec q)" "wo_releasing w2 = [port_key p]"
  proof (rule port_written [of w1 q ns x])
    show "lookup (wo_store w1) (port_key q) = None"
      using w0(4) assms(3,4) unfolding w1_def by simp (metis domIff insert_iff port_key_inject)
  qed (use w0 assms(4,6) valid port_spec_ports [OF valid(1)] in \<open>auto simp: w1_def\<close>)
  obtain w3 where w3: "svc_step c st no_ips True w2 w3" "inv (wo_store w3)" "wo_requests w3 = wo_requests w2"
      "dom (lookup (wo_store w3)) = dom (lookup (wo_store w2)) - {port_key p}" "wo_services w3 = wo_services w2" "wo_releasing w3 = []"
    by (rule key_released [OF w2(2,6), of no_ips])
  have dom3: "dom (lookup (wo_store w3)) = insert (port_key q) (dom (lookup s))" unfolding w3(4) w2(4) using assms(2,4) by auto
  obtain w4 where w4: "(svc_step c st no_ips True)\<^sup>*\<^sup>* w3 w4" "inv (wo_store w4)" "wo_requests w4 = wo_requests w1"
      "dom (lookup (wo_store w4)) = insert (port_key p) (insert (port_key q) (dom (lookup s)))"
      "wo_services w4 = (wo_services w2)((ns, y) \<mapsto> port_spec p)" "wo_releasing w4 = []"
  proof (rule port_written [of w3 p ns y])
    show "lookup (wo_store w3) (port_key p) = None" using dom3 assms(2,4) by (metis domIff insert_iff port_key_inject)
  qed (use w3 dom3 w2(3,5) assms(5,7) in auto)
  have "(svc_step c st no_ips True)\<^sup>*\<^sup>* w1 w4" using w2(1) w3(1) w4(1) by (meson r_into_rtranclp rtranclp_trans)
  moreover have "(svc_step c st no_ips True)\<^sup>*\<^sup>* (idle_world s) w1" using w0(1) read by simp
  ultimately show ?thesis using that [of w1 w4] w0(3,5) w4 w2(5) by (simp add: w1_def)
qed

text \<open>The DELETE finishes on what it read, its release runs, and a third Service takes the port.\<close>

lemma stale_delete_run:
  assumes "inv (wo_store w)" and "wo_requests w = [Deleting (ns, x) (port_spec p)]" and "wo_releasing w = []"
    and "wo_services w (ns, x) = Some (port_spec q)" and "wo_services w (ns, y) = Some (port_spec p)"
    and "p \<noteq> q" and "in_port_range p" and "x \<noteq> y" and "y \<noteq> z" and "wo_services w (ns, z) = None"
  defines "w' \<equiv> delete_finish no_ips (ns, x) (port_spec p) (w\<lparr>wo_requests := []\<rparr>)"
  shows "svc_step c st no_ips False w w' \<and> wo_services w' (ns, x) = None \<and>
    (\<exists>w3 w4. (svc_step c st no_ips True)\<^sup>*\<^sup>* w' w3 \<and> wo_services w3 (ns, y) = Some (port_spec p) \<and>
       lookup (wo_store w3) (port_key p) = None \<and> (svc_step c st no_ips True)\<^sup>*\<^sup>* w3 w4 \<and>
       wo_services w4 (ns, y) = Some (port_spec p) \<and> wo_services w4 (ns, z) = Some (port_spec p))"
proof -
  have valid: "valid_port p"
    using assms(7) by (simp add: in_port_range_def valid_port_def node_port_min_def node_port_max_def)
  have "port_spec p \<noteq> port_spec q" using assms(6) by (simp add: port_spec_def port_entry_def)
  then have step: "svc_step c st no_ips False w w'"
    using svc_step.finish_delete [of w "[]" "(ns, x)" "port_spec p" "[]" c st no_ips] assms(2,4) by (simp add: w'_def)
  have w': "inv (wo_store w')" "wo_releasing w' = [port_key p]" "wo_requests w' = []"
      "wo_services w' = (wo_services w)((ns, x) := None)"
    using assms(1,3,4) port_spec_keys [OF valid] by (simp_all add: w'_def delete_finish_def)
  obtain w3 where w3: "svc_step c st no_ips True w' w3" "inv (wo_store w3)" "wo_requests w3 = wo_requests w'"
      "dom (lookup (wo_store w3)) = dom (lookup (wo_store w')) - {port_key p}" "wo_services w3 = wo_services w'" "wo_releasing w3 = []"
    by (rule key_released [OF w'(1,2), of no_ips])
  have free: "lookup (wo_store w3) (port_key p) = None" using w3(4) by blast
  obtain w4 where w4: "(svc_step c st no_ips True)\<^sup>*\<^sup>* w3 w4" "wo_services w4 = (wo_services w3)((ns, z) \<mapsto> port_spec p)"
    by (rule port_written [OF w3(2) free assms(7), of ns z]) (use w3(5) w'(4) assms(10) in auto)
  have "(svc_step c st no_ips True)\<^sup>*\<^sup>* w' w3" using w3(1) by (rule r_into_rtranclp)
  then show ?thesis
    using step w'(4) w3(5) free w4 assms(5,8,9) by (intro conjI exI [of _ w3] exI [of _ w4]) auto
qed

end

lemma grown_undone:
  assumes "grown c m m' new"
  shows "(\<lambda>k. if k \<in> set new then None else m' k) = m"
proof
  fix k
  have g: "k \<in> set new \<Longrightarrow> k \<notin> dom m" "k \<in> dom m' \<longleftrightarrow> k \<in> dom m \<or> k \<in> set new" "k \<in> dom m \<Longrightarrow> m' k = m k"
    using assms unfolding grown_def by blast+
  show "(if k \<in> set new then None else m' k) = m k"
  proof (cases "k \<in> dom m")
    case True
    then show ?thesis using g(1,3) by auto
  next
    case False
    then show ?thesis using g(2) by (auto simp: domIff)
  qed
qed

context object_store
begin

lemma two_services_run:
  assumes "inv s" and "port_key p \<notin> dom (lookup s)" and "port_key q \<notin> dom (lookup s)" and "p \<noteq> q"
    and "in_port_range p" and "in_port_range q" and "x \<noteq> y"
  obtains w where "(svc_step c st no_ips True)\<^sup>*\<^sup>* (idle_world s) w"
    "wo_services w (ns, x) = Some (port_spec p)" "wo_services w (ns, y) = Some (port_spec q)"
proof -
  obtain w1 where w1: "(svc_step c st no_ips True)\<^sup>*\<^sup>* (idle_world s) w1" "inv (wo_store w1)" "wo_requests w1 = []"
      "dom (lookup (wo_store w1)) = insert (port_key p) (dom (lookup s))"
      "wo_services w1 = (\<lambda>_. None)((ns, x) \<mapsto> port_spec p)"
  proof (rule port_written [of "idle_world s" p ns x])
    show "lookup (wo_store (idle_world s)) (port_key p) = None" using assms(2) by (simp add: idle_world_def domIff)
  qed (use assms in \<open>auto simp: idle_world_def\<close>)
  obtain w2 where "(svc_step c st no_ips True)\<^sup>*\<^sup>* w1 w2" "wo_services w2 = (wo_services w1)((ns, y) \<mapsto> port_spec q)"
  proof (rule port_written [of w1 q ns y])
    show "lookup (wo_store w1) (port_key q) = None" using w1(4) assms(3,4) by (metis domIff insert_iff port_key_inject)
  qed (use w1 assms(6,7) in auto)
  then show ?thesis using that [of w2] rtranclp_trans [OF w1(1)] w1(5) assms(7) by auto
qed

lemma fold_delete_effect:
  "inv s \<Longrightarrow> inv (fold (delete_sentinel st) ks s) \<and> lookup (fold (delete_sentinel st) ks s) = (\<lambda>k. if k \<in> set ks then None else lookup s k)"
proof (induction ks arbitrary: s)
  case (Cons k ks)
  have "inv (delete_sentinel st k s)" "lookup (delete_sentinel st k s) = (lookup s)(k := None)"
    using delete_effect [OF Cons.prems, of k] by (simp_all add: delete_sentinel_def)
  then show ?case using Cons.IH [of "delete_sentinel st k s"] by (auto simp: fun_eq_iff)
qed simp

text \<open>What a request took, from its addresses to the end of its reservation, is undone by freeing what it created.\<close>

lemma created_undone:
  assumes "inv s" and "maybe_allocate_cluster_ip c st cf random ns name old spec False s = (s1, a, Inr (spec', auto))"
    and "begin_alloc c st cf False ns name old body auto s1 = (s2, t, r)"
  shows "lookup (fold (delete_sentinel st) (tx_created t) s2) = lookup s"
proof -
  have a: "inv s1" "grown c (lookup s) (lookup s1) (tx_created (au_txn a))" "auto_txn auto = au_txn a"
    using maybe_allocate_spec [OF assms(1,2)] by simp_all
  obtain new where n: "inv s2" "grown c (lookup s1) (lookup s2) new" "tx_created t = tx_created (auto_txn auto) @ new"
    using begin_alloc_spec [OF a(1) assms(3)] by blast
  have "grown c (lookup s) (lookup s2) (tx_created t)"
    unfolding n(3) a(3) by (rule grown_trans [OF a(2) n(2)])
  then show ?thesis using fold_delete_effect [OF n(1), of "tx_created t"] grown_undone by simp
qed

lemma txn_undone:
  assumes "inv s" and "maybe_allocate_cluster_ip c st cf random ns name old spec False s = (s1, a, Inr (spec', auto))"
    and "begin_alloc c st cf False ns name old body auto s1 = (s2, t, r)"
  shows "lookup (txn_rollback st t s2) = lookup s" and "lookup (txn_drop st t s2) = lookup s"
  using created_undone [OF assms] by (auto simp: txn_rollback_def txn_drop_def)

lemma allocate_next_port_spec:
  assumes "inv s" and "port_keys_ok (lookup s)" and "allocate_next_port c st False taken s t = (s', t', r)"
  shows "case r of
      Inr p \<Rightarrow> first_free [node_port_min..node_port_max] (\<lambda>q. q \<in> set taken \<or> lookup s (port_key q) \<noteq> None) p \<and>
        took c (lookup s) t (lookup s') t' [port_key p]
    | Inl e \<Rightarrow> e = PortRangeFull \<and> s' = s \<and> t' = t \<and>
        (\<forall>q \<in> set [node_port_min..node_port_max]. q \<in> set taken \<or> lookup s (port_key q) \<noteq> None)"
proof (rule used_ports_canonical [OF assms(1,2)])
  fix used
  assume u: "used_ports st s = Inr used" and canon: "\<And>p. valid_port p \<Longrightarrow> p \<in> set used \<longleftrightarrow> lookup s (port_key p) \<noteq> None"
  let ?range = "[node_port_min..node_port_max]"
  have run: "try_ports c st False (used @ taken) ?range s t = (s', t', r)"
    using assms(3) unfolding allocate_next_port_def u by simp
  have same: "(q \<in> set (used @ taken) \<or> lookup s (port_key q) \<noteq> None) \<longleftrightarrow> (q \<in> set taken \<or> lookup s (port_key q) \<noteq> None)"
    if "q \<in> set ?range" for q
    using canon [OF in_range_valid [OF that]] by auto
  have ff: "first_free ?range (\<lambda>q. q \<in> set taken \<or> lookup s (port_key q) \<noteq> None) p"
    if "first_free ?range (\<lambda>q. q \<in> set (used @ taken) \<or> lookup s (port_key q) \<noteq> None) p" for p
  proof -
    from that obtain ps1 ps2 where ps: "?range = ps1 @ p # ps2" "\<not> (p \<in> set (used @ taken) \<or> lookup s (port_key p) \<noteq> None)"
        "list_all (\<lambda>q. q \<in> set (used @ taken) \<or> lookup s (port_key q) \<noteq> None) ps1"
      unfolding first_free_def by blast
    have mem: "q \<in> set ?range" if "q \<in> set ps1" for q using that unfolding ps(1) by simp
    have "list_all (\<lambda>q. q \<in> set taken \<or> lookup s (port_key q) \<noteq> None) ps1"
      unfolding list_all_iff using ps(3) same mem unfolding list_all_iff by blast
    then show ?thesis unfolding first_free_def using ps(1,2) by auto
  qed
  show ?thesis
  proof (cases r)
    case (Inr p)
    then show ?thesis using try_ports_spec [OF assms(1) run] ff by simp
  next
    case (Inl e)
    then show ?thesis using try_ports_spec [OF assms(1) run] same unfolding list_all_iff Inl by (simp only: sum.case) blast
  qed
qed

end

subsection \<open>Properties\<close>

lemma empty_tables_ok: "tables_ok plain_codec (empty_db :: json db)"
  by (simp add: tables_ok_def plain_codec_ok empty_db_inv)

lemma empty_tables_get: "get_sync (empty_db :: json db) k = None"
  by (simp add: get_sync_def row_at_def empty_db_def)

lemma first_free_upto:
  assumes "first_free [i..j] held p"
  shows "i \<le> p" "p \<le> j" "\<not> held p" "i \<le> q \<Longrightarrow> q < p \<Longrightarrow> held q"
proof -
  obtain ps1 ps2 where ps: "[i..j] = ps1 @ p # ps2" "\<not> held p" "list_all held ps1"
    using assms unfolding first_free_def by blast
  have "p \<in> set [i..j]" unfolding ps(1) by simp
  then show "i \<le> p" "p \<le> j" "\<not> held p" using ps(2) by simp_all
  have "sorted_wrt (<) (ps1 @ p # ps2)" using sorted_wrt_upto [of i j] unfolding ps(1) .
  then have "\<forall>x \<in> set ps2. p < x" by (simp add: sorted_wrt_append)
  moreover have "q \<in> set (ps1 @ p # ps2)" if "i \<le> q" "q < p"
    using that \<open>p \<le> j\<close> unfolding ps(1) [symmetric] by simp
  ultimately show "held q" if "i \<le> q" "q < p" using that ps(3) by (auto simp: list_all_iff)
qed



text \<open>C17: a DELETE that finishes on an old read breaks exclusivity. A DELETE has read a Service with node port 30001.
  Before it removes the object, an update moves the Service to port 30002 (so the object still exists, with another
  spec), port 30001 is released, and a second Service takes it, sentinel included. The DELETE then removes the first
  Service whatever its version and releases the port of the spec it had read: the sentinel of 30001 is gone while the
  second Service still holds the port, and a third Service is given the same node port.\<close>

theorem stale_delete_shares_port:
  "\<exists>w1 w2 w3 w4 w5.
     (svc_step plain_codec (sqlite_tables plain_codec) no_ips True)\<^sup>*\<^sup>* (idle_world (empty_db :: json db)) w1 \<and>
     wo_services w1 (''default'', ''x'') = Some (port_spec 30001) \<and>
     wo_requests w1 = [Deleting (''default'', ''x'') (port_spec 30001)] \<and>
     (svc_step plain_codec (sqlite_tables plain_codec) no_ips True)\<^sup>*\<^sup>* w1 w2 \<and>
     wo_services w2 (''default'', ''x'') = Some (port_spec 30002) \<and>
     wo_services w2 (''default'', ''y'') = Some (port_spec 30001) \<and> get_sync (wo_store w2) (port_key 30001) \<noteq> None \<and>
     w3 = delete_finish no_ips (''default'', ''x'') (port_spec 30001) (w2\<lparr>wo_requests := []\<rparr>) \<and>
     svc_step plain_codec (sqlite_tables plain_codec) no_ips False w2 w3 \<and> wo_services w3 (''default'', ''x'') = None \<and>
     (svc_step plain_codec (sqlite_tables plain_codec) no_ips True)\<^sup>*\<^sup>* w3 w4 \<and>
     wo_services w4 (''default'', ''y'') = Some (port_spec 30001) \<and> get_sync (wo_store w4) (port_key 30001) = None \<and>
     (svc_step plain_codec (sqlite_tables plain_codec) no_ips True)\<^sup>*\<^sup>* w4 w5 \<and>
     wo_services w5 (''default'', ''y'') = Some (port_spec 30001) \<and> wo_services w5 (''default'', ''z'') = Some (port_spec 30001)"
proof -
  have range: "in_port_range 30001" "in_port_range 30002" by (simp_all add: in_port_range_def node_port_min_def node_port_max_def)
  obtain w1 w2 where w: "(svc_step plain_codec (sqlite_tables plain_codec) no_ips True)\<^sup>*\<^sup>* (idle_world (empty_db :: json db)) w1"
      "wo_services w1 (''default'', ''x'') = Some (port_spec 30001)" "wo_requests w1 = [Deleting (''default'', ''x'') (port_spec 30001)]"
      "(svc_step plain_codec (sqlite_tables plain_codec) no_ips True)\<^sup>*\<^sup>* w1 w2" "tables_ok plain_codec (wo_store w2)"
      "wo_requests w2 = [Deleting (''default'', ''x'') (port_spec 30001)]" "wo_releasing w2 = []"
      "dom (get_sync (wo_store w2)) = insert (port_key 30001) (insert (port_key 30002) (dom (get_sync (empty_db :: json db))))"
      "wo_services w2 = (\<lambda>_. None)((''default'', ''x'') \<mapsto> port_spec 30002, (''default'', ''y'') \<mapsto> port_spec 30001)"
    by (rule sqlite.moved_while_deleting [OF empty_tables_ok, of 30001 30002 "''x''" "''y''" "''default''"])
      (auto simp: empty_tables_get domIff range)
  have held: "get_sync (wo_store w2) (port_key 30001) \<noteq> None" using w(8) by blast
  have svc: "wo_services w2 (''default'', ''x'') = Some (port_spec 30002)" "wo_services w2 (''default'', ''y'') = Some (port_spec 30001)"
    "wo_services w2 (''default'', ''z'') = None" using w(9) by simp_all
  let ?w3 = "delete_finish no_ips (''default'', ''x'') (port_spec 30001) (w2\<lparr>wo_requests := []\<rparr>)"
  have end': "svc_step plain_codec (sqlite_tables plain_codec) no_ips False w2 ?w3 \<and> wo_services ?w3 (''default'', ''x'') = None \<and>
    (\<exists>w4 w5. (svc_step plain_codec (sqlite_tables plain_codec) no_ips True)\<^sup>*\<^sup>* ?w3 w4 \<and>
       wo_services w4 (''default'', ''y'') = Some (port_spec 30001) \<and> get_sync (wo_store w4) (port_key 30001) = None \<and>
       (svc_step plain_codec (sqlite_tables plain_codec) no_ips True)\<^sup>*\<^sup>* w4 w5 \<and>
       wo_services w5 (''default'', ''y'') = Some (port_spec 30001) \<and> wo_services w5 (''default'', ''z'') = Some (port_spec 30001))"
    by (rule sqlite.stale_delete_run [OF w(5-7) svc(1,2) _ range(1) _ _ svc(3)]) simp_all
  show ?thesis by (rule exI [of _ w1], rule exI [of _ w2], rule exI [of _ ?w3]) (use w(1-4) held svc end' in blast)
qed

text \<open>C15: a write that is refused gives back all it took. A request takes its cluster addresses, automatically
  allocated ones included, and reserves its other keys, over any well-formed store and with no other request in
  between. If the reservation fails, dropping its transaction restores exactly the objects that were stored before the
  request; if it succeeds and the create of the object then fails, for whatever reason, both rolling the transaction
  back and dropping it do.\<close>

theorem refused_write_rolls_back:
  assumes "tables_ok c d"
    and "maybe_allocate_cluster_ip c (sqlite_tables c) cf random ns name old spec False d = (d1, a, Inr (spec', auto))"
    and "begin_alloc c (sqlite_tables c) cf False ns name old body auto d1 = (d2, t, r)"
  shows "case r of
      Inl e \<Rightarrow> get_sync (txn_drop (sqlite_tables c) t d2) = get_sync d
    | Inr body' \<Rightarrow>
        (case create_committing (sqlite_tables c) ns_key key (to_vec c body') t d2 of
           (d3, Inl (e, t')) \<Rightarrow>
             get_sync (txn_rollback (sqlite_tables c) t' d3) = get_sync d \<and>
             get_sync (txn_drop (sqlite_tables c) t' d3) = get_sync d
         | (d3, Inr rv) \<Rightarrow> True)"
proof -
  note undone = sqlite.txn_undone [OF assms]
  have "d3 = d2 \<and> t' = t" if "create_committing (sqlite_tables c) ns_key key v t d2 = (d3, Inl (e, t'))" for v d3 e t'
    using that by (auto simp: create_committing_def sqlite_tables_def commit_or_keep_def split: sum.splits prod.splits)
  then show ?thesis using undone by (fastforce split: sum.split prod.split)
qed

definition two_port_body :: json where
  "two_port_body = JObj [(''spec'', JObj [(''ports'', JArr [port_entry 30001, port_entry 80]), (''type'', JStr ''NodePort'')])]"

lemma two_port_refused:
  "\<exists>d' t. begin_alloc plain_codec (sqlite_tables plain_codec) no_ips False ''default'' ''x'' None two_port_body None (empty_db :: json db) =
       (d', t, Inl (PortNotInRange (port_field 1) 80)) \<and> get_sync d' (port_key 30001) \<noteq> None"
proof -
  let ?spec = "JObj [(''ports'', JArr [port_entry 30001, port_entry 80]), (''type'', JStr ''NodePort'')]"
  obtain d' t r where rs: "reserve plain_codec (sqlite_tables plain_codec) False (port_key 30001) (empty_db :: json db) new_txn = (d', t, r)"
    by (metis prod_cases3)
  have r: "r = Inr True" "grown plain_codec (get_sync empty_db) (get_sync d') [port_key 30001]"
    using sqlite.reserve_spec [OF empty_tables_ok rs] by (auto simp: empty_tables_get)
  have vp: "valid_port 30001" "valid_port 80" by (simp_all add: valid_port_def)
  have none: "spec_ports JNull = []"
    by (simp add: spec_ports_def ports_of_def nonzero_i64_def as_array_def as_i64_def json_idx_def List.map_filter_def)
  have rp: "reserve_ports plain_codec (sqlite_tables plain_codec) False [] 0 [port_entry 30001, port_entry 80] [] (empty_db :: json db) new_txn =
      (d', t, Inl (PortNotInRange (port_field 1) 80))"
    using rs r(1) by (simp add: port_entry_port [OF vp(1)] port_entry_port [OF vp(2)] reserve_port_def in_port_range_def
        node_port_min_def node_port_max_def)
  have ports: "ports_of ?spec = [port_entry 30001, port_entry 80]" by (simp add: ports_of_def as_array_def json_idx_def)
  have np: "reserve_node_ports plain_codec (sqlite_tables plain_codec) False [] ?spec (empty_db :: json db) new_txn =
      (d', t, Inl (PortNotInRange (port_field 1) 80))"
    unfolding reserve_node_ports_def ports rp by simp
  have drop: "drop_type_dependent_fields ?spec = Some ?spec"
    by (simp add: drop_type_dependent_fields_def local_traffic_def service_type_def str_or_def as_str_def json_idx_def bt_remove_def)
  have all: "reserve_all plain_codec (sqlite_tables plain_codec) no_ips False ''default'' ''x'' None ?spec [] (empty_db :: json db) new_txn =
      (d', t, Inl (PortNotInRange (port_field 1) 80))"
    using np by (simp add: reserve_all_def drop none reserve_cluster_ips_def no_ips_def)
  have "begin_alloc plain_codec (sqlite_tables plain_codec) no_ips False ''default'' ''x'' None two_port_body None (empty_db :: json db) =
      (d', t, Inl (PortNotInRange (port_field 1) 80))"
    using all by (simp add: begin_alloc_def two_port_body_def json_set_def json_index_mut_def json_idx_def)
  then show ?thesis using r(2) by (auto simp: grown_def)
qed

theorem refused_write_rolls_back_witness:
  "(\<exists>d' t. begin_alloc plain_codec (sqlite_tables plain_codec) no_ips False ''default'' ''x'' None two_port_body None (empty_db :: json db) =
       (d', t, Inl (PortNotInRange (port_field 1) 80)) \<and>
     get_sync d' (port_key 30001) \<noteq> None \<and> get_sync (txn_drop (sqlite_tables plain_codec) t d') (port_key 30001) = None) \<and>
   (\<exists>d' t. begin_alloc plain_codec (sqlite_tables plain_codec) no_ips False ''default'' ''x'' None (port_body 30001) None (empty_db :: json db) =
       (d', t, Inr (port_body 30001)) \<and>
     create_committing (sqlite_tables plain_codec) ''/registry/namespaces/default'' ''/registry/services/default/x'' (port_body 30001) t d' =
       (d', Inl (NamespaceNotFound, t)) \<and>
     get_sync d' (port_key 30001) \<noteq> None \<and> get_sync (txn_rollback (sqlite_tables plain_codec) t d') (port_key 30001) = None)"
proof
  note prep = port_spec_prepare [of None 0 plain_codec "sqlite_tables plain_codec" _ "''default''" "''x''" 30001 "empty_db :: json db"]
  obtain d' t where b: "begin_alloc plain_codec (sqlite_tables plain_codec) no_ips False ''default'' ''x'' None two_port_body None (empty_db :: json db) =
      (d', t, Inl (PortNotInRange (port_field 1) 80))" "get_sync d' (port_key 30001) \<noteq> None"
    using two_port_refused by blast
  then show "\<exists>d' t. begin_alloc plain_codec (sqlite_tables plain_codec) no_ips False ''default'' ''x'' None two_port_body None (empty_db :: json db) =
       (d', t, Inl (PortNotInRange (port_field 1) 80)) \<and>
     get_sync d' (port_key 30001) \<noteq> None \<and> get_sync (txn_drop (sqlite_tables plain_codec) t d') (port_key 30001) = None"
    using refused_write_rolls_back [OF empty_tables_ok prep b(1)] by (auto simp: empty_tables_get)
next
  note prep = port_spec_prepare [of None 0 plain_codec "sqlite_tables plain_codec" _ "''default''" "''x''" 30001 "empty_db :: json db"]
  have free: "get_sync (empty_db :: json db) (port_key 30001) = None" "in_port_range 30001"
    by (simp_all add: empty_tables_get in_port_range_def node_port_min_def node_port_max_def)
  obtain d' t where b: "begin_alloc plain_codec (sqlite_tables plain_codec) no_ips False ''default'' ''x'' None (port_body 30001) None (empty_db :: json db) =
      (d', t, Inr (port_body 30001))" "dom (get_sync d') = insert (port_key 30001) (dom (get_sync (empty_db :: json db)))"
    using sqlite.port_reserved [OF empty_tables_ok free, of None "''default''" "''x''"] by blast
  have "''/registry/namespaces/default'' \<notin> dom (get_sync d')"
    unfolding b(2) by (simp add: domIff empty_tables_get port_key_def node_port_prefix_def)
  then have "row_at d' ''/registry/namespaces/default'' = None" by (simp add: domIff get_sync_def)
  then have cc: "create_committing (sqlite_tables plain_codec) ''/registry/namespaces/default'' ''/registry/services/default/x'' (port_body 30001) t d' =
      (d', Inl (NamespaceNotFound, t))"
    by (simp add: create_committing_def sqlite_tables_def commit_or_keep_def create_if_namespace_active_sync_def namespace_phase_error_def)
  have "get_sync d' (port_key 30001) \<noteq> None" using b(2) by blast
  moreover have "to_vec plain_codec (port_body 30001) = port_body 30001" by (simp add: plain_codec_def)
  ultimately show "\<exists>d' t. begin_alloc plain_codec (sqlite_tables plain_codec) no_ips False ''default'' ''x'' None (port_body 30001) None (empty_db :: json db) =
       (d', t, Inr (port_body 30001)) \<and>
     create_committing (sqlite_tables plain_codec) ''/registry/namespaces/default'' ''/registry/services/default/x'' (port_body 30001) t d' =
       (d', Inl (NamespaceNotFound, t)) \<and>
     get_sync d' (port_key 30001) \<noteq> None \<and> get_sync (txn_rollback (sqlite_tables plain_codec) t d') (port_key 30001) = None"
    using refused_write_rolls_back [OF empty_tables_ok prep b(1), of "''/registry/namespaces/default''" "''/registry/services/default/x''"]
      b(1) cc by (intro exI [of _ d'] exI [of _ t]) (simp add: empty_tables_get)
qed

text \<open>C16: the assigned node port is the lowest free one. When every key under the node-port prefix is spelled by
  \<^verbatim>\<open>port_key\<close>, the search returns the first port from 30000 to 32767 that is neither taken by the same request
  nor held by a sentinel, creates its sentinel and records it; it reports a full range exactly when there is none.\<close>

theorem next_port_lowest:
  assumes "tables_ok c d" and "port_keys_ok (get_sync d)" and "allocate_next_port c (sqlite_tables c) False taken d t = (d', t', r)"
  shows "case r of
      Inr p \<Rightarrow> 30000 \<le> p \<and> p \<le> 32767 \<and> p \<notin> set taken \<and> get_sync d (port_key p) = None \<and>
        (\<forall>q. 30000 \<le> q \<and> q < p \<longrightarrow> q \<in> set taken \<or> get_sync d (port_key q) \<noteq> None) \<and>
        dom (get_sync d') = insert (port_key p) (dom (get_sync d)) \<and> tx_created t' = tx_created t @ [port_key p]
    | Inl e \<Rightarrow> e = PortRangeFull \<and> d' = d \<and> t' = t \<and>
        (\<forall>q. 30000 \<le> q \<and> q \<le> 32767 \<longrightarrow> q \<in> set taken \<or> get_sync d (port_key q) \<noteq> None)"
proof (cases r)
  case (Inl e)
  then show ?thesis
    using sqlite.allocate_next_port_spec [OF assms] unfolding set_upto by (simp add: node_port_min_def node_port_max_def)
next
  case (Inr p)
  let ?held = "\<lambda>q. q \<in> set taken \<or> get_sync d (port_key q) \<noteq> None"
  have ff: "first_free [node_port_min..node_port_max] ?held p" and tk: "took c (get_sync d) t (get_sync d') t' [port_key p]"
    using sqlite.allocate_next_port_spec [OF assms] Inr by simp_all
  note low = first_free_upto [OF ff]
  show ?thesis
    using low tk by (auto simp: Inr took_def grown_def recorded_def node_port_min_def node_port_max_def)
qed

theorem next_port_lowest_witness:
  "\<exists>d' t'. allocate_next_port plain_codec (sqlite_tables plain_codec) False [] (empty_db :: json db) new_txn = (d', t', Inr 30000) \<and>
     tx_created t' = [port_key 30000]"
proof -
  obtain d' t' r where run: "allocate_next_port plain_codec (sqlite_tables plain_codec) False [] (empty_db :: json db) new_txn = (d', t', r)"
    by (metis prod_cases3)
  have "port_keys_ok (get_sync (empty_db :: json db))" by (simp add: port_keys_ok_def empty_tables_get)
  note low = next_port_lowest [OF empty_tables_ok this run]
  show ?thesis
  proof (cases r)
    case (Inl e)
    then show ?thesis using low by (auto simp: empty_tables_get)
  next
    case (Inr p)
    then have "30000 \<le> p" "\<not> 30000 < p" "tx_created t' = [port_key p]"
      using low by (auto simp: empty_tables_get new_txn_def)
    then show ?thesis using run Inr by simp
  qed
qed

end
