(* ===== verification/Service_Repair.thy ===== *)
theory Service_Repair
  imports Service_World
begin

text \<open>
  The repair pass of \<^verbatim>\<open>apiserver/src/service_alloc.rs\<close> that runs before the server accepts writes:
  \<^const>\<open>repair\<close> never fails on a well-formed store, leaves exactly the sentinels that a stored Service wants or
  that were set aside for an owner, and reports no conflict only when no two Services hold the same value.
\<close>

subsection \<open>Who holds which value\<close>

definition holding :: "(json \<Rightarrow> 'k list) \<Rightarrow> 'k \<Rightarrow> (string \<times> json) list \<Rightarrow> string list" where
  "holding held k specs = map fst (filter (\<lambda>(_, spec). k \<in> set (held spec)) specs)"

lemma add_holder_lookup:
  "map_of (add_holder id' k m) k' = (if k' = k then Some ((case map_of m k of Some h \<Rightarrow> h | None \<Rightarrow> []) @ [id']) else map_of m k')"
  by (simp add: add_holder_def)

lemma fold_add_holder:
  "distinct ks \<Longrightarrow> map_of (fold (add_holder id') ks m) k =
     (if k \<in> set ks then Some ((case map_of m k of Some h \<Rightarrow> h | None \<Rightarrow> []) @ [id']) else map_of m k)"
  by (induction ks arbitrary: m) (auto simp: add_holder_lookup)

lemma holders_fold:
  assumes "\<And>spec. distinct (held spec)"
  shows "map_of (fold (\<lambda>(id', spec) m. fold (add_holder id') (held spec) m) specs m) k =
     (if holding held k specs = [] then map_of m k
      else Some ((case map_of m k of Some h \<Rightarrow> h | None \<Rightarrow> []) @ holding held k specs))"
proof (induction specs arbitrary: m)
  case (Cons e specs)
  show ?case
    by (cases e) (auto simp: Cons.IH fold_add_holder [OF assms] holding_def)
qed (simp add: holding_def)

lemma holders_of_lookup:
  assumes "\<And>spec. distinct (held spec)"
  shows "map_of (holders_of held specs) k = (if holding held k specs = [] then None else Some (holding held k specs))"
  unfolding holders_of_def holders_fold [OF assms] by simp

lemma add_holder_wf: "bt_wf m \<Longrightarrow> bt_wf (add_holder id' k m)"
  by (simp add: add_holder_def)

lemma holders_of_wf: "bt_wf (holders_of held specs)"
proof -
  have "bt_wf (fold (add_holder id') ks m)" if "bt_wf m" for id' ks and m :: "('a \<times> string list) list"
    using that by (induction ks arbitrary: m) (auto intro: add_holder_wf)
  then have "bt_wf (fold (\<lambda>(id', spec) m. fold (add_holder id') (held spec) m) specs m)" if "bt_wf m" for m
    using that by (induction specs arbitrary: m) auto
  then show ?thesis by (simp add: holders_of_def)
qed

lemma holders_of_set:
  assumes "\<And>spec. distinct (held spec)"
  shows "(k, h) \<in> set (holders_of held specs) \<longleftrightarrow> h = holding held k specs \<and> h \<noteq> []"
  using bt_wf_map_of_iff [OF holders_of_wf [of held specs], of k h] holders_of_lookup [of held specs k, OF assms] by (auto split: if_splits)

subsection \<open>The sentinels\<close>

definition owner_in :: "'b codec \<Rightarrow> 'b store_object \<Rightarrow> string option" where
  "owner_in c ob = Option.bind (from_slice c (so_value ob)) (\<lambda>v. as_str (json_idx v ''owner''))"

lemma fold_insert_lookup:
  "distinct (map so_key obs) \<Longrightarrow>
     map_of (fold (\<lambda>ob m. bt_insert (so_key ob) (f ob) m) obs m) k =
       (case find (\<lambda>ob. so_key ob = k) obs of Some ob \<Rightarrow> Some (f ob) | None \<Rightarrow> map_of m k)"
proof (induction obs arbitrary: m)
  case (Cons ob obs)
  have "find (\<lambda>x. so_key x = so_key ob) obs = None" using Cons.prems by (auto simp: find_None_iff image_iff)
  then show ?case using Cons by (auto split: option.splits)
qed simp

lemma fold_insert_wf: "bt_wf m \<Longrightarrow> bt_wf (fold (\<lambda>ob m. bt_insert (so_key ob) (f ob) m) obs m)"
  by (induction obs arbitrary: m) auto

lemma sorted_keys_distinct: "sorted_wrt (<) (map so_key obs) \<Longrightarrow> distinct (map so_key obs)"
  using strict_sorted_iff by blast

lemma repair_prefixes_listable:
  "listable_prefix services_prefix" "listable_prefix service_ip_prefix"
  by code_simp+

context object_store
begin

lemma list_sentinels_spec:
  assumes "inv s" and "listable_prefix p"
  obtains m where "list_sentinels c st p s = Inr m" "bt_wf m"
    "\<And>k. map_of m k = (case lookup s k of Some ob \<Rightarrow> if starts_with k p then Some (owner_in c ob) else None | None \<Rightarrow> None)"
proof -
  obtain resp where r: "st_list st s p list_default = Inr resp"
    and items: "set (lr_items resp) = {ob. \<exists>k. lookup s k = Some ob \<and> starts_with k p}"
    and sorted: "sorted_wrt (<) (map so_key (lr_items resp))"
    using list_law [OF assms] by blast
  let ?m = "fold (\<lambda>ob m. bt_insert (so_key ob) (owner_in c ob) m) (lr_items resp) []"
  have m: "list_sentinels c st p s = Inr ?m" by (simp add: list_sentinels_def r owner_in_def)
  have look: "map_of ?m k = (case lookup s k of Some ob \<Rightarrow> if starts_with k p then Some (owner_in c ob) else None | None \<Rightarrow> None)" for k
  proof (cases "\<exists>ob. lookup s k = Some ob \<and> starts_with k p")
    case True
    then obtain ob where ob: "lookup s k = Some ob" "starts_with k p" by blast
    then have "ob \<in> set (lr_items resp)" "so_key ob = k" using items lookup_key [OF assms(1)] by auto
    then have "find (\<lambda>x. so_key x = k) (lr_items resp) \<noteq> None" by (auto simp: find_None_iff)
    then obtain ob' where f: "find (\<lambda>x. so_key x = k) (lr_items resp) = Some ob'" by blast
    then have "ob' \<in> set (lr_items resp)" "so_key ob' = k" by (auto simp: find_Some_iff)
    then have "ob' = ob" using items ob lookup_key [OF assms(1)] by force
    then show ?thesis using f ob by (simp add: fold_insert_lookup [OF sorted_keys_distinct [OF sorted]])
  next
    case False
    then have "find (\<lambda>x. so_key x = k) (lr_items resp) = None"
      using items lookup_key [OF assms(1)] by (auto simp: find_None_iff)
    then show ?thesis using False by (auto simp: fold_insert_lookup [OF sorted_keys_distinct [OF sorted]] split: option.splits)
  qed
  show ?thesis by (rule that [OF m _ look]) (simp add: fold_insert_wf)
qed

lemma seed_wanted_spec:
  "inv s \<Longrightarrow>
     \<exists>s' rep'. seed_wanted c st sentinel ws s rep = (s', Inr rep') \<and> inv s' \<and>
       dom (lookup s') = dom (lookup s) \<union> {k \<in> fst ` set ws. sentinel k = None} \<and>
       (\<forall>k \<in> dom (lookup s). lookup s' k = lookup s k) \<and>
       rr_conflicts rep \<le> rr_conflicts rep' \<and>
       (rr_conflicts rep' = rr_conflicts rep \<longrightarrow> (\<forall>(k, h) \<in> set ws. length h \<le> 1 \<and> (\<forall>ow. sentinel k = Some (Some ow) \<longrightarrow> ow \<in> set h)))"
proof (induction ws arbitrary: s rep)
  case Nil
  then show ?case by auto
next
  case (Cons e ws)
  obtain k h where e: "e = (k, h)" by (cases e)
  define rep1 where "rep1 = (if length h > 1 then rep\<lparr>rr_conflicts := Suc (rr_conflicts rep)\<rparr> else rep)"
  have rep1: "rr_conflicts rep1 = rr_conflicts rep + (if length h > 1 then 1 else 0)" by (simp add: rep1_def)
  have go: ?case
    if run: "seed_wanted c st sentinel (e # ws) s rep = seed_wanted c st sentinel ws s1 rep2"
      and s1: "inv s1" "dom (lookup s1) = dom (lookup s) \<union> (if sentinel k = None then {k} else {})"
        "\<forall>k \<in> dom (lookup s). lookup s1 k = lookup s k"
      and rep2: "rr_conflicts rep2 = rr_conflicts rep1 + (if \<exists>ow. sentinel k = Some (Some ow) \<and> ow \<notin> set h then 1 else 0)"
    for s1 rep2
  proof -
    obtain s' rep' where r: "seed_wanted c st sentinel ws s1 rep2 = (s', Inr rep')" "inv s'"
        "dom (lookup s') = dom (lookup s1) \<union> {k \<in> fst ` set ws. sentinel k = None}"
        "\<forall>k \<in> dom (lookup s1). lookup s' k = lookup s1 k" "rr_conflicts rep2 \<le> rr_conflicts rep'"
        "rr_conflicts rep' = rr_conflicts rep2 \<longrightarrow> (\<forall>(k, h) \<in> set ws. length h \<le> 1 \<and> (\<forall>ow. sentinel k = Some (Some ow) \<longrightarrow> ow \<in> set h))"
      using Cons.IH [OF s1(1), of rep2] by blast
    have 1: "dom (lookup s') = dom (lookup s) \<union> {k \<in> fst ` set (e # ws). sentinel k = None}"
      unfolding r(3) s1(2) by (auto simp: e)
    have 2: "\<forall>k \<in> dom (lookup s). lookup s' k = lookup s k" using r(4) s1(2,3) by auto
    have 3: "rr_conflicts rep \<le> rr_conflicts rep'" using r(5) rep1 rep2 by simp
    have 4: "\<forall>(k, h) \<in> set (e # ws). length h \<le> 1 \<and> (\<forall>ow. sentinel k = Some (Some ow) \<longrightarrow> ow \<in> set h)"
      if "rr_conflicts rep' = rr_conflicts rep"
    proof -
      have "rr_conflicts rep2 = rr_conflicts rep" using that r(5) rep1 rep2 by simp
      then have "length h \<le> 1" "\<forall>ow. sentinel k = Some (Some ow) \<longrightarrow> ow \<in> set h" "rr_conflicts rep' = rr_conflicts rep2"
        using rep1 rep2 that by (auto split: if_splits)
      then show ?thesis using r(6) by (simp add: e)
    qed
    show ?thesis unfolding run using r(1,2) 1 2 3 4 by blast
  qed
  consider (seed) "sentinel k = None" | (owned) ow where "sentinel k = Some (Some ow)" | (plain) "sentinel k = Some None"
    by (metis option.exhaust)
  then show ?case
  proof cases
    case seed
    show ?thesis
    proof (rule put_create_cases [OF Cons.prems sentinel_storable, of k])
      fix ob
      assume "lookup s k = Some ob" "st_put st s k (to_vec c sentinel_doc) (Some 0) = (s, Inl (AlreadyExists k))"
      then show ?thesis using seed Cons.prems by (intro go [of s rep1]) (auto simp: e rep1_def Let_def)
    next
      fix s1 r1 ob
      assume "lookup s k = None" "st_put st s k (to_vec c sentinel_doc) (Some 0) = (s1, Inr r1)" "inv s1"
        "lookup s1 = (lookup s)(k \<mapsto> ob)"
      then show ?thesis
        using seed by (intro go [of s1 "rep1\<lparr>rr_seeded := Suc (rr_seeded rep1)\<rparr>"]) (auto simp: e rep1_def Let_def)
    qed
  next
    case owned
    then show ?thesis
      using Cons.prems by (intro go [of s "if ow \<notin> set h then rep1\<lparr>rr_conflicts := Suc (rr_conflicts rep1)\<rparr> else rep1"])
        (auto simp: e rep1_def Let_def)
  next
    case plain
    then show ?thesis using Cons.prems by (intro go [of s rep1]) (auto simp: e rep1_def Let_def)
  qed
qed

lemma release_orphans_spec:
  "inv s \<Longrightarrow>
     \<exists>s' rep'. release_orphans st wanted sents (s, rep) = (s', rep') \<and> inv s' \<and> rr_conflicts rep' = rr_conflicts rep \<and>
       lookup s' = (\<lambda>k. if (k, None) \<in> set sents \<and> k \<notin> wanted then None else lookup s k)"
proof (induction sents arbitrary: s rep)
  case Nil
  then show ?case by (simp add: release_orphans_def)
next
  case (Cons e sents)
  obtain k ow where e: "e = (k, ow)" by (cases e)
  show ?case
  proof (cases "ow = None \<and> k \<notin> wanted")
    case True
    let ?s = "delete_sentinel st k s" and ?rep = "rep\<lparr>rr_released := Suc (rr_released rep)\<rparr>"
    have d: "inv ?s" "lookup ?s = (lookup s)(k := None)"
      using delete_effect [OF Cons.prems, of k] by (simp_all add: delete_sentinel_def)
    have "release_orphans st wanted (e # sents) (s, rep) = release_orphans st wanted sents (?s, ?rep)"
      using True by (simp add: release_orphans_def e)
    then show ?thesis using Cons.IH [OF d(1), of ?rep] True d(2) by (auto simp: e fun_eq_iff)
  next
    case False
    then have "release_orphans st wanted (e # sents) (s, rep) = release_orphans st wanted sents (s, rep)"
      by (auto simp: release_orphans_def e)
    then show ?thesis using Cons.IH [OF Cons.prems, of rep] False by (auto simp: e fun_eq_iff)
  qed
qed

end

subsection \<open>What a repaired store holds\<close>

definition service_in :: "'b codec \<Rightarrow> (string \<Rightarrow> 'b store_object option) \<Rightarrow> string \<Rightarrow> json \<Rightarrow> bool" where
  "service_in c m id' spec =
     (\<exists>ob j. m (services_prefix @ id') = Some ob \<and> from_slice c (so_value ob) = Some j \<and> spec = json_idx j ''spec'')"

definition wanted_key :: "'b codec \<Rightarrow> (string \<Rightarrow> 'b store_object option) \<Rightarrow> string \<Rightarrow> bool" where
  "wanted_key c m k =
     (\<exists>id' spec. service_in c m id' spec \<and> (k \<in> ip_key ` set (spec_ips spec) \<or> k \<in> port_key ` set (spec_ports spec)))"

definition sentinel_key :: "string \<Rightarrow> bool" where
  "sentinel_key k = (starts_with k service_ip_prefix \<or> starts_with k node_port_prefix)"

definition owned_key :: "'b codec \<Rightarrow> (string \<Rightarrow> 'b store_object option) \<Rightarrow> string \<Rightarrow> bool" where
  "owned_key c m k = (\<exists>ob. m k = Some ob \<and> owner_in c ob \<noteq> None)"

lemma sentinel_prefixes_apart: "starts_with k service_ip_prefix \<Longrightarrow> \<not> starts_with k node_port_prefix"
  by (auto simp: starts_with_iff_prefix service_ip_prefix_def node_port_prefix_def prefix_def)

lemma wanted_sentinel: "wanted_key c m k \<Longrightarrow> sentinel_key k"
  by (auto simp: wanted_key_def sentinel_key_def ip_key_def port_key_def)

definition wanted_list :: "(string \<times> json) list \<Rightarrow> (string \<times> string list) list" where
  "wanted_list specs =
     map (\<lambda>(ip, h). (ip_key ip, h)) (holders_of spec_ips specs) @ map (\<lambda>(p, h). (port_key p, h)) (holders_of spec_ports specs)"

lemma wanted_list_set:
  "(k, h) \<in> set (wanted_list specs) \<longleftrightarrow>
     (\<exists>ip. k = ip_key ip \<and> h = holding spec_ips ip specs \<and> h \<noteq> []) \<or>
     (\<exists>p. k = port_key p \<and> h = holding spec_ports p specs \<and> h \<noteq> [])"
proof -
  have "(k, h) \<in> set (wanted_list specs) \<longleftrightarrow>
      (\<exists>ip. k = ip_key ip \<and> (ip, h) \<in> set (holders_of spec_ips specs)) \<or>
      (\<exists>p. k = port_key p \<and> (p, h) \<in> set (holders_of spec_ports specs))"
    unfolding wanted_list_def by force
  then show ?thesis
    using holders_of_set [of spec_ips _ h specs, OF distinct_spec_ips] holders_of_set [of spec_ports _ h specs, OF distinct_spec_ports]
    by simp
qed

lemma holding_mem: "id' \<in> set (holding held k specs) \<longleftrightarrow> (\<exists>spec. (id', spec) \<in> set specs \<and> k \<in> set (held spec))"
  by (force simp: holding_def)

lemma holding_not_Nil: "holding held k specs \<noteq> [] \<longleftrightarrow> (\<exists>id' spec. (id', spec) \<in> set specs \<and> k \<in> set (held spec))"
  by (auto simp: holding_def filter_empty_conv)

lemma wanted_list_keys:
  assumes "\<And>id' spec. (id', spec) \<in> set specs \<longleftrightarrow> service_in c m id' spec"
  shows "fst ` set (wanted_list specs) = {k. wanted_key c m k}"
proof -
  have "k \<in> fst ` set (wanted_list specs) \<longleftrightarrow> wanted_key c m k" for k
  proof -
    have "k \<in> fst ` set (wanted_list specs) \<longleftrightarrow> (\<exists>h. (k, h) \<in> set (wanted_list specs))" by force
    also have "\<dots> \<longleftrightarrow> (\<exists>ip. k = ip_key ip \<and> holding spec_ips ip specs \<noteq> []) \<or> (\<exists>p. k = port_key p \<and> holding spec_ports p specs \<noteq> [])"
      unfolding wanted_list_set by blast
    also have "\<dots> \<longleftrightarrow> wanted_key c m k"
      unfolding holding_not_Nil assms wanted_key_def by blast
    finally show ?thesis .
  qed
  then show ?thesis by blast
qed

lemma service_entry:
  "(case (a, b) of (Some id', Some svc) \<Rightarrow> Some (id', json_idx svc ''spec'') | _ \<Rightarrow> None) = Some (i, spec) \<longleftrightarrow>
     a = Some i \<and> (\<exists>j. b = Some j \<and> spec = json_idx j ''spec'')"
  by (auto split: option.splits)

context object_store
begin

lemma services_listed:
  assumes "inv s"
  obtains resp where "st_list st s services_prefix list_default = Inr resp"
    "\<And>id' spec. (id', spec) \<in> set (service_specs c (lr_items resp)) \<longleftrightarrow> service_in c (lookup s) id' spec"
proof -
  obtain resp where r: "st_list st s services_prefix list_default = Inr resp"
    and items: "set (lr_items resp) = {ob. \<exists>k. lookup s k = Some ob \<and> starts_with k services_prefix}"
    using list_law [OF assms repair_prefixes_listable(1)] by blast
  have "(id', spec) \<in> set (service_specs c (lr_items resp)) \<longleftrightarrow> service_in c (lookup s) id' spec" for id' spec
  proof -
    have "(id', spec) \<in> set (service_specs c (lr_items resp)) \<longleftrightarrow>
        (\<exists>ob k j. lookup s k = Some ob \<and> starts_with k services_prefix \<and> so_key ob = services_prefix @ id' \<and>
           from_slice c (so_value ob) = Some j \<and> spec = json_idx j ''spec'')"
      unfolding service_specs_def set_map_filter items mem_Collect_eq service_entry strip_prefix_Some_iff by blast
    also have "\<dots> \<longleftrightarrow> service_in c (lookup s) id' spec"
      unfolding service_in_def using lookup_key [OF assms] by (metis starts_with_append)
    finally show ?thesis .
  qed
  then show ?thesis using that [OF r] by blast
qed

lemma repair_spec:
  assumes "inv s"
  shows "\<exists>s' rep. repair c st s = (s', Inr rep) \<and> inv s' \<and>
    (\<forall>k. sentinel_key k \<longrightarrow> (k \<in> dom (lookup s') \<longleftrightarrow> wanted_key c (lookup s) k \<or> owned_key c (lookup s) k)) \<and>
    (\<forall>k. \<not> sentinel_key k \<longrightarrow> lookup s' k = lookup s k) \<and>
    (rr_conflicts rep = 0 \<longrightarrow>
       (\<forall>id1 id2 s1 s2. id1 \<noteq> id2 \<longrightarrow> service_in c (lookup s) id1 s1 \<longrightarrow> service_in c (lookup s) id2 s2 \<longrightarrow>
          set (spec_ips s1) \<inter> set (spec_ips s2) = {} \<and> set (spec_ports s1) \<inter> set (spec_ports s2) = {}))"
proof -
  obtain services where sv: "st_list st s services_prefix list_default = Inr services"
    and specs: "\<And>id' spec. (id', spec) \<in> set (service_specs c (lr_items services)) \<longleftrightarrow> service_in c (lookup s) id' spec"
    by (rule services_listed [OF assms]) blast
  obtain mi where mi: "list_sentinels c st service_ip_prefix s = Inr mi" "bt_wf mi"
    "\<And>k. map_of mi k = (case lookup s k of Some ob \<Rightarrow> if starts_with k service_ip_prefix then Some (owner_in c ob) else None | None \<Rightarrow> None)"
    by (rule list_sentinels_spec [OF assms repair_prefixes_listable(2)]) blast
  obtain mp where mp: "list_sentinels c st node_port_prefix s = Inr mp" "bt_wf mp"
    "\<And>k. map_of mp k = (case lookup s k of Some ob \<Rightarrow> if starts_with k node_port_prefix then Some (owner_in c ob) else None | None \<Rightarrow> None)"
    by (rule list_sentinels_spec [OF assms node_port_prefix_listable]) blast
  define ws where "ws = wanted_list (service_specs c (lr_items services))"
  define sent where "sent = (\<lambda>k. case map_of mi k of Some v \<Rightarrow> Some v | None \<Rightarrow> map_of mp k)"
  have sent: "sent k = (case lookup s k of Some ob \<Rightarrow> if sentinel_key k then Some (owner_in c ob) else None | None \<Rightarrow> None)" for k
    using sentinel_prefixes_apart [of k] by (auto simp: sent_def mi(3) mp(3) sentinel_key_def split: option.splits)
  have keys: "fst ` set ws = {k. wanted_key c (lookup s) k}" unfolding ws_def by (rule wanted_list_keys [OF specs])
  obtain s1 rep1 where seed: "seed_wanted c st sent ws s \<lparr>rr_seeded = 0, rr_released = 0, rr_conflicts = 0\<rparr> = (s1, Inr rep1)" "inv s1"
      "dom (lookup s1) = dom (lookup s) \<union> {k \<in> fst ` set ws. sent k = None}" "\<forall>k \<in> dom (lookup s). lookup s1 k = lookup s k"
      "rr_conflicts rep1 = 0 \<longrightarrow> (\<forall>(k, h) \<in> set ws. length h \<le> 1)"
    using seed_wanted_spec [OF assms, of sent ws "\<lparr>rr_seeded = 0, rr_released = 0, rr_conflicts = 0\<rparr>"] by fastforce
  obtain s2 rep2 where rel: "release_orphans st (fst ` set ws) (mi @ mp) (s1, rep1) = (s2, rep2)" "inv s2" "rr_conflicts rep2 = rr_conflicts rep1"
      "lookup s2 = (\<lambda>k. if (k, None) \<in> set (mi @ mp) \<and> k \<notin> fst ` set ws then None else lookup s1 k)"
    using release_orphans_spec [OF seed(2), of "fst ` set ws" "mi @ mp" rep1] by blast
  have plain: "(k, None) \<in> set (mi @ mp) \<longleftrightarrow> sentinel_key k \<and> (\<exists>ob. lookup s k = Some ob \<and> owner_in c ob = None)" for k
    using bt_wf_map_of_iff [OF mi(2), of k None] bt_wf_map_of_iff [OF mp(2), of k None]
    by (auto simp: mi(3) mp(3) sentinel_key_def split: option.splits if_splits)
  have run: "repair c st s = (s2, Inr rep2)"
    using seed(1) rel(1) unfolding repair_def sv mi(1) mp(1) ws_def wanted_list_def sent_def by (simp add: Let_def)
  have held: "k \<in> dom (lookup s2) \<longleftrightarrow> wanted_key c (lookup s) k \<or> owned_key c (lookup s) k" if k: "sentinel_key k" for k
  proof (cases "lookup s k")
    case None
    then have "k \<in> dom (lookup s1) \<longleftrightarrow> wanted_key c (lookup s) k" unfolding seed(3) keys by (simp add: sent domIff)
    moreover have "\<not> owned_key c (lookup s) k" "(k, None) \<notin> set (mi @ mp)" unfolding plain using None by (simp_all add: owned_key_def)
    ultimately show ?thesis unfolding rel(4) by (simp add: dom_def)
  next
    case (Some ob)
    then have "lookup s1 k = Some ob" using seed(4) by (metis domI)
    then show ?thesis
      unfolding rel(4) keys plain using Some k by (auto simp: owned_key_def dom_def)
  qed
  have rest: "lookup s2 k = lookup s k" if "\<not> sentinel_key k" for k
  proof -
    have "(k, None) \<notin> set (mi @ mp)" "\<not> wanted_key c (lookup s) k" unfolding plain using that wanted_sentinel by blast+
    then have "k \<in> dom (lookup s1) \<longleftrightarrow> k \<in> dom (lookup s)" "lookup s2 k = lookup s1 k" unfolding seed(3) keys rel(4) by auto
    then show ?thesis using seed(4) by (metis domIff)
  qed
  have excl: "set (held s1) \<inter> set (held s2) = {}"
    if "rr_conflicts rep2 = 0" "id1 \<noteq> id2" "service_in c (lookup s) id1 s1" "service_in c (lookup s) id2 s2"
      and listed: "\<And>v. holding held v (service_specs c (lr_items services)) \<noteq> [] \<Longrightarrow>
        \<exists>k. (k, holding held v (service_specs c (lr_items services))) \<in> set ws"
    for held :: "json \<Rightarrow> 'v list" and id1 id2 s1 s2
  proof -
    have False if v: "v \<in> set (held s1)" "v \<in> set (held s2)" for v
    proof -
      let ?h = "holding held v (service_specs c (lr_items services))"
      have mem: "id1 \<in> set ?h" "id2 \<in> set ?h" using \<open>service_in c (lookup s) id1 s1\<close> \<open>service_in c (lookup s) id2 s2\<close> v
        unfolding holding_mem specs by blast+
      then have "?h \<noteq> []" by auto
      then obtain k where "(k, ?h) \<in> set ws" using listed by blast
      then have "length ?h \<le> 1" using seed(5) rel(3) \<open>rr_conflicts rep2 = 0\<close> by auto
      then show False using mem \<open>id1 \<noteq> id2\<close> by (cases ?h) auto
    qed
    then show ?thesis by blast
  qed
  have "set (spec_ips s1) \<inter> set (spec_ips s2) = {} \<and> set (spec_ports s1) \<inter> set (spec_ports s2) = {}"
    if "rr_conflicts rep2 = 0" "id1 \<noteq> id2" "service_in c (lookup s) id1 s1" "service_in c (lookup s) id2 s2" for id1 id2 s1 s2
    using excl [OF that, of spec_ips] excl [OF that, of spec_ports] unfolding ws_def wanted_list_set by blast
  then show ?thesis using run rel(2) held rest by blast
qed

end

subsection \<open>Properties\<close>

text \<open>C9: repair makes the sentinels agree with the stored Services. On every well-formed store the pass succeeds;
  afterwards a key of the two sentinel prefixes is stored exactly when a stored Service that parses holds its
  value or it was set aside for an owner, every other object is untouched, and if no conflict is reported no two
  Services hold the same address or the same port.\<close>

theorem repair_reconciles:
  assumes "tables_ok c d"
  shows "\<exists>d' rep. repair c (sqlite_tables c) d = (d', Inr rep) \<and> tables_ok c d' \<and>
    (\<forall>k. sentinel_key k \<longrightarrow> (get_sync d' k \<noteq> None \<longleftrightarrow> wanted_key c (get_sync d) k \<or> owned_key c (get_sync d) k)) \<and>
    (\<forall>k. \<not> sentinel_key k \<longrightarrow> get_sync d' k = get_sync d k) \<and>
    (rr_conflicts rep = 0 \<longrightarrow>
       (\<forall>id1 id2 s1 s2. id1 \<noteq> id2 \<longrightarrow> service_in c (get_sync d) id1 s1 \<longrightarrow> service_in c (get_sync d) id2 s2 \<longrightarrow>
          set (spec_ips s1) \<inter> set (spec_ips s2) = {} \<and> set (spec_ports s1) \<inter> set (spec_ports s2) = {}))"
  using sqlite.repair_spec [OF assms] unfolding domIff .

theorem repair_reconciles_witness:
  "\<exists>(d :: json db) d' rep. tables_ok plain_codec d \<and> get_sync d (port_key 30001) = None \<and> get_sync d (port_key 30005) \<noteq> None \<and>
     repair plain_codec (sqlite_tables plain_codec) d = (d', Inr rep) \<and>
     get_sync d' (port_key 30001) \<noteq> None \<and> get_sync d' (port_key 30005) = None"
proof -
  let ?key = "services_prefix @ ''default/x''"
  have storable: "storable (port_body 30001)" by (simp add: storable_def port_body_def port_spec_def port_entry_def bt_wf_def)
  obtain d1 :: "json db" and ob1 where d1: "tables_ok plain_codec d1" "get_sync d1 = (get_sync empty_db)(?key \<mapsto> ob1)"
      "stores_doc plain_codec ?key (port_body 30001) ob1"
    using sqlite.put_free [OF empty_tables_ok empty_tables_get storable, of ?key] by blast
  have apart: "port_key p \<noteq> ?key" "\<not> starts_with (port_key p) services_prefix" for p
    by (auto simp: port_key_def services_prefix_def node_port_prefix_def starts_with_def)
  then have "get_sync d1 (port_key 30005) = None" by (simp add: d1(2) empty_tables_get)
  then obtain d :: "json db" and ob2 where d: "tables_ok plain_codec d" "get_sync d = (get_sync d1)(port_key 30005 \<mapsto> ob2)"
      "stores_doc plain_codec (port_key 30005) sentinel_doc ob2"
    using sqlite.put_free [OF d1(1) _ sentinel_storable] by blast
  have look: "get_sync d k = (if k = port_key 30005 then Some ob2 else if k = ?key then Some ob1 else None)" for k
    by (simp add: d(2) d1(2) empty_tables_get)
  have "owner_in plain_codec ob2 = None"
    using plain_sentinel_doc [OF d(3)] unfolding owner_in_def plain_doc_def by (cases "from_slice plain_codec (so_value ob2)") simp_all
  moreover have svc: "service_in plain_codec (get_sync d) id' spec \<longleftrightarrow> id' = ''default/x'' \<and> spec = port_spec 30001" for id' spec
  proof -
    obtain j where j: "from_slice plain_codec (so_value ob1) = Some j" "json_get j ''spec'' = json_get (port_body 30001) ''spec''"
      using d1(3) by (auto simp: stores_doc_def same_outside_metadata_def)
    have "services_prefix @ id' \<noteq> port_key 30005" using apart(2) [of 30005] by (metis starts_with_append)
    moreover have "json_idx j ''spec'' = port_spec 30001" using j(2) by (simp add: json_idx_def port_body_def)
    ultimately show ?thesis using j(1) unfolding service_in_def look by auto
  qed
  ultimately have w: "wanted_key plain_codec (get_sync d) (port_key 30001)" "\<not> wanted_key plain_codec (get_sync d) (port_key 30005)"
      "\<not> owned_key plain_codec (get_sync d) (port_key 30005)"
    using port_spec_ports [of 30001] by (simp_all add: wanted_key_def svc owned_key_def look valid_port_def)
  have sk: "sentinel_key (port_key p)" for p by (simp add: sentinel_key_def port_key_def)
  obtain d' rep where r: "repair plain_codec (sqlite_tables plain_codec) d = (d', Inr rep)"
      and keep: "\<And>k. sentinel_key k \<Longrightarrow> get_sync d' k \<noteq> None \<longleftrightarrow> wanted_key plain_codec (get_sync d) k \<or> owned_key plain_codec (get_sync d) k"
    using repair_reconciles [OF d(1)] by blast
  have "get_sync d (port_key 30001) = None" "get_sync d (port_key 30005) \<noteq> None" using apart by (simp_all add: look)
  moreover have "get_sync d' (port_key 30001) \<noteq> None" "get_sync d' (port_key 30005) = None"
    using keep [OF sk [of 30001]] keep [OF sk [of 30005]] w by blast+
  ultimately show ?thesis using d(1) r by blast
qed

end
