(* ===== verification/Sched_Quantity.thy ===== *)
theory Sched_Quantity
  imports U7s_Prelude Complex_Main "HOL-Library.Word" "HOL-Library.Log_Nat"
begin

text \<open>
  Resource quantities of the scheduler (\<^verbatim>\<open>crates/scheduler/src/lib.rs\<close>): the parsing of a
  quantity string into milli-units, and \<^verbatim>\<open>ResourceRequests\<close> with its addition and
  subtraction. Amounts are \<^verbatim>\<open>i64\<close>, kept as 64-bit words read as signed: in a release build
  their arithmetic wraps around. \<^verbatim>\<open>f64\<close> is an exact rational rounded to 53 bits, ties to
  even, with the infinities and not-a-number.
\<close>

type_synonym i64 = "64 word"

named_theorems sched_defs "definitions that unfold a scheduler operation into its branches"

subsection \<open>Numbers of the language\<close>

definition in_i64 :: "int \<Rightarrow> bool" where
  "in_i64 n = (- (2 ^ 63) \<le> n \<and> n < 2 ^ 63)"

definition split_sign :: "string \<Rightarrow> bool \<times> string" where
  "split_sign s =
     (case s of
        [] \<Rightarrow> (False, [])
      | c # r \<Rightarrow> if c = CHR ''-'' then (True, r) else if c = CHR ''+'' then (False, r) else (False, s))"

definition parse_i64_word :: "string \<Rightarrow> i64 option" where
  "parse_i64_word s =
     (let (neg, ds) = split_sign s;
          n = (if neg then - int (digits_val ds) else int (digits_val ds))
      in if ds \<noteq> [] \<and> list_all is_digit ds \<and> in_i64 n then Some (word_of_int n) else None)"

definition checked_mul :: "i64 \<Rightarrow> i64 \<Rightarrow> i64 option" where
  "checked_mul a b = (if in_i64 (sint a * sint b) then Some (a * b) else None)"

definition ascii_lower :: "char \<Rightarrow> char" where
  "ascii_lower c = (let n = of_char c :: nat in if 65 \<le> n \<and> n \<le> 90 then char_of (n + 32) else c)"

definition ascii_upper :: "char \<Rightarrow> char" where
  "ascii_upper c = (let n = of_char c :: nat in if 97 \<le> n \<and> n \<le> 122 then char_of (n - 32) else c)"

definition is_whitespace :: "char \<Rightarrow> bool" where
  "is_whitespace c = (let n = of_char c :: nat in n = 32 \<or> (9 \<le> n \<and> n \<le> 13))"

definition str_trim :: "string \<Rightarrow> string" where
  "str_trim s = rev (dropWhile is_whitespace (rev (dropWhile is_whitespace s)))"

datatype f64 = NaN | Infinity bool | Finite rat

definition log2_floor :: "rat \<Rightarrow> int" where
  "log2_floor q =
     (let (n, d) = quotient_of q;
          k = bitlen n - bitlen d
      in if 2 powi k \<le> q then k else k - 1)"

definition round_half_even :: "rat \<Rightarrow> int" where
  "round_half_even q =
     (let f = \<lfloor>q\<rfloor>; r = q - of_int f
      in if r < 1 / 2 then f else if 1 / 2 < r then f + 1 else if even f then f else f + 1)"

definition to_f64 :: "rat \<Rightarrow> f64" where
  "to_f64 q =
     (if q = 0 then Finite 0
      else
        (let a = \<bar>q\<bar>; e = max (log2_floor a - 52) (- 1074);
             v = of_int (round_half_even (a / 2 powi e)) * 2 powi e
         in if 2 ^ 1024 \<le> v then Infinity (q < 0) else Finite (if q < 0 then - v else v)))"

definition f64_mul :: "f64 \<Rightarrow> f64 \<Rightarrow> f64" where
  "f64_mul a b =
     (case (a, b) of
        (Finite x, Finite y) \<Rightarrow> to_f64 (x * y)
      | (Infinity s, Finite y) \<Rightarrow> if y = 0 then NaN else Infinity (s \<noteq> (y < 0))
      | (Finite x, Infinity s) \<Rightarrow> if x = 0 then NaN else Infinity (s \<noteq> (x < 0))
      | (Infinity s, Infinity t) \<Rightarrow> Infinity (s \<noteq> t)
      | _ \<Rightarrow> NaN)"

text \<open>The exponent part of a decimal number, and the decimal number without its sign.\<close>

definition parse_exponent :: "string \<Rightarrow> int option" where
  "parse_exponent s =
     (case s of
        [] \<Rightarrow> Some 0
      | c # r \<Rightarrow>
          (let (neg, ds) = split_sign r in
           if ascii_lower c = CHR ''e'' \<and> ds \<noteq> [] \<and> list_all is_digit ds
           then Some (if neg then - int (digits_val ds) else int (digits_val ds)) else None))"

definition parse_decimal :: "string \<Rightarrow> rat option" where
  "parse_decimal s =
     (let whole = takeWhile is_digit s; rest = dropWhile is_digit s;
          (frac, ex) = (case rest of
                          c # r \<Rightarrow> if c = CHR ''.'' then (takeWhile is_digit r, dropWhile is_digit r)
                                  else ([], rest)
                        | [] \<Rightarrow> ([], []))
      in if whole = [] \<and> frac = [] then None
         else map_option (\<lambda>e. of_nat (digits_val (whole @ frac)) * 10 powi (e - int (length frac)))
                (parse_exponent ex))"

definition parse_f64 :: "string \<Rightarrow> f64 option" where
  "parse_f64 s =
     (let (neg, t) = split_sign s; l = map ascii_lower t
      in if l = ''inf'' \<or> l = ''infinity'' then Some (Infinity neg)
         else if l = ''nan'' then Some NaN
         else map_option (\<lambda>q. to_f64 (if neg then - q else q)) (parse_decimal t))"

definition f64_round :: "rat \<Rightarrow> int" where
  "f64_round q = (if 0 \<le> q then \<lfloor>q + 1 / 2\<rfloor> else - \<lfloor>- q + 1 / 2\<rfloor>)"

subsection \<open>Quantity strings\<close>

definition parse_u32 :: "string \<Rightarrow> nat option" where
  "parse_u32 s =
     (let t = (case s of c # r \<Rightarrow> if c = CHR ''+'' then r else s | [] \<Rightarrow> s) in
      if t \<noteq> [] \<and> list_all is_digit t \<and> int (digits_val t) < 2 ^ 32 then Some (digits_val t) else None)"

definition parse_pod_capacity :: "string \<Rightarrow> nat" where
  "parse_pod_capacity s = (case parse_u32 (str_trim s) of Some n \<Rightarrow> n | None \<Rightarrow> 0)"

definition parse_number_milli :: "string \<Rightarrow> i64 \<Rightarrow> i64" where
  "parse_number_milli s mult =
     (case parse_i64_word s of
        Some n \<Rightarrow> (case checked_mul n mult of Some p \<Rightarrow> p | None \<Rightarrow> 0)
      | None \<Rightarrow>
          (case parse_f64 s of
             None \<Rightarrow> 0
           | Some f \<Rightarrow>
               (case f64_mul f (to_f64 (of_int (sint mult))) of
                  Finite scaled \<Rightarrow>
                    if scaled < - (2 ^ 63) \<or> 2 ^ 63 \<le> scaled then 0
                    else word_of_int (f64_round scaled)
                | _ \<Rightarrow> 0)))"

definition binary_suffixes :: "(string \<times> i64) list" where
  "binary_suffixes =
     [(''Ki'', 1024), (''Mi'', 1024 * 1024), (''Gi'', 1024 * 1024 * 1024),
      (''Ti'', 1024 * 1024 * 1024 * 1024), (''Pi'', 1024 * 1024 * 1024 * 1024 * 1024),
      (''Ei'', 1024 * 1024 * 1024 * 1024 * 1024 * 1024)]"

definition decimal_suffixes :: "(string \<times> i64) list" where
  "decimal_suffixes =
     [(''k'', 1000), (''M'', 1000000), (''G'', 1000000000), (''T'', 1000000000000),
      (''P'', 1000000000000000), (''E'', 1000000000000000000)]"

fun first_suffix :: "(string \<times> i64) list \<Rightarrow> string \<Rightarrow> (string \<times> i64) option" where
  "first_suffix [] s = None"
| "first_suffix ((suf, mult) # sufs) s =
     (case strip_suffix s suf of Some rest \<Rightarrow> Some (rest, mult) | None \<Rightarrow> first_suffix sufs s)"

definition parse_quantity_milli :: "string \<Rightarrow> i64" where
  "parse_quantity_milli s =
     (if s = [] then 0
      else
        (case strip_suffix s ''m'' of
           Some rest \<Rightarrow> parse_number_milli rest 1
         | None \<Rightarrow>
             (case first_suffix binary_suffixes s of
                Some (rest, mult) \<Rightarrow> parse_number_milli rest (mult * 1000)
              | None \<Rightarrow>
                  (case first_suffix decimal_suffixes s of
                     Some (rest, mult) \<Rightarrow> parse_number_milli rest (mult * 1000)
                   | None \<Rightarrow> parse_number_milli s 1000))))"

subsection \<open>Whole quantities are exact\<close>

text \<open>What one unit of a suffix stands for, in milli-units.\<close>

definition unit_scales :: "(string \<times> int) list" where
  "unit_scales =
     [(''m'', 1), ('''', 1000),
      (''Ki'', 1024 * 1000), (''Mi'', 1024 ^ 2 * 1000), (''Gi'', 1024 ^ 3 * 1000),
      (''Ti'', 1024 ^ 4 * 1000), (''Pi'', 1024 ^ 5 * 1000),
      (''k'', 10 ^ 6), (''M'', 10 ^ 9), (''G'', 10 ^ 12), (''T'', 10 ^ 15), (''P'', 10 ^ 18)]"

lemma strip_suffix_append [simp]: "strip_suffix (s @ p) p = Some s"
  by (simp add: strip_suffix_Some_iff)

lemma strip_suffix_last:
  "s \<noteq> [] \<Longrightarrow> p \<noteq> [] \<Longrightarrow> last s \<noteq> last p \<Longrightarrow> strip_suffix s p = None"
  by (rule ccontr) (auto simp: strip_suffix_Some_iff)

lemma strip_suffix_snoc2:
  "strip_suffix (s @ [a, b]) [c, d] = (if a = c \<and> b = d then Some s else None)"
proof (cases "strip_suffix (s @ [a, b]) [c, d]")
  case None
  then show ?thesis using strip_suffix_append [of s "[c, d]"] by auto
next
  case (Some r)
  then have "s @ [a, b] = r @ [c, d]" by (simp add: strip_suffix_Some_iff)
  then show ?thesis using Some by auto
qed

lemma int_str_not_Nil [simp]: "int_str n \<noteq> []"
  by (simp add: int_str_def)

lemma last_nat_str: "is_digit (last (nat_str n))"
  using nat_str_digits [of n] by (simp add: list_all_iff)

lemma last_int_str: "is_digit (last (int_str n))"
  using last_nat_str by (auto simp: int_str_def)

lemma last_int_str_neq:
  "\<not> is_digit c \<Longrightarrow> last (int_str n) \<noteq> c"
  using last_int_str by auto

lemma split_sign_int_str:
  "split_sign (int_str n) = (n < 0, nat_str (nat \<bar>n\<bar>))"
proof (cases "n < 0")
  case False
  obtain c r where cr: "nat_str (nat n) = c # r" by (cases "nat_str (nat n)") auto
  then have "is_digit c" using nat_str_digits [of "nat n"] by simp
  then have "c \<noteq> CHR ''-''" "c \<noteq> CHR ''+''" by (auto simp: is_digit_def)
  then show ?thesis using False cr by (simp add: split_sign_def int_str_def)
qed (simp add: split_sign_def int_str_def)

lemma parse_i64_word_int_str: "in_i64 n \<Longrightarrow> parse_i64_word (int_str n) = Some (word_of_int n)"
  by (auto simp: parse_i64_word_def split_sign_int_str nat_str_digits digits_val_nat_str)

lemma sint_word_of_int: "in_i64 n \<Longrightarrow> sint (word_of_int n :: i64) = n"
  by (subst signed_of_int) (simp add: in_i64_def signed_take_bit_int_eq_self)

lemma parse_number_milli_whole:
  assumes "in_i64 n" "in_i64 m"
  shows "parse_number_milli (int_str n) (word_of_int m) =
    (if in_i64 (n * m) then word_of_int (n * m) else 0)"
  using assms by (simp add: parse_number_milli_def parse_i64_word_int_str checked_mul_def sint_word_of_int)

lemma quantity_plain: "parse_quantity_milli (int_str n) = parse_number_milli (int_str n) 1000"
  by (simp add: parse_quantity_milli_def binary_suffixes_def decimal_suffixes_def
      strip_suffix_last last_int_str_neq is_digit_def)

lemma quantity_suffixed:
  assumes "suf \<noteq> ''''" "(suf, m) \<in> set unit_scales"
  shows "parse_quantity_milli (int_str n @ suf) = parse_number_milli (int_str n) (word_of_int m)"
  using assms
  by (auto simp: unit_scales_def parse_quantity_milli_def binary_suffixes_def decimal_suffixes_def
      strip_suffix_last strip_suffix_snoc2)

text \<open>C31: A quantity written as a whole number that fits in an \<^verbatim>\<open>i64\<close>, with one of the unit suffixes up to
  peta/pebi, is parsed exactly: the result is the number times the unit, in milli-units, when that fits in an
  \<^verbatim>\<open>i64\<close>, and the \<^verbatim>\<open>0\<close> of an unparseable quantity when it does not.
\<close>

theorem whole_quantity_exact:
  assumes "(suf, m) \<in> set unit_scales" and "in_i64 n"
  shows "parse_quantity_milli (int_str n @ suf) =
    (if in_i64 (n * m) then word_of_int (n * m) else 0)"
proof (cases "suf = ''''")
  case True
  then have "m = 1000" using assms(1) by (auto simp: unit_scales_def)
  then show ?thesis
    using True assms(2) parse_number_milli_whole [of n 1000]
    by (simp add: quantity_plain in_i64_def)
next
  case False
  have "in_i64 m" using assms(1) by (auto simp: unit_scales_def in_i64_def)
  then show ?thesis
    using False assms by (simp add: quantity_suffixed parse_number_milli_whole)
qed

theorem whole_quantity_exact_witness:
  "parse_quantity_milli (int_str 9 @ ''P'') = word_of_int (9 * 10 ^ 18) \<and>
   parse_quantity_milli (int_str 10 @ ''P'') = 0"
  using whole_quantity_exact [of "''P''" "10 ^ 18" 9] whole_quantity_exact [of "''P''" "10 ^ 18" 10]
  by (simp add: unit_scales_def in_i64_def)

text \<open>
  The exa units are not parsed exactly: the multiplier times 1000 overflows an \<^verbatim>\<open>i64\<close>
  before the checked multiplication sees it. In a release build one exbibyte becomes the most
  negative amount, and one exabyte becomes less than four petabytes.
\<close>

theorem exa_quantity_wraps:
  "sint (parse_quantity_milli ''1Ei'') = - (2 ^ 63) \<and>
   sint (parse_quantity_milli ''1E'') = 3875820019684212736"
  by code_simp

subsection \<open>Resource requests\<close>

record resource_requests =
  cpu_milli :: i64
  memory_milli :: i64
  ephemeral_storage_milli :: i64
  extended :: "(string, i64) btree"

definition requests_default :: resource_requests where
  "requests_default = \<lparr>cpu_milli = 0, memory_milli = 0, ephemeral_storage_milli = 0, extended = []\<rparr>"

definition bt_get_or_zero :: "(string, 'a::zero) btree \<Rightarrow> string \<Rightarrow> 'a" where
  "bt_get_or_zero m name = (case map_of m name of Some v \<Rightarrow> v | None \<Rightarrow> 0)"

text \<open>\<^verbatim>\<open>*entry(name).or_insert(0) += amount\<close>.\<close>

definition entry_add :: "string \<Rightarrow> 'a::monoid_add \<Rightarrow> (string, 'a) btree \<Rightarrow> (string, 'a) btree" where
  "entry_add name amount m = bt_insert name (bt_get_or_zero m name + amount) m"

definition requests_add :: "resource_requests \<Rightarrow> resource_requests \<Rightarrow> resource_requests" where
  "requests_add a b =
     \<lparr>cpu_milli = cpu_milli a + cpu_milli b,
      memory_milli = memory_milli a + memory_milli b,
      ephemeral_storage_milli = ephemeral_storage_milli a + ephemeral_storage_milli b,
      extended = fold (\<lambda>(name, amount). entry_add name amount) (extended b) (extended a)\<rparr>"

definition entry_sub :: "string \<Rightarrow> i64 \<Rightarrow> (string, i64) btree \<Rightarrow> (string, i64) btree" where
  "entry_sub name amount m =
     (case map_of m name of Some remaining \<Rightarrow> bt_insert name (remaining - amount) m | None \<Rightarrow> m)"

definition subtract_requests :: "resource_requests \<Rightarrow> resource_requests \<Rightarrow> resource_requests" where
  "subtract_requests tot victim =
     \<lparr>cpu_milli = cpu_milli tot - cpu_milli victim,
      memory_milli = memory_milli tot - memory_milli victim,
      ephemeral_storage_milli = ephemeral_storage_milli tot - ephemeral_storage_milli victim,
      extended = fold (\<lambda>(name, amount). entry_sub name amount) (extended victim) (extended tot)\<rparr>"

definition accumulate_request :: "string \<Rightarrow> string \<Rightarrow> resource_requests \<Rightarrow> resource_requests" where
  "accumulate_request name quantity tot =
     (let milli = parse_quantity_milli quantity in
      if name = ''cpu'' then tot\<lparr>cpu_milli := cpu_milli tot + milli\<rparr>
      else if name = ''memory'' then tot\<lparr>memory_milli := memory_milli tot + milli\<rparr>
      else if name = ''ephemeral-storage''
      then tot\<lparr>ephemeral_storage_milli := ephemeral_storage_milli tot + milli\<rparr>
      else tot\<lparr>extended := entry_add name milli (extended tot)\<rparr>)"

text \<open>
  One view of all the dimensions: the amount a request has in a dimension, zero for an extended
  resource it does not name.
\<close>

datatype dim = Cpu | Memory | Ephemeral | Extended string

fun amount :: "resource_requests \<Rightarrow> dim \<Rightarrow> i64" where
  "amount r Cpu = cpu_milli r"
| "amount r Memory = memory_milli r"
| "amount r Ephemeral = ephemeral_storage_milli r"
| "amount r (Extended name) = bt_get_or_zero (extended r) name"

definition requests_wf :: "resource_requests \<Rightarrow> bool" where
  "requests_wf r = bt_wf (extended r)"

definition names :: "resource_requests \<Rightarrow> string set" where
  "names r = fst ` set (extended r)"

lemma get_entry_add [simp]:
  "bt_get_or_zero (entry_add name x m) n = (if n = name then bt_get_or_zero m name + x else bt_get_or_zero m n)"
  by (simp add: entry_add_def bt_get_or_zero_def)

lemma wf_entry_add [simp]: "bt_wf m \<Longrightarrow> bt_wf (entry_add name x m)"
  by (simp add: entry_add_def)

lemma keys_entry_add [simp]: "fst ` set (entry_add name x m) = insert name (fst ` set m)"
  by (simp add: entry_add_def)

lemma get_Nil [simp]: "bt_get_or_zero [] n = 0"
  by (simp add: bt_get_or_zero_def)

lemma get_Cons: "bt_get_or_zero ((k, v) # m) n = (if n = k then v else bt_get_or_zero m n)"
  by (simp add: bt_get_or_zero_def)

lemma get_absent: "n \<notin> fst ` set m \<Longrightarrow> bt_get_or_zero m n = 0"
  by (simp add: bt_get_or_zero_def map_of_eq_None_iff [THEN iffD2])

lemma get_fold_entry_add:
  fixes b :: "(string, 'a::comm_monoid_add) btree"
  assumes "distinct (map fst b)"
  shows "bt_get_or_zero (fold (\<lambda>(name, x). entry_add name x) b a) n = bt_get_or_zero a n + bt_get_or_zero b n"
  using assms
proof (induction b arbitrary: a)
  case (Cons e b)
  then show ?case
    by (cases e) (auto simp: get_Cons get_absent ac_simps)
qed simp

lemma fold_entry_add_wf [simp]:
  "bt_wf a \<Longrightarrow> bt_wf (fold (\<lambda>(name, x). entry_add name x) b a)"
  by (induction b arbitrary: a) auto

lemma fold_entry_add_keys [simp]:
  "fst ` set (fold (\<lambda>(name, x). entry_add name x) b a) = fst ` set a \<union> fst ` set b"
  by (induction b arbitrary: a) (simp_all add: split_beta)

lemma keys_entry_sub [simp]: "fst ` set (entry_sub name x m) = fst ` set m"
proof (cases "map_of m name")
  case (Some y)
  then have "name \<in> fst ` set m" by (metis domI dom_map_of_conv_image_fst)
  then show ?thesis using Some by (auto simp: entry_sub_def)
qed (simp add: entry_sub_def)

lemma get_entry_sub:
  "name \<in> fst ` set m \<Longrightarrow>
   bt_get_or_zero (entry_sub name x m) n = (if n = name then bt_get_or_zero m name - x else bt_get_or_zero m n)"
  by (cases "map_of m name") (simp_all add: entry_sub_def bt_get_or_zero_def map_of_eq_None_iff)

lemma fold_entry_sub_keys [simp]:
  "fst ` set (fold (\<lambda>(name, x). entry_sub name x) b a) = fst ` set a"
  by (induction b arbitrary: a) (simp_all add: split_beta)

lemma fold_entry_sub_wf [simp]:
  "bt_wf a \<Longrightarrow> bt_wf (fold (\<lambda>(name, x). entry_sub name x) b a)"
  by (induction b arbitrary: a) (auto simp: entry_sub_def split: option.split)

lemma get_fold_entry_sub:
  assumes "distinct (map fst b)" "fst ` set b \<subseteq> fst ` set a"
  shows "bt_get_or_zero (fold (\<lambda>(name, x). entry_sub name x) b a) n = bt_get_or_zero a n - bt_get_or_zero b n"
  using assms
proof (induction b arbitrary: a)
  case (Cons e b)
  then show ?case
    by (cases e) (auto simp: get_Cons get_entry_sub get_absent)
qed simp

lemma requests_wf_default [simp]: "requests_wf requests_default"
  by (simp add: requests_wf_def requests_default_def)

lemma requests_wf_add [simp]: "requests_wf a \<Longrightarrow> requests_wf (requests_add a b)"
  by (simp add: requests_wf_def requests_add_def)

lemma requests_wf_subtract [simp]: "requests_wf a \<Longrightarrow> requests_wf (subtract_requests a b)"
  by (simp add: requests_wf_def subtract_requests_def)

lemma requests_wf_accumulate [simp]: "requests_wf a \<Longrightarrow> requests_wf (accumulate_request n q a)"
  by (simp add: requests_wf_def accumulate_request_def Let_def)

lemma names_add [simp]: "names (requests_add a b) = names a \<union> names b"
  by (simp add: names_def requests_add_def)

lemma names_subtract [simp]: "names (subtract_requests a b) = names a"
  by (simp add: names_def subtract_requests_def)

lemma names_default [simp]: "names requests_default = {}"
  by (simp add: names_def requests_default_def)

lemma amount_default [simp]: "amount requests_default d = 0"
  by (cases d) (simp_all add: requests_default_def)

lemma amount_add [simp]: "requests_wf b \<Longrightarrow> amount (requests_add a b) d = amount a d + amount b d"
  by (cases d) (simp_all add: requests_add_def requests_wf_def get_fold_entry_add bt_wf_distinct)

lemma amount_subtract:
  "requests_wf b \<Longrightarrow> names b \<subseteq> names a \<Longrightarrow> amount (subtract_requests a b) d = amount a d - amount b d"
  by (cases d) (simp_all add: subtract_requests_def requests_wf_def names_def get_fold_entry_sub bt_wf_distinct)

lemma amount_absent: "name \<notin> names r \<Longrightarrow> amount r (Extended name) = 0"
  by (simp add: names_def get_absent)

end
