(* ===== verification/Sched_Pod.thy ===== *)
theory Sched_Pod
  imports Json_Value Sched_Quantity
begin

text \<open>
  The scheduler's view of a pod (\<^verbatim>\<open>crates/scheduler/src/lib.rs\<close>): the typed projections
  its predicates read, \<^verbatim>\<open>needs_scheduling\<close> which turns a watch event into a pending pod,
  and the status patches of gated and failed pods. Deserialising a JSON object into a projection
  is done by code the \<^verbatim>\<open>serde\<close> derive generates; it is a parameter, the partial function
  \<^verbatim>\<open>de\<close>. A \<^verbatim>\<open>HashMap\<close> is an association list with distinct keys in some order.
\<close>

type_synonym labels = "(string \<times> string) list"

subsection \<open>Typed projections\<close>

record toleration =
  tol_key :: "string option"
  tol_operator :: "string option"
  tol_value :: "string option"
  tol_effect :: "string option"

record node_selector_requirement =
  req_key :: string
  req_operator :: string
  req_values :: "string list"

record node_selector_term =
  match_expressions :: "node_selector_requirement list"
  match_fields :: "node_selector_requirement list"

type_synonym node_selector_spec = "node_selector_term list"

text \<open>A required node affinity is its optional selector.\<close>

type_synonym node_affinity = "node_selector_spec option"

record label_selector_spec =
  match_labels :: labels
  selector_expressions :: "node_selector_requirement list"

record pod_affinity_term =
  term_label_selector :: "label_selector_spec option"
  term_namespaces :: "string list"
  term_topology_key :: string

record affinity =
  aff_node_affinity :: "node_affinity option"
  aff_pod_affinity :: "pod_affinity_term list option"
  aff_pod_anti_affinity :: "pod_affinity_term list option"

record topology_spread_constraint =
  max_skew :: int
  spread_topology_key :: string
  when_unsatisfiable :: string
  spread_label_selector :: "label_selector_spec option"

record container_port_spec =
  port_host_port :: "int option"
  port_host_ip :: string
  port_protocol :: "string option"

record host_port_claim =
  host_port :: "16 word"
  host_ip :: string
  protocol :: string

record container_spec =
  container_requests :: "(string \<times> string) list"
  container_ports :: "container_port_spec list option"

record pod_volume =
  volume_label :: string
  persistent_volume_claim :: "string option"
  ephemeral :: "json option"
  csi :: "string option"

record pod_spec =
  spec_node_name :: "string option"
  spec_node_selector :: "labels option"
  spec_priority :: "int option"
  spec_scheduling_gates :: "json list option"
  spec_tolerations :: "toleration list option"
  spec_affinity :: "affinity option"
  spec_containers :: "container_spec list"
  spec_volumes :: "pod_volume list option"
  spec_topology_spread_constraints :: "topology_spread_constraint list"
  spec_overhead :: "(string \<times> string) list"

record pod_metadata =
  meta_name :: "string option"
  meta_namespace :: "string option"
  meta_labels :: labels

record pod_condition_view =
  condition_type :: "string option"
  condition_status :: "string option"
  condition_reason :: "string option"
  condition_message :: "string option"

record pod_object =
  pod_metadata :: pod_metadata
  pod_spec :: pod_spec
  pod_conditions :: "pod_condition_view list"

definition pod_spec_default :: pod_spec where
  "pod_spec_default =
     \<lparr>spec_node_name = None, spec_node_selector = None, spec_priority = None,
      spec_scheduling_gates = None, spec_tolerations = None, spec_affinity = None,
      spec_containers = [], spec_volumes = None, spec_topology_spread_constraints = [],
      spec_overhead = []\<rparr>"

definition pod_object_default :: pod_object where
  "pod_object_default =
     \<lparr>pod_metadata = \<lparr>meta_name = None, meta_namespace = None, meta_labels = []\<rparr>,
      pod_spec = pod_spec_default, pod_conditions = []\<rparr>"

record 'a watch_event =
  event_type :: string
  event_object :: 'a

record pending_pod =
  pod_namespace :: string
  pod_name :: string
  node_selector :: labels
  priority :: int
  tolerations :: "toleration list"
  node_affinity :: "node_affinity option"
  pod_labels :: labels
  pod_affinity_terms :: "pod_affinity_term list"
  pod_anti_affinity_terms :: "pod_affinity_term list"
  requests :: resource_requests
  host_ports :: "host_port_claim list"
  pvc_names :: "string list"
  pv_node_affinities :: "node_selector_spec list"
  topology_spread_constraints :: "topology_spread_constraint list"
  csi_volume_counts :: "(string, i64) btree"
  read_write_once_pod_pvcs :: "string list"
  unbound_csi_pvc_drivers :: "string list"

definition needed_csi_drivers :: "pending_pod \<Rightarrow> string list" where
  "needed_csi_drivers pod = unbound_csi_pvc_drivers pod @ map fst (csi_volume_counts pod)"

definition pod_key :: "pending_pod \<Rightarrow> string" where
  "pod_key pod = pod_namespace pod @ ''/'' @ pod_name pod"

subsection \<open>Requests, host ports and volumes of a pod\<close>

definition sum_container_requests :: "container_spec list \<Rightarrow> resource_requests" where
  "sum_container_requests containers =
     fold (\<lambda>c. fold (\<lambda>(name, quantity). accumulate_request name quantity) (container_requests c))
       containers requests_default"

definition pod_total_requests :: "pod_spec \<Rightarrow> resource_requests" where
  "pod_total_requests spec =
     fold (\<lambda>(name, quantity). accumulate_request name quantity) (spec_overhead spec)
       (sum_container_requests (spec_containers spec))"

definition container_host_ports :: "container_spec list \<Rightarrow> host_port_claim list" where
  "container_host_ports containers =
     map (\<lambda>p. \<lparr>host_port = word_of_int (case port_host_port p of Some hp \<Rightarrow> hp | None \<Rightarrow> 0),
               host_ip = port_host_ip p,
               protocol = map ascii_upper (case port_protocol p of Some s \<Rightarrow> s | None \<Rightarrow> ''TCP'')\<rparr>)
       (filter (\<lambda>p. case port_host_port p of Some hp \<Rightarrow> hp > 0 | None \<Rightarrow> False)
         (concat (List.map_filter container_ports containers)))"

definition inline_csi_drivers :: "pod_volume list \<Rightarrow> string list" where
  "inline_csi_drivers volumes = List.map_filter csi volumes"

definition referenced_pvc_names :: "string \<Rightarrow> pod_volume list \<Rightarrow> string list" where
  "referenced_pvc_names name volumes =
     List.map_filter
       (\<lambda>v. case persistent_volume_claim v of
               Some claim \<Rightarrow> Some claim
             | None \<Rightarrow> if ephemeral v \<noteq> None then Some (name @ ''-'' @ volume_label v) else None)
       volumes"

definition pvc_key :: "string \<Rightarrow> string \<Rightarrow> string" where
  "pvc_key namespace pvc_name = namespace @ ''/'' @ pvc_name"

subsection \<open>Pods that need scheduling\<close>

definition is_set_str :: "string option \<Rightarrow> bool" where
  "is_set_str o_s = (case o_s of Some s \<Rightarrow> s \<noteq> [] | None \<Rightarrow> False)"

definition has_gates :: "pod_spec \<Rightarrow> bool" where
  "has_gates spec = (case spec_scheduling_gates spec of Some gs \<Rightarrow> gs \<noteq> [] | None \<Rightarrow> False)"

definition pending_of :: "pod_object \<Rightarrow> pending_pod" where
  "pending_of object =
     (let spec = pod_spec object;
          name = or_default [] (meta_name (pod_metadata object));
          volumes = or_default [] (spec_volumes spec)
      in \<lparr>pod_namespace = or_default ''default'' (meta_namespace (pod_metadata object)),
          pod_name = name,
          node_selector = or_default [] (spec_node_selector spec),
          priority = or_default 0 (spec_priority spec),
          tolerations = or_default [] (spec_tolerations spec),
          node_affinity = Option.bind (spec_affinity spec) aff_node_affinity,
          pod_labels = meta_labels (pod_metadata object),
          pod_affinity_terms = or_default [] (Option.bind (spec_affinity spec) aff_pod_affinity),
          pod_anti_affinity_terms = or_default [] (Option.bind (spec_affinity spec) aff_pod_anti_affinity),
          requests = pod_total_requests spec,
          host_ports = container_host_ports (spec_containers spec),
          pvc_names = referenced_pvc_names name volumes,
          pv_node_affinities = [],
          topology_spread_constraints = spec_topology_spread_constraints spec,
          csi_volume_counts = [],
          read_write_once_pod_pvcs = [],
          unbound_csi_pvc_drivers = inline_csi_drivers volumes\<rparr>)"

definition needs_scheduling_pod :: "(json \<Rightarrow> pod_object option) \<Rightarrow> json \<Rightarrow> pending_pod option" where
  "needs_scheduling_pod de pod =
     (let object = or_default pod_object_default (de pod) in
      if or_default [] (meta_name (pod_metadata object)) = [] then None
      else if is_set_str (spec_node_name (pod_spec object)) then None
      else if has_gates (pod_spec object) then None
      else Some (pending_of object))"

definition needs_scheduling :: "(json \<Rightarrow> pod_object option) \<Rightarrow> json \<Rightarrow> pending_pod option" where
  "needs_scheduling de event =
     (let ty = or_default [] (Option.bind (json_get event ''type'') as_str) in
      if ty \<noteq> ''ADDED'' \<and> ty \<noteq> ''MODIFIED'' then None
      else Option.bind (json_get event ''object'') (needs_scheduling_pod de))"

definition unscheduled_pod_uids :: "(json \<Rightarrow> pod_object option) \<Rightarrow> json list \<Rightarrow> (string \<times> string) list" where
  "unscheduled_pod_uids de objects =
     List.map_filter
       (\<lambda>obj. map_option
          (\<lambda>pending. (pod_key pending, or_default [] (as_str (json_idx (json_idx obj ''metadata'') ''uid''))))
          (needs_scheduling_pod de obj))
       objects"

definition should_schedule :: "string set \<Rightarrow> string \<Rightarrow> bool" where
  "should_schedule in_flight key = (key \<notin> in_flight)"

definition pods_needing_resync ::
  "(json \<Rightarrow> pod_object option) \<Rightarrow> json list \<Rightarrow> string set \<Rightarrow> json list" where
  "pods_needing_resync de items in_flight =
     map (\<lambda>item. JObj [(''object'', item), (''type'', JStr ''MODIFIED'')])
       (filter (\<lambda>item. case needs_scheduling_pod de item of
                          Some pending \<Rightarrow> should_schedule in_flight (pod_key pending)
                        | None \<Rightarrow> False)
         items)"

subsection \<open>Status patches\<close>

definition condition_patch :: "(string \<times> string) list \<Rightarrow> json" where
  "condition_patch kvs =
     JObj [(''status'', JObj [(''conditions'', JArr [JObj (map (\<lambda>(k, v). (k, JStr v)) kvs)])])]"

definition scheduling_gate_status_patch ::
  "(json \<Rightarrow> pod_object watch_event option) \<Rightarrow> json \<Rightarrow> (string \<times> string \<times> json) option" where
  "scheduling_gate_status_patch de event =
     (case de event of
        None \<Rightarrow> None
      | Some e \<Rightarrow>
          (let object = event_object e; name = or_default [] (meta_name (pod_metadata object)) in
           if event_type e \<noteq> ''ADDED'' \<and> event_type e \<noteq> ''MODIFIED'' then None
           else if name = [] then None
           else if is_set_str (spec_node_name (pod_spec object)) then None
           else if \<not> has_gates (pod_spec object) then None
           else if \<exists>c \<in> set (pod_conditions object).
                     condition_type c = Some ''PodScheduled'' \<and> condition_status c = Some ''False'' \<and>
                     condition_reason c = Some ''SchedulingGated'' then None
           else Some (or_default ''default'' (meta_namespace (pod_metadata object)), name,
                  condition_patch
                    [(''message'', ''Scheduling is blocked due to non-empty scheduling gates''),
                     (''reason'', ''SchedulingGated''), (''status'', ''False''), (''type'', ''PodScheduled'')])))"

definition scheduling_gate_status_reset ::
  "(json \<Rightarrow> pod_object watch_event option) \<Rightarrow> json \<Rightarrow> json option" where
  "scheduling_gate_status_reset de event =
     (case de event of
        None \<Rightarrow> None
      | Some e \<Rightarrow>
          (let object = event_object e in
           if event_type e \<noteq> ''ADDED'' \<and> event_type e \<noteq> ''MODIFIED'' then None
           else if is_set_str (spec_node_name (pod_spec object)) then None
           else if has_gates (pod_spec object) then None
           else if \<exists>c \<in> set (pod_conditions object).
                     condition_type c = Some ''PodScheduled'' \<and> condition_reason c = Some ''SchedulingGated''
           then Some (condition_patch
                    [(''message'', ''pod not yet scheduled''), (''reason'', ''Unschedulable''),
                     (''type'', ''PodScheduled'')])
           else None))"

definition failed_scheduling_status_patch ::
  "(json \<Rightarrow> pod_object watch_event option) \<Rightarrow> json \<Rightarrow> string \<Rightarrow> json option" where
  "failed_scheduling_status_patch de event message =
     (if (case de event of
            Some e \<Rightarrow> \<exists>c \<in> set (pod_conditions (event_object e)).
                         condition_type c = Some ''PodScheduled'' \<and> condition_status c = Some ''False'' \<and>
                         condition_reason c = Some ''Unschedulable'' \<and> condition_message c = Some message
          | None \<Rightarrow> False) then None
      else Some (condition_patch
             [(''message'', message), (''reason'', ''Unschedulable''), (''status'', ''False''),
              (''type'', ''PodScheduled'')]))"

subsection \<open>Totals\<close>

fun dim_of_name :: "string \<Rightarrow> dim" where
  "dim_of_name name =
     (if name = ''cpu'' then Cpu else if name = ''memory'' then Memory
      else if name = ''ephemeral-storage'' then Ephemeral else Extended name)"

declare dim_of_name.simps [simp del]

text \<open>What a list of resource entries asks for in one dimension.\<close>

definition asked :: "(string \<times> string) list \<Rightarrow> dim \<Rightarrow> i64" where
  "asked es d = sum_list (map (\<lambda>(n, q). if dim_of_name n = d then parse_quantity_milli q else 0) es)"


lemma amount_accumulate_request [simp]:
  "amount (accumulate_request n q t) d = amount t d + (if dim_of_name n = d then parse_quantity_milli q else 0)"
  by (cases d) (auto simp: accumulate_request_def dim_of_name.simps Let_def)

lemma amount_fold_accumulate:
  "amount (fold (\<lambda>(n, q). accumulate_request n q) es t) d = amount t d + asked es d"
  by (induction es arbitrary: t) (auto simp: asked_def)

lemma requests_wf_fold_accumulate [simp]:
  "requests_wf t \<Longrightarrow> requests_wf (fold (\<lambda>(n, q). accumulate_request n q) es t)"
  by (induction es arbitrary: t) auto

lemma fold_containers:
  "amount (fold (\<lambda>c. fold (\<lambda>(n, q). accumulate_request n q) (container_requests c)) cs t) d =
   amount t d + sum_list (map (\<lambda>c. asked (container_requests c) d) cs)"
  by (induction cs arbitrary: t) (auto simp: amount_fold_accumulate)

lemma requests_wf_fold_containers:
  "requests_wf t \<Longrightarrow>
   requests_wf (fold (\<lambda>c. fold (\<lambda>(n, q). accumulate_request n q) (container_requests c)) cs t)"
  by (induction cs arbitrary: t) auto

lemma requests_wf_total [simp]: "requests_wf (pod_total_requests spec)"
  by (simp add: pod_total_requests_def sum_container_requests_def requests_wf_fold_containers)

lemma amount_total:
  "amount (pod_total_requests spec) d =
   sum_list (map (\<lambda>c. asked (container_requests c) d) (spec_containers spec)) + asked (spec_overhead spec) d"
  by (simp add: pod_total_requests_def sum_container_requests_def amount_fold_accumulate fold_containers)

subsection \<open>Gated pods\<close>

lemma needs_scheduling_podD:
  assumes "needs_scheduling_pod de pod = Some pending"
  obtains object where "de pod = Some object" "pending = pending_of object"
    "pod_name pending \<noteq> []" "\<not> is_set_str (spec_node_name (pod_spec object))" "\<not> has_gates (pod_spec object)"
proof -
  obtain object where "de pod = Some object"
    using assms
    by (cases "de pod") (simp_all add: needs_scheduling_pod_def or_default_def pod_object_default_def)
  with assms that show ?thesis
    by (auto simp: needs_scheduling_pod_def or_default_def pending_of_def Let_def split: if_splits)
qed

lemma requests_wf_pending: "needs_scheduling_pod de pod = Some pending \<Longrightarrow> requests_wf (requests pending)"
  by (erule needs_scheduling_podD) (simp add: pending_of_def Let_def)

end
