(* ===== verification/Sched_Match.thy ===== *)
theory Sched_Match
  imports Sched_Pod "HOL-Library.AList"
begin

text \<open>
  The scheduler's filters (\<^verbatim>\<open>crates/scheduler/src/lib.rs\<close>): node selectors and affinity,
  taints, resources, host ports, exclusive volumes, attach limits, inter-pod affinity and topology
  spread, each a function of a node, a pending pod and what the tally reports. The counts of the
  last two are shown to be the counts of the matching pods, and discounting a node's preemption
  victims is shown to be the same as building the counts without them.
\<close>

subsection \<open>Nodes\<close>

record taint =
  taint_key :: string
  taint_value :: string
  taint_effect :: string

record node_allocatable =
  alloc_pods :: string
  alloc_cpu :: string
  alloc_memory :: string
  alloc_ephemeral_storage :: string
  alloc_extended :: "(string, string) btree"

record node_item =
  node_name :: string
  node_labels :: labels
  taints :: "taint list"
  unschedulable :: "bool option"
  allocatable :: node_allocatable
  capacity :: node_allocatable
  csi_driver_headroom :: "(string, i64) btree"
  csi_registered_drivers :: "string set"
  csi_prevent_scheduling_drivers :: "string set"

record tallied_pod_labels =
  tallied_key :: string
  tallied_node :: string
  tallied_namespace :: string
  tallied_labels :: labels

subsection \<open>Selectors, taints and ports\<close>

definition node_selector_matches :: "labels \<Rightarrow> labels \<Rightarrow> bool" where
  "node_selector_matches labels selector = list_all (\<lambda>(k, v). map_of labels k = Some v) selector"

definition node_selector_requirement_matches :: "labels \<Rightarrow> node_selector_requirement \<Rightarrow> bool" where
  "node_selector_requirement_matches labels req =
     (let listed = (case map_of labels (req_key req) of Some v \<Rightarrow> v \<in> set (req_values req) | None \<Rightarrow> False) in
      if req_operator req = ''In'' then listed
      else if req_operator req = ''NotIn'' then \<not> listed
      else if req_operator req = ''Exists'' then map_of labels (req_key req) \<noteq> None
      else if req_operator req = ''DoesNotExist'' then map_of labels (req_key req) = None
      else False)"

definition node_selector_spec_matches :: "labels \<Rightarrow> string \<Rightarrow> node_selector_spec option \<Rightarrow> bool" where
  "node_selector_spec_matches labels name selector =
     (case selector of
        None \<Rightarrow> True
      | Some terms \<Rightarrow>
          if terms = [] then True
          else list_ex (\<lambda>t.
                 list_all (node_selector_requirement_matches labels) (match_expressions t) \<and>
                 list_all (node_selector_requirement_matches [(''metadata.name'', name)]) (match_fields t)) terms)"

definition node_affinity_matches :: "labels \<Rightarrow> string \<Rightarrow> node_affinity option \<Rightarrow> bool" where
  "node_affinity_matches labels name affinity =
     node_selector_spec_matches labels name (Option.bind affinity (\<lambda>a. a))"

definition toleration_matches_taint :: "toleration \<Rightarrow> taint \<Rightarrow> bool" where
  "toleration_matches_taint tol t =
     (if (case tol_effect tol of Some e \<Rightarrow> e \<noteq> taint_effect t | None \<Rightarrow> False) then False
      else (case tol_key tol of
              None \<Rightarrow> tol_operator tol = Some ''Exists''
            | Some key \<Rightarrow> key = taint_key t \<and>
                (tol_operator tol = Some ''Exists'' \<or> or_default [] (tol_value tol) = taint_value t)))"

definition node_taints_tolerated :: "taint list \<Rightarrow> toleration list \<Rightarrow> bool" where
  "node_taints_tolerated ts tols =
     list_all (\<lambda>t. list_ex (\<lambda>tol. toleration_matches_taint tol t) tols)
       (filter (\<lambda>t. taint_effect t = ''NoSchedule'' \<or> taint_effect t = ''NoExecute'') ts)"

definition unschedulable_taint :: taint where
  "unschedulable_taint =
     \<lparr>taint_key = ''node.kubernetes.io/unschedulable'', taint_value = '''', taint_effect = ''NoSchedule''\<rparr>"

definition node_qualifies_for_pod :: "node_item \<Rightarrow> pending_pod \<Rightarrow> bool" where
  "node_qualifies_for_pod node pod =
     (node_selector_matches (node_labels node) (node_selector pod) \<and>
      node_affinity_matches (node_labels node) (node_name node) (node_affinity pod) \<and>
      node_taints_tolerated (taints node) (tolerations pod) \<and>
      (unschedulable node \<noteq> Some True \<or>
       list_ex (\<lambda>tol. toleration_matches_taint tol unschedulable_taint) (tolerations pod)) \<and>
      list_all (\<lambda>selector. node_selector_spec_matches (node_labels node) (node_name node) (Some selector))
        (pv_node_affinities pod))"

definition pod_count_capacity :: "node_item \<Rightarrow> nat" where
  "pod_count_capacity node =
     parse_pod_capacity
       (if alloc_pods (allocatable node) \<noteq> [] then alloc_pods (allocatable node)
        else alloc_pods (capacity node))"

definition extended_cap :: "node_allocatable \<Rightarrow> string \<Rightarrow> i64" where
  "extended_cap al name =
     (case map_of (alloc_extended al) name of Some s \<Rightarrow> parse_quantity_milli s | None \<Rightarrow> 0)"

definition resource_fits :: "node_allocatable \<Rightarrow> resource_requests \<Rightarrow> resource_requests \<Rightarrow> bool" where
  "resource_fits al used requested =
     (let cpu_cap = parse_quantity_milli (alloc_cpu al);
          mem_cap = parse_quantity_milli (alloc_memory al);
          eph_cap = parse_quantity_milli (alloc_ephemeral_storage al)
      in (cpu_cap = 0 \<or> sint (cpu_milli used + cpu_milli requested) \<le> sint cpu_cap) \<and>
         (mem_cap = 0 \<or> sint (memory_milli used + memory_milli requested) \<le> sint mem_cap) \<and>
         (eph_cap = 0 \<or>
          sint (ephemeral_storage_milli used + ephemeral_storage_milli requested) \<le> sint eph_cap) \<and>
         list_all (\<lambda>(name, want).
             want = 0 \<or> sint (bt_get_or_zero (extended used) name + want) \<le> sint (extended_cap al name))
           (extended requested))"

definition is_wildcard_host_ip :: "string \<Rightarrow> bool" where
  "is_wildcard_host_ip ip = (ip = [] \<or> ip = ''0.0.0.0'')"

definition host_ports_conflict :: "host_port_claim \<Rightarrow> host_port_claim \<Rightarrow> bool" where
  "host_ports_conflict a b =
     (host_port a = host_port b \<and> protocol a = protocol b \<and>
      (host_ip a = host_ip b \<or> is_wildcard_host_ip (host_ip a) \<or> is_wildcard_host_ip (host_ip b)))"

definition host_ports_fit :: "host_port_claim list \<Rightarrow> host_port_claim list \<Rightarrow> bool" where
  "host_ports_fit node_ports pod_ports =
     (\<not> list_ex (\<lambda>want. list_ex (\<lambda>have. host_ports_conflict have want) node_ports) pod_ports)"

definition read_write_once_pod_conflict_free :: "string list \<Rightarrow> string list \<Rightarrow> bool" where
  "read_write_once_pod_conflict_free node_pvcs rwop_pvcs =
     (\<not> list_ex (\<lambda>pvc. pvc \<in> set node_pvcs) rwop_pvcs)"

definition net_csi_headroom :: "(string, i64) btree \<Rightarrow> (string, i64) btree \<Rightarrow> (string, i64) btree" where
  "net_csi_headroom limits attached =
     map (\<lambda>(driver, limit). (driver, limit - bt_get_or_zero attached driver)) limits"

definition csi_volume_limits_fit :: "(string, i64) btree \<Rightarrow> (string, i64) btree \<Rightarrow> bool" where
  "csi_volume_limits_fit headrooms counts =
     list_all (\<lambda>(driver, want).
         case map_of headrooms driver of Some headroom \<Rightarrow> sint want \<le> sint headroom | None \<Rightarrow> True)
       counts"

definition missing_required_csi_driver :: "string set \<Rightarrow> string set \<Rightarrow> string list \<Rightarrow> string option" where
  "missing_required_csi_driver registered prevent drivers =
     List.find (\<lambda>driver. driver \<in> prevent \<and> driver \<notin> registered) drivers"

subsection \<open>Label selectors and inter-pod affinity\<close>

definition label_selector_matches :: "labels \<Rightarrow> label_selector_spec option \<Rightarrow> bool" where
  "label_selector_matches labels selector =
     (case selector of
        None \<Rightarrow> False
      | Some s \<Rightarrow> list_all (\<lambda>(k, v). map_of labels k = Some v) (match_labels s) \<and>
                 list_all (node_selector_requirement_matches labels) (selector_expressions s))"

definition term_namespace_matches :: "string list \<Rightarrow> string \<Rightarrow> string \<Rightarrow> bool" where
  "term_namespace_matches namespaces own candidate =
     (if namespaces = [] then candidate = own else candidate \<in> set namespaces)"

definition pod_matches_affinity_term :: "pod_affinity_term \<Rightarrow> string \<Rightarrow> string \<Rightarrow> labels \<Rightarrow> bool" where
  "pod_matches_affinity_term t own candidate_ns candidate_labels =
     (term_namespace_matches (term_namespaces t) own candidate_ns \<and>
      label_selector_matches candidate_labels (term_label_selector t))"

type_synonym labels_by_name = "(string \<times> labels) list"
type_synonym pair_counts = "((string \<times> string) \<times> int) list"

definition node_labels_by_name :: "node_item list \<Rightarrow> labels_by_name" where
  "node_labels_by_name items = fold (\<lambda>n. AList.update (node_name n) (node_labels n)) items []"

text \<open>The value of a topology key on the node a tallied pod is on.\<close>

definition domain_of :: "labels_by_name \<Rightarrow> string \<Rightarrow> tallied_pod_labels \<Rightarrow> string option" where
  "domain_of by_name key p = Option.bind (map_of by_name (tallied_node p)) (\<lambda>labels. map_of labels key)"

definition hm_count :: "('k \<times> int) list \<Rightarrow> 'k \<Rightarrow> int" where
  "hm_count m k = or_default 0 (map_of m k)"

definition hm_add :: "'k \<Rightarrow> int \<Rightarrow> ('k \<times> int) list \<Rightarrow> ('k \<times> int) list" where
  "hm_add k n m = AList.update k (hm_count m k + n) m"

definition topology_pairs_matched_by_terms ::
  "pod_affinity_term list \<Rightarrow> string \<Rightarrow> tallied_pod_labels list \<Rightarrow> labels_by_name \<Rightarrow> pair_counts" where
  "topology_pairs_matched_by_terms terms own tallied by_name =
     fold (\<lambda>t m.
       if term_topology_key t = [] then m
       else fold (\<lambda>p m.
              if \<not> pod_matches_affinity_term t own (tallied_namespace p) (tallied_labels p) then m
              else (case domain_of by_name (term_topology_key t) p of
                      Some v \<Rightarrow> hm_add (term_topology_key t, v) 1 m
                    | None \<Rightarrow> m)) tallied m)
       terms []"

definition pod_affinity_satisfied :: "pending_pod \<Rightarrow> labels \<Rightarrow> pair_counts \<Rightarrow> bool" where
  "pod_affinity_satisfied pod labels matched =
     (if pod_affinity_terms pod = [] then True
      else if list_ex (\<lambda>t. map_of labels (term_topology_key t) = None) (pod_affinity_terms pod) then False
      else if list_all (\<lambda>t. case map_of labels (term_topology_key t) of
                               Some v \<Rightarrow> (case map_of matched (term_topology_key t, v) of
                                           Some n \<Rightarrow> 0 < n | None \<Rightarrow> False)
                             | None \<Rightarrow> False) (pod_affinity_terms pod) then True
      else matched = [] \<and>
           list_all (\<lambda>t. pod_matches_affinity_term t (pod_namespace pod) (pod_namespace pod) (pod_labels pod))
             (pod_affinity_terms pod))"

definition pod_anti_affinity_satisfied :: "pending_pod \<Rightarrow> labels \<Rightarrow> pair_counts \<Rightarrow> bool" where
  "pod_anti_affinity_satisfied pod labels matched =
     list_all (\<lambda>t. case map_of labels (term_topology_key t) of
                      None \<Rightarrow> True
                    | Some v \<Rightarrow> (case map_of matched (term_topology_key t, v) of
                                  Some n \<Rightarrow> n \<le> 0 | None \<Rightarrow> True))
       (pod_anti_affinity_terms pod)"

definition discount_matched_pairs ::
  "pod_affinity_term list \<Rightarrow> string \<Rightarrow> pair_counts \<Rightarrow> labels \<Rightarrow> tallied_pod_labels list \<Rightarrow> pair_counts" where
  "discount_matched_pairs terms own matched labels victims =
     fold (\<lambda>t m.
       case map_of labels (term_topology_key t) of
         None \<Rightarrow> m
       | Some v \<Rightarrow>
           (let discount = int (length (filter (\<lambda>p.
                  pod_matches_affinity_term t own (tallied_namespace p) (tallied_labels p)) victims))
            in if 0 < discount
               then (case map_of m (term_topology_key t, v) of
                       Some n \<Rightarrow> AList.update (term_topology_key t, v) (n - discount) m
                     | None \<Rightarrow> m)
               else m))
       terms matched"

record inter_pod_affinity_context =
  affinity_pod :: pending_pod
  affinity_matched :: pair_counts
  anti_affinity_matched :: pair_counts

definition affinity_context ::
  "pending_pod \<Rightarrow> tallied_pod_labels list \<Rightarrow> labels_by_name \<Rightarrow> inter_pod_affinity_context" where
  "affinity_context pod tallied by_name =
     \<lparr>affinity_pod = pod,
      affinity_matched =
        topology_pairs_matched_by_terms (pod_affinity_terms pod) (pod_namespace pod) tallied by_name,
      anti_affinity_matched =
        topology_pairs_matched_by_terms (pod_anti_affinity_terms pod) (pod_namespace pod) tallied by_name\<rparr>"

definition affinity_qualifies_excluding_victims ::
  "inter_pod_affinity_context \<Rightarrow> labels \<Rightarrow> tallied_pod_labels list \<Rightarrow> bool" where
  "affinity_qualifies_excluding_victims ctx labels victims =
     (let pod = affinity_pod ctx in
      if victims = []
      then pod_affinity_satisfied pod labels (affinity_matched ctx) \<and>
           pod_anti_affinity_satisfied pod labels (anti_affinity_matched ctx)
      else pod_affinity_satisfied pod labels
             (discount_matched_pairs (pod_affinity_terms pod) (pod_namespace pod)
               (affinity_matched ctx) labels victims) \<and>
           pod_anti_affinity_satisfied pod labels
             (discount_matched_pairs (pod_anti_affinity_terms pod) (pod_namespace pod)
               (anti_affinity_matched ctx) labels victims))"

definition affinity_qualifies :: "inter_pod_affinity_context \<Rightarrow> labels \<Rightarrow> bool" where
  "affinity_qualifies ctx labels = affinity_qualifies_excluding_victims ctx labels []"

subsection \<open>Topology spread\<close>

definition topology_domain_counts ::
  "topology_spread_constraint \<Rightarrow> string \<Rightarrow> tallied_pod_labels list \<Rightarrow> labels_by_name \<Rightarrow> (string \<times> int) list" where
  "topology_domain_counts c own tallied by_name =
     fold (\<lambda>p m.
       if tallied_namespace p \<noteq> own then m
       else if \<not> label_selector_matches (tallied_labels p) (spread_label_selector c) then m
       else (case domain_of by_name (spread_topology_key c) p of Some v \<Rightarrow> hm_add v 1 m | None \<Rightarrow> m))
       tallied
       (fold (\<lambda>(_, labels) m.
          case map_of labels (spread_topology_key c) of Some v \<Rightarrow> hm_add v 0 m | None \<Rightarrow> m)
          by_name [])"

record topology_spread_term =
  spread_constraint :: topology_spread_constraint
  spread_counts :: "(string \<times> int) list"
  min_match_num :: int

definition min_count :: "int \<Rightarrow> int list \<Rightarrow> int" where
  "min_count d ns = (if ns = [] then d else min_list ns)"

definition topology_context ::
  "pending_pod \<Rightarrow> tallied_pod_labels list \<Rightarrow> labels_by_name \<Rightarrow> topology_spread_term list" where
  "topology_context pod tallied by_name =
     map (\<lambda>c. let counts = topology_domain_counts c (pod_namespace pod) tallied by_name
              in \<lparr>spread_constraint = c, spread_counts = counts,
                  min_match_num = min_count 0 (map snd counts)\<rparr>)
       (filter (\<lambda>c. when_unsatisfiable c = ''DoNotSchedule'' \<and> spread_topology_key c \<noteq> [])
         (topology_spread_constraints pod))"

definition spread_term_ok ::
  "pending_pod \<Rightarrow> labels \<Rightarrow> tallied_pod_labels list \<Rightarrow> topology_spread_term \<Rightarrow> bool" where
  "spread_term_ok pod labels victims t =
     (let c = spread_constraint t in
      case map_of labels (spread_topology_key c) of
        None \<Rightarrow> False
      | Some v \<Rightarrow>
          (let discount = int (length (filter (\<lambda>p. tallied_namespace p = pod_namespace pod \<and>
                 label_selector_matches (tallied_labels p) (spread_label_selector c)) victims));
               match_num = hm_count (spread_counts t) v - discount;
               self_match = (if label_selector_matches (pod_labels pod) (spread_label_selector c) then 1 else 0);
               minimum = (if discount = 0 then min_match_num t
                          else min_count (min_match_num t)
                                 (map (\<lambda>(w, n). if w = v then n - discount else n) (spread_counts t)))
           in match_num + self_match - minimum \<le> max_skew c))"

definition topology_qualifies_excluding_victims ::
  "pending_pod \<Rightarrow> topology_spread_term list \<Rightarrow> labels \<Rightarrow> tallied_pod_labels list \<Rightarrow> bool" where
  "topology_qualifies_excluding_victims pod terms labels victims =
     list_all (spread_term_ok pod labels victims) terms"

definition topology_qualifies :: "pending_pod \<Rightarrow> topology_spread_term list \<Rightarrow> labels \<Rightarrow> bool" where
  "topology_qualifies pod terms labels = topology_qualifies_excluding_victims pod terms labels []"

subsection \<open>Counting maps\<close>

lemma hm_count_add [simp]:
  "hm_count (hm_add k n m) j = (if j = k then hm_count m k + n else hm_count m j)"
  by (simp add: hm_count_def hm_add_def update_conv or_default_def)

lemma hm_count_Nil [simp]: "hm_count [] k = 0"
  by (simp add: hm_count_def or_default_def)

lemma keys_hm_add [simp]: "fst ` set (hm_add k n m) = insert k (fst ` set m)"
  by (simp add: hm_add_def update_keys insert_absorb flip: set_map)

lemma distinct_hm_add [simp]: "distinct (map fst m) \<Longrightarrow> distinct (map fst (hm_add k n m))"
  by (simp add: hm_add_def distinct_update)

text \<open>A loop that adds an amount to the entry some of the items select.\<close>

definition tally_loop :: "int \<Rightarrow> ('a \<Rightarrow> 'k option) \<Rightarrow> 'a list \<Rightarrow> ('k \<times> int) list \<Rightarrow> ('k \<times> int) list" where
  "tally_loop n f xs m = fold (\<lambda>x m. case f x of Some k \<Rightarrow> hm_add k n m | None \<Rightarrow> m) xs m"

lemma tally_loop_simps [simp]:
  "tally_loop n f [] m = m"
  "tally_loop n f (x # xs) m = tally_loop n f xs (case f x of Some k \<Rightarrow> hm_add k n m | None \<Rightarrow> m)"
  by (simp_all add: tally_loop_def)

lemma tally_loop_count:
  "hm_count (tally_loop n f xs m) k = hm_count m k + n * int (length (filter (\<lambda>x. f x = Some k) xs))"
  by (induction xs arbitrary: m) (auto simp: algebra_simps split: option.split)

lemma tally_loop_keys:
  "fst ` set (tally_loop n f xs m) = fst ` set m \<union> {k. \<exists>x \<in> set xs. f x = Some k}"
proof (induction xs arbitrary: m)
  case (Cons x xs)
  then show ?case by (cases "f x") auto
qed simp

lemma tally_loop_distinct [simp]:
  "distinct (map fst m) \<Longrightarrow> distinct (map fst (tally_loop n f xs m))"
  by (induction xs arbitrary: m) (auto split: option.split)

lemma fold_branches_cong:
  "(\<And>x m. x \<in> set xs \<Longrightarrow> g x m = h x m) \<Longrightarrow> fold g xs m = fold h xs m"
  by (induction xs arbitrary: m) auto

lemma map_of_hm_count:
  "map_of m k = (if k \<in> fst ` set m then Some (hm_count m k) else None)"
  by (cases "map_of m k")
    (auto simp: hm_count_def or_default_def map_of_eq_None_iff dest: map_of_SomeD intro: rev_image_eqI)

lemma hm_count_entry: "distinct (map fst m) \<Longrightarrow> e \<in> set m \<Longrightarrow> hm_count m (fst e) = snd e"
  by (cases e) (simp add: hm_count_def or_default_def)

subsection \<open>What the topology counts are\<close>

definition spread_domain ::
  "topology_spread_constraint \<Rightarrow> string \<Rightarrow> labels_by_name \<Rightarrow> tallied_pod_labels \<Rightarrow> string option" where
  "spread_domain c own by_name p =
     (if tallied_namespace p = own \<and> label_selector_matches (tallied_labels p) (spread_label_selector c)
      then domain_of by_name (spread_topology_key c) p else None)"

definition domains :: "labels_by_name \<Rightarrow> string \<Rightarrow> string set" where
  "domains by_name key = {v. \<exists>e \<in> set by_name. map_of (snd e) key = Some v}"

definition domain_load ::
  "topology_spread_constraint \<Rightarrow> string \<Rightarrow> labels_by_name \<Rightarrow> tallied_pod_labels list \<Rightarrow> string \<Rightarrow> int" where
  "domain_load c own by_name tallied v =
     int (length (filter (\<lambda>p. spread_domain c own by_name p = Some v) tallied))"

lemma finite_domains [simp]: "finite (domains by_name key)"
proof -
  have "domains by_name key \<subseteq> the ` (\<lambda>e. map_of (snd e) key) ` set by_name"
    by (force simp: domains_def)
  then show ?thesis by (rule finite_subset) simp
qed

lemma domain_of_domains:
  assumes "domain_of by_name key p = Some v"
  shows "v \<in> domains by_name key"
proof -
  obtain ls where "map_of by_name (tallied_node p) = Some ls" "map_of ls key = Some v"
    using assms by (auto simp: domain_of_def bind_eq_Some_conv)
  then show ?thesis unfolding domains_def
    by (auto dest: map_of_SomeD intro!: bexI [where x = "(tallied_node p, ls)"])
qed

lemma spread_domain_domains:
  "spread_domain c own by_name p = Some v \<Longrightarrow> v \<in> domains by_name (spread_topology_key c)"
  by (auto simp: spread_domain_def split: if_splits intro: domain_of_domains)

lemma topology_domain_counts_loop:
  "topology_domain_counts c own tallied by_name =
   tally_loop 1 (spread_domain c own by_name) tallied
     (tally_loop 0 (\<lambda>e. map_of (snd e) (spread_topology_key c)) by_name [])"
proof -
  have "fold (\<lambda>(_, labels) m. case map_of labels (spread_topology_key c) of
            Some v \<Rightarrow> hm_add v 0 m | None \<Rightarrow> m) by_name [] =
        tally_loop 0 (\<lambda>e. map_of (snd e) (spread_topology_key c)) by_name []"
    unfolding tally_loop_def by (rule fold_branches_cong) auto
  then show ?thesis
    unfolding topology_domain_counts_def
    by (simp only:) (auto simp: tally_loop_def spread_domain_def intro!: fold_branches_cong)
qed

lemma counts_load:
  "hm_count (topology_domain_counts c own tallied by_name) v = domain_load c own by_name tallied v"
  by (simp add: topology_domain_counts_loop tally_loop_count domain_load_def)

lemma counts_keys:
  "fst ` set (topology_domain_counts c own tallied by_name) = domains by_name (spread_topology_key c)"
  by (auto simp: topology_domain_counts_loop tally_loop_keys domains_def [symmetric]
      dest: spread_domain_domains)

lemma counts_distinct: "distinct (map fst (topology_domain_counts c own tallied by_name))"
  by (simp add: topology_domain_counts_loop)

text \<open>The load of the least loaded domain, or the given default when there is no domain.\<close>

definition least_load :: "int \<Rightarrow> string set \<Rightarrow> (string \<Rightarrow> int) \<Rightarrow> int" where
  "least_load d vs load = (if vs = {} then d else Min (load ` vs))"

lemma min_count_least:
  assumes "distinct (map fst m)"
  shows "min_count d (map (\<lambda>(w, n). f w n) m) = least_load d (fst ` set m) (\<lambda>w. f w (hm_count m w))"
proof (cases "m = []")
  case False
  have "(\<lambda>(w, n). f w n) ` set m = (\<lambda>w. f w (hm_count m w)) ` fst ` set m"
    unfolding image_image using assms by (intro image_cong) (auto simp: hm_count_entry case_prod_unfold)
  then show ?thesis using False by (simp add: min_count_def least_load_def min_list_Min)
qed (simp add: min_count_def least_load_def)

lemma min_count_snd:
  assumes "distinct (map fst m)"
  shows "min_count d (map snd m) = least_load d (fst ` set m) (hm_count m)"
proof -
  have "map snd m = map (\<lambda>(w, n). n) m" by (simp add: case_prod_unfold)
  then show ?thesis by (simp only: min_count_least [OF assms, of d "\<lambda>w n. n"])
qed

subsection \<open>Topology spread against its reference\<close>

definition hard_constraints :: "pending_pod \<Rightarrow> topology_spread_constraint list" where
  "hard_constraints pod =
     filter (\<lambda>c. when_unsatisfiable c = ''DoNotSchedule'' \<and> spread_topology_key c \<noteq> [])
       (topology_spread_constraints pod)"

text \<open>
  The reference: with the pod placed in the node's domain, that domain has at most
  \<^verbatim>\<open>maxSkew\<close> matching pods more than the least loaded domain.
\<close>

definition spread_ok ::
  "pending_pod \<Rightarrow> labels \<Rightarrow> labels_by_name \<Rightarrow> tallied_pod_labels list \<Rightarrow> topology_spread_constraint \<Rightarrow> bool" where
  "spread_ok pod labels by_name tallied c =
     (let load = domain_load c (pod_namespace pod) by_name tallied in
      case map_of labels (spread_topology_key c) of
        None \<Rightarrow> False
      | Some v \<Rightarrow>
          load v + (if label_selector_matches (pod_labels pod) (spread_label_selector c) then 1 else 0)
            - least_load 0 (domains by_name (spread_topology_key c)) load \<le> max_skew c)"

definition spread_term ::
  "pending_pod \<Rightarrow> tallied_pod_labels list \<Rightarrow> labels_by_name \<Rightarrow> topology_spread_constraint \<Rightarrow> topology_spread_term" where
  "spread_term pod tallied by_name c =
     (let counts = topology_domain_counts c (pod_namespace pod) tallied by_name
      in \<lparr>spread_constraint = c, spread_counts = counts, min_match_num = min_count 0 (map snd counts)\<rparr>)"

lemma topology_context_terms:
  "topology_context pod tallied by_name = map (spread_term pod tallied by_name) (hard_constraints pod)"
  by (simp add: topology_context_def hard_constraints_def spread_term_def)

lemma length_filter_split:
  "length (filter P xs) = length (filter P (filter Q xs)) + length (filter P (filter (\<lambda>x. \<not> Q x) xs))"
  by (induction xs) auto

lemma domain_load_split:
  assumes at: "\<forall>p \<in> set tallied. evicted p \<longrightarrow> map_of by_name (tallied_node p) = Some labels"
    and v: "map_of labels (spread_topology_key c) = Some v"
  shows "domain_load c own by_name tallied w =
    domain_load c own by_name (filter (\<lambda>p. \<not> evicted p) tallied) w +
    (if w = v then int (length (filter (\<lambda>p. tallied_namespace p = own \<and>
        label_selector_matches (tallied_labels p) (spread_label_selector c)) (filter evicted tallied))) else 0)"
proof -
  have "filter (\<lambda>p. spread_domain c own by_name p = Some w) (filter evicted tallied) =
      filter (\<lambda>p. w = v \<and> tallied_namespace p = own \<and>
        label_selector_matches (tallied_labels p) (spread_label_selector c)) (filter evicted tallied)"
    using at v by (intro filter_cong) (auto simp: spread_domain_def domain_of_def)
  then show ?thesis
    unfolding domain_load_def
    using length_filter_split [of "\<lambda>p. spread_domain c own by_name p = Some w" tallied evicted]
    by (cases "w = v") simp_all
qed

lemma least_load_cong:
  "(\<And>w. w \<in> vs \<Longrightarrow> f w = g w) \<Longrightarrow> least_load d vs f = least_load d vs g"
  by (simp add: least_load_def)

lemma spread_term_ok_iff:
  assumes at: "\<forall>p \<in> set tallied. evicted p \<longrightarrow> map_of by_name (tallied_node p) = Some labels"
  shows "spread_term_ok pod labels (filter evicted tallied) (spread_term pod tallied by_name c) =
    spread_ok pod labels by_name (filter (\<lambda>p. \<not> evicted p) tallied) c"
proof (cases "map_of labels (spread_topology_key c)")
  case (Some v)
  let ?own = "pod_namespace pod"
  let ?vs = "domains by_name (spread_topology_key c)"
  let ?load = "domain_load c ?own by_name (filter (\<lambda>p. \<not> evicted p) tallied)"
  define k where "k = int (length (filter (\<lambda>p. tallied_namespace p = ?own \<and>
    label_selector_matches (tallied_labels p) (spread_label_selector c)) (filter evicted tallied)))"
  have all: "domain_load c ?own by_name tallied w = ?load w + (if w = v then k else 0)" for w
    unfolding k_def by (rule domain_load_split [OF at Some])
  have min0: "min_count 0 (map snd (topology_domain_counts c ?own tallied by_name)) =
      least_load 0 ?vs (domain_load c ?own by_name tallied)"
    by (simp add: min_count_snd counts_distinct counts_keys) (rule least_load_cong, simp add: counts_load)
  have min1: "min_count d (map (\<lambda>(w, n). if w = v then n - k else n)
      (topology_domain_counts c ?own tallied by_name)) = least_load d ?vs ?load" for d
    unfolding min_count_least [OF counts_distinct] counts_keys
    by (rule least_load_cong) (simp add: counts_load all)
  have k0: "least_load 0 ?vs (domain_load c ?own by_name tallied) = least_load 0 ?vs ?load" if "k = 0"
    using that by (intro least_load_cong) (simp add: all)
  have k1: "?vs \<noteq> {}" if "k \<noteq> 0"
  proof -
    have "filter evicted tallied \<noteq> []" using that unfolding k_def by (auto simp: filter_empty_conv)
    then obtain p where "p \<in> set tallied" "evicted p" by (auto simp: filter_empty_conv)
    then have "(tallied_node p, labels) \<in> set by_name" using at by (auto dest: map_of_SomeD)
    then show ?thesis using Some by (force simp: domains_def)
  qed
  have kd: "least_load d ?vs ?load = Min (?load ` ?vs)" if "k \<noteq> 0" for d
    using k1 [OF that] by (simp add: least_load_def)
  show ?thesis
    unfolding spread_term_ok_def spread_ok_def spread_term_def Let_def
      topology_spread_term.select_convs Some option.case k_def [symmetric]
    by (cases "k = 0") (simp_all add: min0 min1 counts_load all k0 kd)
qed (simp add: spread_term_ok_def spread_ok_def spread_term_def Let_def)

lemma topology_qualifies_excluding_iff:
  assumes "\<forall>p \<in> set tallied. evicted p \<longrightarrow> map_of by_name (tallied_node p) = Some labels"
  shows "topology_qualifies_excluding_victims pod (topology_context pod tallied by_name) labels
      (filter evicted tallied) =
    list_all (spread_ok pod labels by_name (filter (\<lambda>p. \<not> evicted p) tallied)) (hard_constraints pod)"
  using assms
  by (simp add: topology_qualifies_excluding_victims_def topology_context_terms list_all_iff spread_term_ok_iff)

lemma topology_qualifies_iff:
  "topology_qualifies pod (topology_context pod tallied by_name) labels =
    list_all (spread_ok pod labels by_name tallied) (hard_constraints pod)"
  using topology_qualifies_excluding_iff [of tallied "\<lambda>_. False" by_name labels pod]
  by (simp add: topology_qualifies_def)

text \<open>C29: Judging a node with its own preemption victims discounted from the topology counts is the same
  as rebuilding the counts without the victims and judging the node against those, and both are the
  skew rule over the pods that remain: the node has the constraint's topology key, and the matching pods
  in its domain, the pending one included if it matches, exceed those of the least loaded domain by no
  more than the allowed skew, for every hard constraint. It holds whenever the victims are on the node
  being judged.
\<close>

theorem topology_discount_exact:
  assumes "\<forall>p \<in> set tallied. evicted p \<longrightarrow> map_of by_name (tallied_node p) = Some labels"
  shows "topology_qualifies_excluding_victims pod (topology_context pod tallied by_name) labels
      (filter evicted tallied) =
    topology_qualifies pod (topology_context pod (filter (\<lambda>p. \<not> evicted p) tallied) by_name) labels \<and>
    topology_qualifies_excluding_victims pod (topology_context pod tallied by_name) labels
      (filter evicted tallied) =
    list_all (spread_ok pod labels by_name (filter (\<lambda>p. \<not> evicted p) tallied)) (hard_constraints pod)"
  using assms by (simp add: topology_qualifies_excluding_iff topology_qualifies_iff)

definition sample_pod :: "string \<Rightarrow> pending_pod" where
  "sample_pod name =
     \<lparr>pod_namespace = ''d'', pod_name = name, node_selector = [], priority = 0, tolerations = [],
      node_affinity = None, pod_labels = [], pod_affinity_terms = [], pod_anti_affinity_terms = [],
      requests = requests_default, host_ports = [], pvc_names = [], pv_node_affinities = [],
      topology_spread_constraints = [], csi_volume_counts = [], read_write_once_pod_pvcs = [],
      unbound_csi_pvc_drivers = []\<rparr>"

definition spread_pod :: pending_pod where
  "spread_pod = (sample_pod ''p'')\<lparr>topology_spread_constraints :=
     [\<lparr>max_skew = 1, spread_topology_key = ''zone'', when_unsatisfiable = ''DoNotSchedule'',
       spread_label_selector = Some \<lparr>match_labels = [], selector_expressions = []\<rparr>\<rparr>]\<rparr>"

definition tallied_at :: "string \<Rightarrow> string \<Rightarrow> labels \<Rightarrow> tallied_pod_labels" where
  "tallied_at key node labels =
     \<lparr>tallied_key = key, tallied_node = node, tallied_namespace = ''d'', tallied_labels = labels\<rparr>"

definition two_zones :: labels_by_name where
  "two_zones = [(''a'', [(''zone'', ''x'')]), (''b'', [(''zone'', ''y'')])]"

theorem topology_discount_exact_witness:
  "topology_qualifies_excluding_victims spread_pod
     (topology_context spread_pod [tallied_at ''d/v'' ''a'' [], tallied_at ''d/w'' ''a'' []] two_zones)
     [(''zone'', ''x'')]
     (filter (\<lambda>p. tallied_node p = ''a'') [tallied_at ''d/v'' ''a'' [], tallied_at ''d/w'' ''a'' []]) \<and>
   \<not> topology_qualifies spread_pod
     (topology_context spread_pod [tallied_at ''d/v'' ''a'' [], tallied_at ''d/w'' ''a'' []] two_zones)
     [(''zone'', ''x'')]"
proof
  show "topology_qualifies_excluding_victims spread_pod
     (topology_context spread_pod [tallied_at ''d/v'' ''a'' [], tallied_at ''d/w'' ''a'' []] two_zones)
     [(''zone'', ''x'')]
     (filter (\<lambda>p. tallied_node p = ''a'') [tallied_at ''d/v'' ''a'' [], tallied_at ''d/w'' ''a'' []])"
    by (subst conjunct1 [OF topology_discount_exact]) (simp add: tallied_at_def two_zones_def, code_simp)
qed code_simp

subsection \<open>What the affinity counts are\<close>

text \<open>The topology pair a tallied pod contributes to a term's count.\<close>

definition term_pair ::
  "string \<Rightarrow> labels_by_name \<Rightarrow> pod_affinity_term \<Rightarrow> tallied_pod_labels \<Rightarrow> (string \<times> string) option" where
  "term_pair own by_name t p =
     (if term_topology_key t = [] \<or>
         \<not> pod_matches_affinity_term t own (tallied_namespace p) (tallied_labels p) then None
      else map_option (Pair (term_topology_key t)) (domain_of by_name (term_topology_key t) p))"

definition pair_load ::
  "pod_affinity_term list \<Rightarrow> string \<Rightarrow> labels_by_name \<Rightarrow> tallied_pod_labels list \<Rightarrow> string \<times> string \<Rightarrow> int" where
  "pair_load terms own by_name tallied k =
     (\<Sum>t \<leftarrow> terms. int (length (filter (\<lambda>p. term_pair own by_name t p = Some k) tallied)))"

lemma pairs_loop:
  "topology_pairs_matched_by_terms terms own tallied by_name =
   fold (\<lambda>t. tally_loop 1 (term_pair own by_name t) tallied) terms []"
  unfolding topology_pairs_matched_by_terms_def
proof (rule fold_branches_cong)
  fix t m
  show "(if term_topology_key t = [] then m
       else fold (\<lambda>p m.
              if \<not> pod_matches_affinity_term t own (tallied_namespace p) (tallied_labels p) then m
              else (case domain_of by_name (term_topology_key t) p of
                      Some v \<Rightarrow> hm_add (term_topology_key t, v) 1 m
                    | None \<Rightarrow> m)) tallied m) = tally_loop 1 (term_pair own by_name t) tallied m"
  proof (cases "term_topology_key t = []")
    case True
    have "tally_loop 1 (\<lambda>p. None) xs m = m" for xs :: "tallied_pod_labels list"
      by (induction xs) simp_all
    moreover have "term_pair own by_name t = (\<lambda>p. None)" using True by (simp add: fun_eq_iff term_pair_def)
    ultimately show ?thesis using True by simp
  next
    case False
    then show ?thesis unfolding tally_loop_def
      by (auto intro!: fold_branches_cong simp: term_pair_def split: option.split)
  qed
qed

lemma fold_tally_count:
  "hm_count (fold (\<lambda>t. tally_loop 1 (f t) xs) ts m) k =
   hm_count m k + (\<Sum>t \<leftarrow> ts. int (length (filter (\<lambda>x. f t x = Some k) xs)))"
  by (induction ts arbitrary: m) (simp_all add: tally_loop_count)

lemma fold_tally_keys:
  "fst ` set (fold (\<lambda>t. tally_loop n (f t) xs) ts m) = fst ` set m \<union> {k. \<exists>t \<in> set ts. \<exists>x \<in> set xs. f t x = Some k}"
  by (induction ts arbitrary: m) (auto simp: tally_loop_keys)

lemma pairs_count:
  "hm_count (topology_pairs_matched_by_terms terms own tallied by_name) k = pair_load terms own by_name tallied k"
  by (simp add: pairs_loop fold_tally_count pair_load_def)

lemma pairs_keys:
  "fst ` set (topology_pairs_matched_by_terms terms own tallied by_name) =
   {k. \<exists>t \<in> set terms. \<exists>p \<in> set tallied. term_pair own by_name t p = Some k}"
  by (simp add: pairs_loop fold_tally_keys)

lemma sum_list_nonneg_pos_iff:
  "(\<forall>x \<in> set xs. 0 \<le> f x) \<Longrightarrow> 0 < (\<Sum>x \<leftarrow> xs. f x :: int) \<longleftrightarrow> (\<exists>x \<in> set xs. 0 < f x)"
proof (induction xs)
  case (Cons x xs)
  moreover have "0 \<le> (\<Sum>x \<leftarrow> xs. f x)" using Cons.prems by (intro sum_list_nonneg) auto
  ultimately show ?case by force
qed simp

lemma pair_load_pos:
  "0 < pair_load terms own by_name tallied k \<longleftrightarrow>
   (\<exists>t \<in> set terms. \<exists>p \<in> set tallied. term_pair own by_name t p = Some k)"
  unfolding pair_load_def
  by (subst sum_list_nonneg_pos_iff) (auto simp: filter_empty_conv)

lemma anti_affinity_hm_count:
  "pod_anti_affinity_satisfied pod labels m \<longleftrightarrow>
   (\<forall>t \<in> set (pod_anti_affinity_terms pod). \<forall>v.
      map_of labels (term_topology_key t) = Some v \<longrightarrow> hm_count m (term_topology_key t, v) \<le> 0)"
  by (auto simp: pod_anti_affinity_satisfied_def list_all_iff hm_count_def or_default_def
      split: option.splits)

lemma term_pair_key: "term_pair own by_name t p = Some (k, v) \<Longrightarrow> k = term_topology_key t"
  by (auto simp: term_pair_def split: if_splits)

text \<open>
  The reference for a pod's own anti-affinity: no tallied pod that matches one of its terms is in
  the node's domain for that term.
\<close>

lemma anti_affinity_iff:
  "pod_anti_affinity_satisfied pod labels
     (topology_pairs_matched_by_terms (pod_anti_affinity_terms pod) own tallied by_name) \<longleftrightarrow>
   (\<forall>t \<in> set (pod_anti_affinity_terms pod). \<forall>p \<in> set tallied. \<forall>v.
      term_pair own by_name t p = Some (term_topology_key t, v) \<longrightarrow> map_of labels (term_topology_key t) \<noteq> Some v)"
  (is "?L \<longleftrightarrow> ?R")
proof
  assume ?L
  then have le: "pair_load (pod_anti_affinity_terms pod) own by_name tallied (term_topology_key t, v) \<le> 0"
    if "t \<in> set (pod_anti_affinity_terms pod)" "map_of labels (term_topology_key t) = Some v" for t v
    using that by (simp add: anti_affinity_hm_count pairs_count)
  show ?R
  proof (intro ballI allI impI notI)
    fix t p v
    assume tp: "t \<in> set (pod_anti_affinity_terms pod)" "p \<in> set tallied"
      "term_pair own by_name t p = Some (term_topology_key t, v)"
      and v: "map_of labels (term_topology_key t) = Some v"
    have "0 < pair_load (pod_anti_affinity_terms pod) own by_name tallied (term_topology_key t, v)"
      using tp by (subst pair_load_pos) blast
    with le [OF tp(1) v] show False by simp
  qed
next
  assume r: ?R
  have "pair_load (pod_anti_affinity_terms pod) own by_name tallied (term_topology_key t, v) \<le> 0"
    if "map_of labels (term_topology_key t) = Some v" for t v
  proof (rule ccontr)
    assume "\<not> ?thesis"
    then obtain t' p where "t' \<in> set (pod_anti_affinity_terms pod)" "p \<in> set tallied"
        "term_pair own by_name t' p = Some (term_topology_key t, v)"
      using pair_load_pos [of "pod_anti_affinity_terms pod" own by_name tallied "(term_topology_key t, v)"] by auto
    moreover from this(3) have "term_topology_key t = term_topology_key t'" by (rule term_pair_key)
    ultimately show False using r that by auto
  qed
  then show ?L unfolding anti_affinity_hm_count pairs_count by blast
qed

subsection \<open>Discounting victims from the affinity counts\<close>

definition term_discount ::
  "string \<Rightarrow> labels \<Rightarrow> tallied_pod_labels list \<Rightarrow> string \<times> string \<Rightarrow> pod_affinity_term \<Rightarrow> int" where
  "term_discount own labels victims k t =
     (if term_topology_key t = fst k \<and> map_of labels (fst k) = Some (snd k)
      then int (length (filter (\<lambda>p. pod_matches_affinity_term t own (tallied_namespace p) (tallied_labels p)) victims))
      else 0)"

lemma discount_count:
  "hm_count (discount_matched_pairs terms own m labels victims) k =
   (if k \<in> fst ` set m then hm_count m k - (\<Sum>t \<leftarrow> terms. term_discount own labels victims k t) else 0) \<and>
   fst ` set (discount_matched_pairs terms own m labels victims) = fst ` set m"
proof (induction terms arbitrary: m)
  case Nil
  then show ?case
    by (simp add: discount_matched_pairs_def hm_count_def or_default_def map_of_eq_None_iff [THEN iffD2])
next
  case (Cons t terms)
  define n where "n = int (length (filter (\<lambda>p.
    pod_matches_affinity_term t own (tallied_namespace p) (tallied_labels p)) victims))"
  define m' where "m' = discount_matched_pairs [t] own m labels victims"
  have m': "m' = (case map_of labels (term_topology_key t) of
       None \<Rightarrow> m
     | Some v \<Rightarrow> if 0 < n then (case map_of m (term_topology_key t, v) of
           Some j \<Rightarrow> AList.update (term_topology_key t, v) (j - n) m | None \<Rightarrow> m) else m)"
    unfolding m'_def discount_matched_pairs_def n_def Let_def by simp
  have split: "discount_matched_pairs (t # terms) own m labels victims =
      discount_matched_pairs terms own m' labels victims"
    by (simp add: m'_def discount_matched_pairs_def)
  have keys: "fst ` set m' = fst ` set m"
  proof (cases "map_of labels (term_topology_key t)")
    case (Some v)
    then show ?thesis
      using map_of_eq_None_iff [of m "(term_topology_key t, v)"]
      by (auto simp: m' update_keys simp flip: set_map split: option.split)
  qed (simp add: m')
  have "hm_count m' k = hm_count m k - term_discount own labels victims k t" if key: "k \<in> fst ` set m"
  proof -
    obtain a b where k: "k = (a, b)" by (cases k)
    obtain j where j: "map_of m (a, b) = Some j"
      using key k by (cases "map_of m (a, b)") (auto simp: map_of_eq_None_iff)
    have "0 \<le> n" by (simp add: n_def)
    with j show ?thesis
      unfolding m' term_discount_def n_def [symmetric] k fst_conv snd_conv
      by (cases "map_of labels (term_topology_key t)")
        (auto simp: hm_count_def or_default_def update_conv split: option.split)
  qed
  then show ?case using Cons [of m'] by (simp add: split keys)
qed

lemma pair_load_split:
  assumes at: "\<forall>p \<in> set tallied. evicted p \<longrightarrow> map_of by_name (tallied_node p) = Some labels"
    and v: "map_of labels key = Some v" and key: "key \<noteq> []"
  shows "pair_load terms own by_name tallied (key, v) =
    pair_load terms own by_name (filter (\<lambda>p. \<not> evicted p) tallied) (key, v) +
    (\<Sum>t \<leftarrow> terms. term_discount own labels (filter evicted tallied) (key, v) t)"
proof -
  have "filter (\<lambda>p. term_pair own by_name t p = Some (key, v)) (filter evicted tallied) =
      filter (\<lambda>p. term_topology_key t = key \<and>
        pod_matches_affinity_term t own (tallied_namespace p) (tallied_labels p)) (filter evicted tallied)" for t
    using at v key by (intro filter_cong) (auto simp: term_pair_def domain_of_def)
  then have "int (length (filter (\<lambda>p. term_pair own by_name t p = Some (key, v)) tallied)) =
      int (length (filter (\<lambda>p. term_pair own by_name t p = Some (key, v)) (filter (\<lambda>p. \<not> evicted p) tallied))) +
      term_discount own labels (filter evicted tallied) (key, v) t" for t
    using length_filter_split [of "\<lambda>p. term_pair own by_name t p = Some (key, v)" tallied evicted] v
    by (cases "term_topology_key t = key") (simp_all add: term_discount_def del: filter_filter)
  then show ?thesis unfolding pair_load_def by (simp add: sum_list_addf del: filter_filter)
qed

lemma pair_load_absent:
  "k \<notin> fst ` set (topology_pairs_matched_by_terms terms own tallied by_name) \<Longrightarrow>
   pair_load terms own by_name (filter P tallied) k = 0"
  using pair_load_pos [of terms own by_name "filter P tallied" k]
  by (auto simp: pairs_keys pair_load_def intro!: antisym sum_list_nonneg)

lemma pair_key_nonempty:
  "(key, v) \<in> fst ` set (topology_pairs_matched_by_terms terms own tallied by_name) \<Longrightarrow> key \<noteq> []"
  by (auto simp: pairs_keys term_pair_def split: if_splits)

text \<open>Discounting victims from the anti-affinity counts is rebuilding the counts without them.\<close>

lemma anti_affinity_discount_exact:
  assumes at: "\<forall>p \<in> set tallied. evicted p \<longrightarrow> map_of by_name (tallied_node p) = Some labels"
  shows "pod_anti_affinity_satisfied pod labels
      (discount_matched_pairs terms own (topology_pairs_matched_by_terms terms own tallied by_name) labels
        (filter evicted tallied)) =
    pod_anti_affinity_satisfied pod labels
      (topology_pairs_matched_by_terms terms own (filter (\<lambda>p. \<not> evicted p) tallied) by_name)"
proof -
  have "hm_count (discount_matched_pairs terms own (topology_pairs_matched_by_terms terms own tallied by_name)
        labels (filter evicted tallied)) (key, v) =
      hm_count (topology_pairs_matched_by_terms terms own (filter (\<lambda>p. \<not> evicted p) tallied) by_name) (key, v)"
    if v: "map_of labels key = Some v" for key v
  proof (cases "(key, v) \<in> fst ` set (topology_pairs_matched_by_terms terms own tallied by_name)")
    case True
    then show ?thesis
      using pair_load_split [OF at v pair_key_nonempty [OF True], of terms own]
      by (simp add: discount_count pairs_count del: filter_filter)
  qed (simp add: discount_count pairs_count pair_load_absent)
  then show ?thesis by (simp add: anti_affinity_hm_count)
qed

subsection \<open>Two ways required affinity differs from its description\<close>

definition app_term :: "string \<Rightarrow> pod_affinity_term" where
  "app_term app =
     \<lparr>term_label_selector = Some \<lparr>match_labels = [(''app'', app)], selector_expressions = []\<rparr>,
      term_namespaces = [], term_topology_key = ''zone''\<rparr>"

text \<open>
  The counts behind required pod affinity are keyed by topology pair and not by term, so one term's
  match stands in for another's. A pod that requires a neighbour labelled \<^verbatim>\<open>app=a\<close> and a
  neighbour labelled \<^verbatim>\<open>app=b\<close> in its zone is admitted to a zone with only the first, where
  no pod anywhere matches the second term.
\<close>

theorem affinity_terms_conflated:
  "let pod = (sample_pod ''p'')\<lparr>pod_affinity_terms := [app_term ''a'', app_term ''b'']\<rparr>;
       tallied = [tallied_at ''d/q'' ''a'' [(''app'', ''a'')]]
   in affinity_qualifies (affinity_context pod tallied two_zones) [(''zone'', ''x'')] \<and>
      \<not> list_ex (\<lambda>p. pod_matches_affinity_term (app_term ''b'') ''d'' (tallied_namespace p) (tallied_labels p))
          tallied"
  by code_simp

text \<open>
  Discounting a node's victims is not rebuilding the affinity counts without them: a discounted pair
  stays in the map with count zero, so the rescue for a workload that only matches itself does not
  apply. The first replica of such a workload is rejected on the node its only match is evicted from.
\<close>

theorem affinity_rescue_lost:
  "let pod = (sample_pod ''p'')\<lparr>pod_affinity_terms := [app_term ''a''], pod_labels := [(''app'', ''a'')]\<rparr>;
       tallied = [tallied_at ''d/q'' ''a'' [(''app'', ''a'')]]
   in \<not> affinity_qualifies_excluding_victims (affinity_context pod tallied two_zones) [(''zone'', ''x'')] tallied \<and>
      affinity_qualifies (affinity_context pod [] two_zones) [(''zone'', ''x'')]"
  by code_simp

end
