(* ===== verification/Sched_Tally.thy ===== *)
theory Sched_Tally
  imports Sched_Match "HOL-Library.Multiset"
begin

text \<open>
  \<^verbatim>\<open>NodeTally\<close> of \<^verbatim>\<open>crates/scheduler/src/lib.rs\<close>: the scheduler's running account of
  the pods on each node, with the index from nodes to pods, the claimed preemption victims, the
  deferred preemption plans, the pods waiting for a claim, the failure backoff and the caches of
  nodes and volumes, and every operation on them. A \<^verbatim>\<open>HashMap\<close> is an association list and a
  \<^verbatim>\<open>HashSet\<close> that is iterated is a list without duplicates, both in an arbitrary order.
  \<^verbatim>\<open>std::time::Instant\<close> is a number of nanoseconds.
\<close>

subsection \<open>Deferred preemption plans\<close>

record waiting_plan =
  plan_pod :: pending_pod
  plan_node :: string
  remaining_victims :: "string set"

definition waiters_register :: "pending_pod \<Rightarrow> string \<Rightarrow> string list \<Rightarrow> waiting_plan list \<Rightarrow> waiting_plan list" where
  "waiters_register pod node victims plans =
     plans @ [\<lparr>plan_pod = pod, plan_node = node, remaining_victims = set victims\<rparr>]"

partial_function (option) resolve_loop ::
  "waiting_plan list \<Rightarrow> nat \<Rightarrow> (pending_pod \<times> string) list \<Rightarrow>
   (waiting_plan list \<times> (pending_pod \<times> string) list) option" where
  [code]: "resolve_loop plans i ready =
     (if i < length plans then
        if remaining_victims (plans ! i) = {}
        then resolve_loop (vec_remove i plans) i (ready @ [(plan_pod (plans ! i), plan_node (plans ! i))])
        else resolve_loop plans (Suc i) ready
      else Some (plans, ready))"

definition waiters_resolve ::
  "string \<Rightarrow> waiting_plan list \<Rightarrow> waiting_plan list \<times> (pending_pod \<times> string) list" where
  "waiters_resolve victim plans =
     (let plans' = map (\<lambda>p. p\<lparr>remaining_victims := remaining_victims p - {victim}\<rparr>) plans
      in case resolve_loop plans' 0 [] of Some r \<Rightarrow> r | None \<Rightarrow> (plans', []))"

definition waiters_clear :: "waiting_plan list \<Rightarrow> waiting_plan list \<times> string list" where
  "waiters_clear plans = ([], map (\<lambda>p. pod_key (plan_pod p)) plans)"

subsection \<open>Pods waiting for a claim\<close>

type_synonym pvc_waiters = "(string \<times> string list) list"

definition pvc_waiters_register :: "string \<Rightarrow> string \<Rightarrow> pvc_waiters \<Rightarrow> pvc_waiters" where
  "pvc_waiters_register pvc pod m = AList.update pvc (List.insert pod (or_default [] (map_of m pvc))) m"

definition pvc_waiters_resolve :: "string \<Rightarrow> pvc_waiters \<Rightarrow> pvc_waiters \<times> string list" where
  "pvc_waiters_resolve pvc m = (AList.delete pvc m, or_default [] (map_of m pvc))"

definition pvc_waiters_forget :: "string \<Rightarrow> pvc_waiters \<Rightarrow> pvc_waiters" where
  "pvc_waiters_forget pvc m = AList.delete pvc m"

definition pvc_waiters_remove_pod :: "string \<Rightarrow> pvc_waiters \<Rightarrow> pvc_waiters" where
  "pvc_waiters_remove_pod pod m =
     filter (\<lambda>(_, pods). pods \<noteq> []) (map (\<lambda>(pvc, pods). (pvc, removeAll pod pods)) m)"

subsection \<open>Failure backoff\<close>

record failure_state =
  fs_uid :: string
  fs_failures :: nat
  fs_last_attempt :: nat
  fs_last_event_message :: string
  fs_last_event_at :: nat

type_synonym failure_backoff = "(string \<times> failure_state) list"

definition nanos_per_sec :: nat where
  "nanos_per_sec = 1000000000"

definition pod_initial_backoff :: nat where
  "pod_initial_backoff = nanos_per_sec"

definition pod_max_backoff :: nat where
  "pod_max_backoff = 10 * nanos_per_sec"

definition failed_event_repeat_window :: nat where
  "failed_event_repeat_window = 60 * nanos_per_sec"

definition record_failure ::
  "string \<Rightarrow> string \<Rightarrow> string \<Rightarrow> nat \<Rightarrow> failure_backoff \<Rightarrow> failure_backoff \<times> bool" where
  "record_failure key uid message now m =
     (case map_of m key of
        Some s \<Rightarrow>
          if fs_uid s = uid then
            (let emit = (fs_last_event_message s \<noteq> message \<or>
                         failed_event_repeat_window \<le> now - fs_last_event_at s);
                 s' = s\<lparr>fs_failures := min (fs_failures s + 1) (2 ^ 32 - 1), fs_last_attempt := now\<rparr>
             in (AList.update key
                   (if emit then s'\<lparr>fs_last_event_message := message, fs_last_event_at := now\<rparr> else s') m, emit))
          else (AList.update key \<lparr>fs_uid = uid, fs_failures = 1, fs_last_attempt = now,
                  fs_last_event_message = message, fs_last_event_at = now\<rparr> m, True)
      | None \<Rightarrow> (AList.update key \<lparr>fs_uid = uid, fs_failures = 1, fs_last_attempt = now,
                  fs_last_event_message = message, fs_last_event_at = now\<rparr> m, True))"

definition backoff_delay :: "nat \<Rightarrow> nat" where
  "backoff_delay failures = min (pod_initial_backoff * 2 ^ min (failures - 1) 8) pod_max_backoff"

definition backed_off :: "nat \<Rightarrow> failure_backoff \<Rightarrow> (string \<times> nat) list" where
  "backed_off now m =
     List.map_filter (\<lambda>(k, s).
       let expiry = fs_last_attempt s + backoff_delay (fs_failures s)
       in if now < expiry then Some (k, expiry - now) else None) m"

definition backoff_clear :: "string \<Rightarrow> failure_backoff \<Rightarrow> failure_backoff" where
  "backoff_clear key m = AList.delete key m"

definition retain_pending :: "(string \<times> string) set \<Rightarrow> failure_backoff \<Rightarrow> failure_backoff" where
  "retain_pending pending m = filter (\<lambda>(k, s). (k, fs_uid s) \<in> pending) m"

subsection \<open>The tally\<close>

record tallied_pod =
  tp_node_name :: string
  tp_namespace :: string
  tp_labels :: labels
  tp_priority :: int
  tp_bare_pvc_names :: "string list"
  tp_requests :: resource_requests
  tp_host_ports :: "host_port_claim list"
  tp_pvc_names :: "string list"

record pvc_volume_info =
  pvi_volume_name :: string
  pvi_storage_class_name :: "string option"

record node_tally =
  tally_pods :: "(string \<times> tallied_pod) list"
  by_node :: "(string \<times> string list) list"
  reserved_victims :: "string set"
  waiters :: "waiting_plan list"
  tally_pvcs :: "(string \<times> pvc_volume_info) list"
  pvc_waiters :: pvc_waiters
  pv_csi_drivers :: "(string \<times> string) list"
  sc_provisioners :: "(string \<times> string) list"
  csi_node_limits :: "(string \<times> (string, i64) btree) list"
  csi_node_drivers :: "(string \<times> string set) list"
  csi_prevent_scheduling :: "string set"
  tally_nodes :: "(string, node_item) btree"
  tally_failures :: failure_backoff

definition empty_tally :: node_tally where
  "empty_tally =
     \<lparr>tally_pods = [], by_node = [], reserved_victims = {}, waiters = [], tally_pvcs = [],
      pvc_waiters = [], pv_csi_drivers = [], sc_provisioners = [], csi_node_limits = [],
      csi_node_drivers = [], csi_prevent_scheduling = {}, tally_nodes = [], tally_failures = []\<rparr>"

definition index_drop :: "string \<Rightarrow> string \<Rightarrow> (string \<times> string list) list \<Rightarrow> (string \<times> string list) list" where
  "index_drop node key idx =
     (case map_of idx node of Some keys \<Rightarrow> AList.update node (removeAll key keys) idx | None \<Rightarrow> idx)"

definition index_prune :: "string \<Rightarrow> (string \<times> string list) list \<Rightarrow> (string \<times> string list) list" where
  "index_prune node idx = (if map_of idx node = Some [] then AList.delete node idx else idx)"

definition insert_pod :: "string \<Rightarrow> tallied_pod \<Rightarrow> node_tally \<Rightarrow> node_tally" where
  "insert_pod key pod t =
     (let node = tp_node_name pod;
          idx = (case map_of (tally_pods t) key of
                   Some old \<Rightarrow> if tp_node_name old \<noteq> node then index_drop (tp_node_name old) key (by_node t)
                              else by_node t
                 | None \<Rightarrow> by_node t)
      in t\<lparr>tally_pods := AList.update key pod (tally_pods t),
           by_node := AList.update node (List.insert key (or_default [] (map_of idx node))) idx\<rparr>)"

definition remove_pod :: "string \<Rightarrow> node_tally \<Rightarrow> node_tally" where
  "remove_pod key t =
     (case map_of (tally_pods t) key of
        None \<Rightarrow> t
      | Some removed \<Rightarrow>
          t\<lparr>tally_pods := AList.delete key (tally_pods t),
            by_node := index_prune (tp_node_name removed) (index_drop (tp_node_name removed) key (by_node t))\<rparr>)"

record pod_list_item =
  item_metadata :: pod_metadata
  item_spec :: pod_spec
  item_phase :: string

definition is_upsert :: "string \<Rightarrow> bool" where
  "is_upsert ty = (ty = ''ADDED'' \<or> ty = ''MODIFIED'')"

definition tallied_of :: "string \<Rightarrow> string \<Rightarrow> pod_list_item \<Rightarrow> string \<Rightarrow> tallied_pod" where
  "tallied_of namespace name item node =
     (let bare = referenced_pvc_names name (or_default [] (spec_volumes (item_spec item)))
      in \<lparr>tp_node_name = node, tp_namespace = namespace, tp_labels = meta_labels (item_metadata item),
          tp_priority = or_default 0 (spec_priority (item_spec item)), tp_bare_pvc_names = bare,
          tp_requests = pod_total_requests (item_spec item),
          tp_host_ports = container_host_ports (spec_containers (item_spec item)),
          tp_pvc_names = map (pvc_key namespace) bare\<rparr>)"

definition apply_event ::
  "(json \<Rightarrow> pod_list_item watch_event option) \<Rightarrow> json \<Rightarrow> node_tally \<Rightarrow> node_tally \<times> (pending_pod \<times> string) list" where
  "apply_event de event t =
     (case de event of
        None \<Rightarrow> (t, [])
      | Some e \<Rightarrow>
          (let item = event_object e;
               name = or_default [] (meta_name (item_metadata item));
               namespace = or_default ''default'' (meta_namespace (item_metadata item));
               key = namespace @ ''/'' @ name;
               terminal = (item_phase item = ''Succeeded'' \<or> item_phase item = ''Failed'')
           in if name = [] then (t, [])
              else if \<not> is_upsert (event_type e) then
                (let t1 = remove_pod key t; (ws, ready) = waiters_resolve key (waiters t1)
                 in (t1\<lparr>tally_failures := backoff_clear key (tally_failures t1),
                       pvc_waiters := pvc_waiters_remove_pod key (pvc_waiters t1), waiters := ws\<rparr>, ready))
              else if \<not> is_set_str (spec_node_name (item_spec item)) then (t, [])
              else if \<not> terminal then
                (insert_pod key (tallied_of namespace name item (or_default [] (spec_node_name (item_spec item))))
                   (t\<lparr>pvc_waiters := pvc_waiters_remove_pod key (pvc_waiters t),
                      tally_failures := backoff_clear key (tally_failures t)\<rparr>), [])
              else
                (let t1 = remove_pod key t; (ws, ready) = waiters_resolve key (waiters t1)
                 in (t1\<lparr>pvc_waiters := pvc_waiters_remove_pod key (pvc_waiters t1), waiters := ws\<rparr>, ready))))"

definition assumed_pod :: "pending_pod \<Rightarrow> string \<Rightarrow> tallied_pod" where
  "assumed_pod pod node =
     \<lparr>tp_node_name = node, tp_namespace = pod_namespace pod, tp_labels = pod_labels pod,
      tp_priority = priority pod, tp_bare_pvc_names = pvc_names pod, tp_requests = requests pod,
      tp_host_ports = host_ports pod, tp_pvc_names = map (pvc_key (pod_namespace pod)) (pvc_names pod)\<rparr>"

definition tally_assume :: "pending_pod \<Rightarrow> string \<Rightarrow> node_tally \<Rightarrow> node_tally" where
  "tally_assume pod node t = insert_pod (pod_key pod) (assumed_pod pod node) t"

definition tally_remove :: "string \<Rightarrow> string \<Rightarrow> node_tally \<Rightarrow> node_tally" where
  "tally_remove namespace name t = remove_pod (namespace @ ''/'' @ name) t"

definition tally_clear :: "node_tally \<Rightarrow> node_tally \<times> string list" where
  "tally_clear t =
     (let (ws, abandoned) = waiters_clear (waiters t)
      in (t\<lparr>tally_pods := [], by_node := [], reserved_victims := {}, pvc_waiters := [], waiters := ws\<rparr>, abandoned))"

definition replace_pods :: "node_tally \<Rightarrow> (string \<times> string) set \<Rightarrow> node_tally \<Rightarrow> node_tally \<times> string list" where
  "replace_pods fresh unscheduled t =
     (let (t1, abandoned) = tally_clear t
      in (t1\<lparr>tally_failures := retain_pending unscheduled (tally_failures t1),
            tally_pods := tally_pods fresh, by_node := by_node fresh\<rparr>, abandoned))"

definition register_preemption_waiter :: "pending_pod \<Rightarrow> string \<Rightarrow> string list \<Rightarrow> node_tally \<Rightarrow> node_tally" where
  "register_preemption_waiter pod node victims t = t\<lparr>waiters := waiters_register pod node victims (waiters t)\<rparr>"

definition claim_victims :: "string list \<Rightarrow> node_tally \<Rightarrow> node_tally" where
  "claim_victims victims t = t\<lparr>reserved_victims := reserved_victims t \<union> set victims\<rparr>"

definition release_victims :: "string list \<Rightarrow> node_tally \<Rightarrow> node_tally" where
  "release_victims victims t = t\<lparr>reserved_victims := reserved_victims t - set victims\<rparr>"

subsection \<open>Volume drivers\<close>

definition tally_resolve_csi_driver :: "node_tally \<Rightarrow> string \<Rightarrow> string \<Rightarrow> string option" where
  "tally_resolve_csi_driver t namespace pvc_name =
     (case map_of (tally_pvcs t) (pvc_key namespace pvc_name) of
        None \<Rightarrow> None
      | Some pvc \<Rightarrow>
          (case (if pvi_volume_name pvc \<noteq> [] then map_of (pv_csi_drivers t) (pvi_volume_name pvc) else None) of
             Some driver \<Rightarrow> Some driver
           | None \<Rightarrow> Option.bind (pvi_storage_class_name pvc) (map_of (sc_provisioners t))))"

definition count_csi_volumes :: "node_tally \<Rightarrow> string \<Rightarrow> string list \<Rightarrow> (string, i64) btree" where
  "count_csi_volumes t namespace claims =
     fst (fold (\<lambda>pvc (counts, seen).
            if pvc \<in> seen then (counts, seen)
            else (case tally_resolve_csi_driver t namespace pvc of
                    Some driver \<Rightarrow> entry_add driver 1 counts
                  | None \<Rightarrow> counts, insert pvc seen)) claims ([], {}))"

definition csi_attached_counts :: "node_tally \<Rightarrow> string \<Rightarrow> (string, i64) btree" where
  "csi_attached_counts t node =
     fold (\<lambda>pod. fold (\<lambda>(driver, n). entry_add driver n)
             (count_csi_volumes t (tp_namespace pod) (tp_bare_pvc_names pod)))
       (List.map_filter (map_of (tally_pods t)) (or_default [] (map_of (by_node t) node))) []"

subsection \<open>Usage\<close>

record node_usage =
  usage_pod_count :: nat
  usage_requests :: resource_requests
  usage_host_ports :: "host_port_claim list"
  usage_pvc_names :: "string list"
  usage_csi_attached_counts :: "(string, i64) btree"

definition usage_default :: node_usage where
  "usage_default =
     \<lparr>usage_pod_count = 0, usage_requests = requests_default, usage_host_ports = [],
      usage_pvc_names = [], usage_csi_attached_counts = []\<rparr>"

definition usage_add :: "node_tally \<Rightarrow> tallied_pod \<Rightarrow> node_usage \<Rightarrow> node_usage" where
  "usage_add t pod u =
     \<lparr>usage_pod_count = usage_pod_count u + 1,
      usage_requests = requests_add (usage_requests u) (tp_requests pod),
      usage_host_ports = usage_host_ports u @ tp_host_ports pod,
      usage_pvc_names = usage_pvc_names u @ tp_pvc_names pod,
      usage_csi_attached_counts =
        fold (\<lambda>(driver, n). entry_add driver n)
          (count_csi_volumes t (tp_namespace pod) (tp_bare_pvc_names pod)) (usage_csi_attached_counts u)\<rparr>"

definition usage_by_node :: "node_tally \<Rightarrow> (string \<times> node_usage) list" where
  "usage_by_node t =
     fold (\<lambda>(_, pod) m.
        AList.update (tp_node_name pod)
          (usage_add t pod (or_default usage_default (map_of m (tp_node_name pod)))) m)
       (tally_pods t) []"

record node_pod =
  np_key :: string
  np_priority :: int
  np_requests :: resource_requests
  np_pvc_names :: "string list"

definition pods_on :: "node_tally \<Rightarrow> string \<Rightarrow> node_pod list" where
  "pods_on t node =
     (case map_of (by_node t) node of
        None \<Rightarrow> []
      | Some keys \<Rightarrow>
          List.map_filter
            (\<lambda>key. map_option
               (\<lambda>p. \<lparr>np_key = key, np_priority = tp_priority p, np_requests = tp_requests p,
                     np_pvc_names = tp_pvc_names p\<rparr>) (map_of (tally_pods t) key))
            (filter (\<lambda>key. key \<notin> reserved_victims t) keys))"

definition tally_pod_labels :: "node_tally \<Rightarrow> tallied_pod_labels list" where
  "tally_pod_labels t =
     map (\<lambda>(key, p). \<lparr>tallied_key = key, tallied_node = tp_node_name p,
                      tallied_namespace = tp_namespace p, tallied_labels = tp_labels p\<rparr>) (tally_pods t)"

definition fresh_csi_headroom_for_node :: "node_tally \<Rightarrow> string \<Rightarrow> (string, i64) btree" where
  "fresh_csi_headroom_for_node t node =
     (case map_of (csi_node_limits t) node of
        None \<Rightarrow> []
      | Some limits \<Rightarrow> net_csi_headroom limits (csi_attached_counts t node))"

definition fresh_csi_registered_drivers_for_node :: "node_tally \<Rightarrow> string \<Rightarrow> string set" where
  "fresh_csi_registered_drivers_for_node t node = or_default {} (map_of (csi_node_drivers t) node)"

subsection \<open>Caches\<close>

record pvc_object =
  pvc_object_name :: "string option"
  pvc_object_namespace :: "string option"
  pvc_object_volume_name :: string
  pvc_object_storage_class :: "string option"

definition apply_pvc_event ::
  "(json \<Rightarrow> pvc_object watch_event option) \<Rightarrow> json \<Rightarrow> node_tally \<Rightarrow> node_tally \<times> string list" where
  "apply_pvc_event de event t =
     (case de event of
        None \<Rightarrow> (t, [])
      | Some e \<Rightarrow>
          (let o' = event_object e; name = or_default [] (pvc_object_name o');
               key = pvc_key (or_default ''default'' (pvc_object_namespace o')) name
           in if name = [] then (t, [])
              else if \<not> is_upsert (event_type e)
              then (t\<lparr>tally_pvcs := AList.delete key (tally_pvcs t),
                      pvc_waiters := pvc_waiters_forget key (pvc_waiters t)\<rparr>, [])
              else
                (let (ws, woken) = pvc_waiters_resolve key (pvc_waiters t)
                 in (t\<lparr>tally_pvcs := AList.update key
                         \<lparr>pvi_volume_name = pvc_object_volume_name o',
                          pvi_storage_class_name = pvc_object_storage_class o'\<rparr> (tally_pvcs t),
                       pvc_waiters := ws\<rparr>, woken))))"

definition register_pvc_waiter :: "string \<Rightarrow> string \<Rightarrow> string \<Rightarrow> node_tally \<Rightarrow> node_tally" where
  "register_pvc_waiter namespace pvc pod t =
     t\<lparr>pvc_waiters := pvc_waiters_register (pvc_key namespace pvc) pod (pvc_waiters t)\<rparr>"

text \<open>
  The projections of the cluster-scoped objects: a volume or a storage class has an optional name
  and its CSI driver or provisioner, a CSI driver or a CSI node its name and what it advertises.
\<close>

record 'a cluster_object =
  cluster_name :: "string option"
  cluster_value :: 'a

record 'a named_object =
  object_name :: string
  object_value :: 'a

definition apply_pv_event ::
  "(json \<Rightarrow> string option cluster_object watch_event option) \<Rightarrow> json \<Rightarrow> node_tally \<Rightarrow> node_tally" where
  "apply_pv_event de event t =
     (case de event of
        None \<Rightarrow> t
      | Some e \<Rightarrow>
          (let name = or_default [] (cluster_name (event_object e)) in
           if name = [] then t
           else if \<not> is_upsert (event_type e) \<or> \<not> is_set_str (cluster_value (event_object e))
           then t\<lparr>pv_csi_drivers := AList.delete name (pv_csi_drivers t)\<rparr>
           else t\<lparr>pv_csi_drivers :=
                    AList.update name (or_default [] (cluster_value (event_object e))) (pv_csi_drivers t)\<rparr>))"

definition apply_storage_class_event ::
  "(json \<Rightarrow> string cluster_object watch_event option) \<Rightarrow> json \<Rightarrow> node_tally \<Rightarrow> node_tally" where
  "apply_storage_class_event de event t =
     (case de event of
        None \<Rightarrow> t
      | Some e \<Rightarrow>
          (let name = or_default [] (cluster_name (event_object e)) in
           if name = [] then t
           else if \<not> is_upsert (event_type e) \<or> cluster_value (event_object e) = []
           then t\<lparr>sc_provisioners := AList.delete name (sc_provisioners t)\<rparr>
           else t\<lparr>sc_provisioners := AList.update name (cluster_value (event_object e)) (sc_provisioners t)\<rparr>))"

definition apply_csi_driver_event ::
  "(json \<Rightarrow> bool option named_object watch_event option) \<Rightarrow> json \<Rightarrow> node_tally \<Rightarrow> node_tally" where
  "apply_csi_driver_event de event t =
     (case de event of
        None \<Rightarrow> t
      | Some e \<Rightarrow>
          (let name = object_name (event_object e) in
           if name = [] then t
           else if is_upsert (event_type e) \<and> object_value (event_object e) = Some True
           then t\<lparr>csi_prevent_scheduling := insert name (csi_prevent_scheduling t)\<rparr>
           else t\<lparr>csi_prevent_scheduling := csi_prevent_scheduling t - {name}\<rparr>))"

definition apply_csi_node_event ::
  "(json \<Rightarrow> (string \<times> i64 option) list named_object watch_event option) \<Rightarrow> json \<Rightarrow> node_tally \<Rightarrow> node_tally" where
  "apply_csi_node_event de event t =
     (case de event of
        None \<Rightarrow> t
      | Some e \<Rightarrow>
          (let name = object_name (event_object e); drivers = object_value (event_object e) in
           if name = [] then t
           else if \<not> is_upsert (event_type e)
           then t\<lparr>csi_node_limits := AList.delete name (csi_node_limits t),
                  csi_node_drivers := AList.delete name (csi_node_drivers t)\<rparr>
           else t\<lparr>csi_node_limits := AList.update name
                    (fold (\<lambda>(d, n) m. case n of Some c \<Rightarrow> bt_insert d c m | None \<Rightarrow> m) drivers [])
                    (csi_node_limits t),
                  csi_node_drivers := AList.update name (fst ` set drivers) (csi_node_drivers t)\<rparr>))"

definition apply_node_event ::
  "(json \<Rightarrow> node_item watch_event option) \<Rightarrow> json \<Rightarrow> node_tally \<Rightarrow> node_tally \<times> bool" where
  "apply_node_event de event t =
     (case de event of
        None \<Rightarrow> (t, False)
      | Some e \<Rightarrow>
          (let name = node_name (event_object e) in
           if name = [] then (t, False)
           else if \<not> is_upsert (event_type e)
           then (t\<lparr>tally_nodes := bt_remove name (tally_nodes t)\<rparr>, False)
           else (t\<lparr>tally_nodes := bt_insert name (event_object e) (tally_nodes t)\<rparr>,
                 map_of (tally_nodes t) name \<noteq> Some (event_object e))))"

definition node_list :: "node_tally \<Rightarrow> node_item list" where
  "node_list t = map snd (tally_nodes t)"

definition fetch_node :: "node_tally \<Rightarrow> string \<Rightarrow> node_item option" where
  "fetch_node t name = map_of (tally_nodes t) name"

definition clear_pvc_cache :: "node_tally \<Rightarrow> node_tally" where
  "clear_pvc_cache t = t\<lparr>tally_pvcs := [], pvc_waiters := []\<rparr>"

definition clear_pv_cache :: "node_tally \<Rightarrow> node_tally" where
  "clear_pv_cache t = t\<lparr>pv_csi_drivers := []\<rparr>"

definition clear_storage_class_cache :: "node_tally \<Rightarrow> node_tally" where
  "clear_storage_class_cache t = t\<lparr>sc_provisioners := []\<rparr>"

definition clear_csi_node_cache :: "node_tally \<Rightarrow> node_tally" where
  "clear_csi_node_cache t = t\<lparr>csi_node_limits := [], csi_node_drivers := []\<rparr>"

definition clear_csi_driver_cache :: "node_tally \<Rightarrow> node_tally" where
  "clear_csi_driver_cache t = t\<lparr>csi_prevent_scheduling := {}\<rparr>"

definition clear_node_cache :: "node_tally \<Rightarrow> node_tally" where
  "clear_node_cache t = t\<lparr>tally_nodes := []\<rparr>"

definition replace_pvc_cache :: "node_tally \<Rightarrow> node_tally \<Rightarrow> node_tally \<times> string list" where
  "replace_pvc_cache fresh t =
     (let present = filter (\<lambda>key. map_of (tally_pvcs fresh) key \<noteq> None) (map fst (pvc_waiters t));
          (ws, woken) = fold (\<lambda>key (ws, woken).
             let (ws', pods) = pvc_waiters_resolve key ws in (ws', woken @ pods)) present (pvc_waiters t, [])
      in (t\<lparr>tally_pvcs := tally_pvcs fresh, pvc_waiters := ws\<rparr>, woken))"

definition replace_pv_cache :: "node_tally \<Rightarrow> node_tally \<Rightarrow> node_tally" where
  "replace_pv_cache fresh t = t\<lparr>pv_csi_drivers := pv_csi_drivers fresh\<rparr>"

definition replace_storage_class_cache :: "node_tally \<Rightarrow> node_tally \<Rightarrow> node_tally" where
  "replace_storage_class_cache fresh t = t\<lparr>sc_provisioners := sc_provisioners fresh\<rparr>"

definition replace_csi_node_cache :: "node_tally \<Rightarrow> node_tally \<Rightarrow> node_tally" where
  "replace_csi_node_cache fresh t =
     t\<lparr>csi_node_limits := csi_node_limits fresh, csi_node_drivers := csi_node_drivers fresh\<rparr>"

definition replace_csi_driver_cache :: "node_tally \<Rightarrow> node_tally \<Rightarrow> node_tally" where
  "replace_csi_driver_cache fresh t = t\<lparr>csi_prevent_scheduling := csi_prevent_scheduling fresh\<rparr>"

definition replace_node_cache :: "node_tally \<Rightarrow> node_tally \<Rightarrow> node_tally" where
  "replace_node_cache fresh t = (clear_node_cache t)\<lparr>tally_nodes := tally_nodes fresh\<rparr>"

subsection \<open>The index stays in step with the pods\<close>

definition node_keys :: "node_tally \<Rightarrow> string \<Rightarrow> string list" where
  "node_keys t node = or_default [] (map_of (by_node t) node)"

definition keys_on :: "node_tally \<Rightarrow> string \<Rightarrow> string set" where
  "keys_on t node = {key. \<exists>p. map_of (tally_pods t) key = Some p \<and> tp_node_name p = node}"

text \<open>
  The invariant: keys are unique, the index lists for every node exactly the keys of the pods on it,
  and the node cache is keyed by node name.
\<close>

definition index_ok :: "node_tally \<Rightarrow> bool" where
  "index_ok t =
     (distinct (map fst (tally_pods t)) \<and>
      (\<forall>node. distinct (node_keys t node) \<and> set (node_keys t node) = keys_on t node))"

definition nodes_ok :: "node_tally \<Rightarrow> bool" where
  "nodes_ok t = (bt_wf (tally_nodes t) \<and> (\<forall>(name, item) \<in> set (tally_nodes t). node_name item = name))"

definition pods_ok :: "node_tally \<Rightarrow> bool" where
  "pods_ok t = (\<forall>(key, p) \<in> set (tally_pods t). requests_wf (tp_requests p))"

definition tally_ok :: "node_tally \<Rightarrow> bool" where
  "tally_ok t = (index_ok t \<and> nodes_ok t \<and> pods_ok t)"

lemma or_default_update:
  "or_default d (map_of (AList.update k v m) n) = (if n = k then v else or_default d (map_of m n))"
  by (simp add: update_conv or_default_def)

lemma index_drop_keys:
  "or_default [] (map_of (index_drop node key idx) n) =
   (if n = node then removeAll key (or_default [] (map_of idx n)) else or_default [] (map_of idx n))"
  by (simp add: index_drop_def or_default_def update_conv split: option.split)

lemma index_prune_keys:
  "or_default [] (map_of (index_prune node idx) n) = or_default [] (map_of idx n)"
  by (auto simp: index_prune_def or_default_def delete_conv split: option.split)

lemma node_keys_insert_pod:
  "node_keys (insert_pod key pod t) n =
   (if n = tp_node_name pod then List.insert key (node_keys t n)
    else case map_of (tally_pods t) key of
           Some old \<Rightarrow> if tp_node_name old = n then removeAll key (node_keys t n) else node_keys t n
         | None \<Rightarrow> node_keys t n)"
  by (cases "map_of (tally_pods t) key")
    (simp_all add: node_keys_def insert_pod_def Let_def index_drop_keys or_default_update)

lemma node_keys_remove_pod:
  "node_keys (remove_pod key t) n =
   (case map_of (tally_pods t) key of
      Some old \<Rightarrow> if tp_node_name old = n then removeAll key (node_keys t n) else node_keys t n
    | None \<Rightarrow> node_keys t n)"
  by (auto simp: node_keys_def remove_pod_def index_drop_keys index_prune_keys split: option.split)

lemma tally_pods_insert_pod [simp]: "tally_pods (insert_pod key pod t) = AList.update key pod (tally_pods t)"
  by (simp add: insert_pod_def Let_def)

lemma tally_pods_remove_pod [simp]: "tally_pods (remove_pod key t) = AList.delete key (tally_pods t)"
  by (auto simp: remove_pod_def map_of_eq_None_iff delete_id split: option.split)

lemma keys_on_insert_pod:
  "keys_on (insert_pod key pod t) n =
   (if tp_node_name pod = n then insert key (keys_on t n) else keys_on t n - {key})"
  by (auto simp: keys_on_def update_conv)

lemma keys_on_remove_pod: "keys_on (remove_pod key t) n = keys_on t n - {key}"
  by (auto simp: keys_on_def delete_conv')

lemma index_ok_insert_pod: "index_ok t \<Longrightarrow> index_ok (insert_pod key pod t)"
  unfolding index_ok_def node_keys_insert_pod keys_on_insert_pod tally_pods_insert_pod
  by (auto simp: distinct_update distinct_removeAll keys_on_def split: option.split
      dest: eq_key_imp_eq_value)

lemma index_ok_remove_pod: "index_ok t \<Longrightarrow> index_ok (remove_pod key t)"
  unfolding index_ok_def node_keys_remove_pod keys_on_remove_pod tally_pods_remove_pod
  by (auto simp: distinct_delete distinct_removeAll keys_on_def split: option.split
      dest: eq_key_imp_eq_value)

text \<open>The other fields are untouched by an insertion or a removal.\<close>

lemma insert_pod_fields [simp]:
  "reserved_victims (insert_pod key pod t) = reserved_victims t"
  "waiters (insert_pod key pod t) = waiters t"
  "tally_nodes (insert_pod key pod t) = tally_nodes t"
  "tally_pvcs (insert_pod key pod t) = tally_pvcs t"
  "pv_csi_drivers (insert_pod key pod t) = pv_csi_drivers t"
  "sc_provisioners (insert_pod key pod t) = sc_provisioners t"
  "csi_node_limits (insert_pod key pod t) = csi_node_limits t"
  by (simp_all add: insert_pod_def Let_def)

lemma remove_pod_fields [simp]:
  "reserved_victims (remove_pod key t) = reserved_victims t"
  "waiters (remove_pod key t) = waiters t"
  "tally_nodes (remove_pod key t) = tally_nodes t"
  by (simp_all add: remove_pod_def split: option.split)

lemma index_ok_cong:
  "tally_pods t' = tally_pods t \<Longrightarrow> by_node t' = by_node t \<Longrightarrow> index_ok t' = index_ok t"
  by (simp add: index_ok_def node_keys_def keys_on_def)

lemma set_update_subset: "set (AList.update k v m) \<subseteq> insert (k, v) (set m)"
  by (induction m) auto

lemma pods_ok_insert_pod: "pods_ok t \<Longrightarrow> requests_wf (tp_requests pod) \<Longrightarrow> pods_ok (insert_pod key pod t)"
  using set_update_subset [of key pod "tally_pods t"] unfolding pods_ok_def tally_pods_insert_pod by blast

lemma pods_ok_remove_pod: "pods_ok t \<Longrightarrow> pods_ok (remove_pod key t)"
  unfolding pods_ok_def tally_pods_remove_pod by (auto simp: AList.delete_eq)

lemma tally_ok_insert_pod [intro]:
  "tally_ok t \<Longrightarrow> requests_wf (tp_requests pod) \<Longrightarrow> tally_ok (insert_pod key pod t)"
  unfolding tally_ok_def by (simp add: index_ok_insert_pod pods_ok_insert_pod nodes_ok_def)

lemma tally_ok_remove_pod [intro]: "tally_ok t \<Longrightarrow> tally_ok (remove_pod key t)"
  unfolding tally_ok_def by (simp add: index_ok_remove_pod pods_ok_remove_pod nodes_ok_def)

lemma tally_ok_cong:
  "tally_pods t' = tally_pods t \<Longrightarrow> by_node t' = by_node t \<Longrightarrow> tally_nodes t' = tally_nodes t \<Longrightarrow>
   tally_ok t' = tally_ok t"
  unfolding tally_ok_def nodes_ok_def pods_ok_def by (simp cong: index_ok_cong)

subsection \<open>Usage and candidates are the pods on the node\<close>

definition residents :: "node_tally \<Rightarrow> string \<Rightarrow> (string \<times> tallied_pod) list" where
  "residents t node = filter (\<lambda>(_, p). tp_node_name p = node) (tally_pods t)"

definition usage_of :: "node_tally \<Rightarrow> string \<Rightarrow> node_usage" where
  "usage_of t node = or_default usage_default (map_of (usage_by_node t) node)"

definition np_of :: "string \<times> tallied_pod \<Rightarrow> node_pod" where
  "np_of e = \<lparr>np_key = fst e, np_priority = tp_priority (snd e), np_requests = tp_requests (snd e),
              np_pvc_names = tp_pvc_names (snd e)\<rparr>"

lemma usage_of_fold: "usage_of t node = fold (usage_add t) (map snd (residents t node)) usage_default"
proof -
  have "or_default usage_default (map_of (fold (\<lambda>(_, pod) m.
        AList.update (tp_node_name pod)
          (usage_add t pod (or_default usage_default (map_of m (tp_node_name pod)))) m) xs m) node) =
      fold (usage_add t) (map snd (filter (\<lambda>(_, p). tp_node_name p = node) xs))
        (or_default usage_default (map_of m node))" for xs :: "(string \<times> tallied_pod) list" and m
    by (induction xs arbitrary: m) (auto simp: or_default_update)
  from this [of "tally_pods t" "[]"] show ?thesis
    by (simp add: usage_of_def usage_by_node_def residents_def or_default_def)
qed

lemma fold_usage_count: "usage_pod_count (fold (usage_add t) ps u) = usage_pod_count u + length ps"
  by (induction ps arbitrary: u) (simp_all add: usage_add_def)

lemma fold_usage_amount:
  "\<forall>p \<in> set ps. requests_wf (tp_requests p) \<Longrightarrow>
   amount (usage_requests (fold (usage_add t) ps u)) d =
   amount (usage_requests u) d + (\<Sum>p \<leftarrow> ps. amount (tp_requests p) d)"
  by (induction ps arbitrary: u) (simp_all add: usage_add_def)

lemma fold_usage_host_ports:
  "set (usage_host_ports (fold (usage_add t) ps u)) =
   set (usage_host_ports u) \<union> (\<Union>p \<in> set ps. set (tp_host_ports p))"
  by (induction ps arbitrary: u) (auto simp: usage_add_def)

lemma fold_usage_pvc_names:
  "set (usage_pvc_names (fold (usage_add t) ps u)) =
   set (usage_pvc_names u) \<union> (\<Union>p \<in> set ps. set (tp_pvc_names p))"
  by (induction ps arbitrary: u) (auto simp: usage_add_def)

lemma fold_usage_wf:
  "requests_wf (usage_requests u) \<Longrightarrow> requests_wf (usage_requests (fold (usage_add t) ps u))"
  by (induction ps arbitrary: u) (simp_all add: usage_add_def)

definition total_amount :: "(string \<times> tallied_pod) list \<Rightarrow> dim \<Rightarrow> i64" where
  "total_amount es d = (\<Sum>e \<leftarrow> es. amount (tp_requests (snd e)) d)"

lemma residents_wf: "tally_ok t \<Longrightarrow> e \<in> set (residents t node) \<Longrightarrow> requests_wf (tp_requests (snd e))"
  by (auto simp: residents_def tally_ok_def pods_ok_def)

lemma usage_count: "usage_pod_count (usage_of t node) = length (residents t node)"
  by (simp add: usage_of_fold fold_usage_count usage_default_def)

lemma usage_amount:
  "tally_ok t \<Longrightarrow> amount (usage_requests (usage_of t node)) d = total_amount (residents t node) d"
  by (auto simp: usage_of_fold fold_usage_amount usage_default_def total_amount_def residents_wf comp_def)

lemma usage_host_ports_set:
  "set (usage_host_ports (usage_of t node)) = (\<Union>e \<in> set (residents t node). set (tp_host_ports (snd e)))"
  by (simp add: usage_of_fold fold_usage_host_ports usage_default_def)

lemma usage_pvc_names_set:
  "set (usage_pvc_names (usage_of t node)) = (\<Union>e \<in> set (residents t node). set (tp_pvc_names (snd e)))"
  by (simp add: usage_of_fold fold_usage_pvc_names usage_default_def)

lemma distinct_residents: "index_ok t \<Longrightarrow> distinct (map fst (residents t node))"
  by (simp add: index_ok_def residents_def distinct_map_filter)

lemma pods_on_alt:
  "pods_on t node = List.map_filter (\<lambda>key. map_option (\<lambda>p. np_of (key, p)) (map_of (tally_pods t) key))
     (filter (\<lambda>key. key \<notin> reserved_victims t) (node_keys t node))"
  by (simp add: pods_on_def node_keys_def np_of_def or_default_def List.map_filter_def split: option.split)

text \<open>The candidates for preemption are the pods on the node no plan has claimed.\<close>

definition unclaimed :: "node_tally \<Rightarrow> string \<Rightarrow> (string \<times> tallied_pod) list" where
  "unclaimed t node = filter (\<lambda>(key, _). key \<notin> reserved_victims t) (residents t node)"

lemma inj_np_of: "distinct (map fst es) \<Longrightarrow> inj_on np_of (set es)"
  by (auto simp: inj_on_def np_of_def dest: eq_key_imp_eq_value)

lemma distinct_map_filter_key:
  "distinct ks \<Longrightarrow> distinct (List.map_filter (\<lambda>key. map_option (\<lambda>p. np_of (key, p)) (f key)) ks)"
  by (induction ks) (auto simp: List.map_filter_simps set_map_filter np_of_def split: option.split)

lemma mset_pods_on:
  assumes "index_ok t"
  shows "mset (pods_on t node) = mset (map np_of (unclaimed t node))"
proof (rule set_eq_iff_mset_eq_distinct [THEN iffD1])
  have d: "distinct (map fst (tally_pods t))" and ks: "distinct (node_keys t node)"
    and keys: "set (node_keys t node) = keys_on t node"
    using assms by (auto simp: index_ok_def)
  show "distinct (pods_on t node)"
    unfolding pods_on_alt using ks by (intro distinct_map_filter_key) simp
  have "distinct (map fst (unclaimed t node))"
    using distinct_residents [OF assms] by (simp add: unclaimed_def distinct_map_filter)
  then show "distinct (map np_of (unclaimed t node))"
    by (simp add: distinct_map inj_np_of)
  show "set (pods_on t node) = set (map np_of (unclaimed t node))"
  proof -
    have "set (pods_on t node) = {np_of (key, p) | key p.
        map_of (tally_pods t) key = Some p \<and> tp_node_name p = node \<and> key \<notin> reserved_victims t}"
      unfolding pods_on_alt set_map_filter set_filter keys keys_on_def by auto blast+
    also have "\<dots> = {np_of (key, p) | key p.
        (key, p) \<in> set (tally_pods t) \<and> tp_node_name p = node \<and> key \<notin> reserved_victims t}"
      by (simp add: map_of_eq_Some_iff [OF d])
    also have "\<dots> = set (map np_of (unclaimed t node))"
      by (auto simp: unclaimed_def residents_def)
    finally show ?thesis .
  qed
qed

subsection \<open>Resolving deferred plans\<close>

lemma resolve_loop_from:
  "i \<le> length plans \<Longrightarrow>
   resolve_loop plans i ready =
     Some (take i plans @ filter (\<lambda>p. remaining_victims p \<noteq> {}) (drop i plans),
           ready @ map (\<lambda>p. (plan_pod p, plan_node p)) (filter (\<lambda>p. remaining_victims p = {}) (drop i plans)))"
proof (induction "length plans - i" arbitrary: plans i ready)
  case 0
  then show ?case by (simp add: resolve_loop.simps [of plans])
next
  case (Suc n)
  then have i: "i < length plans" by simp
  then have d: "drop i plans = plans ! i # drop (Suc i) plans" by (simp add: Cons_nth_drop_Suc)
  have r: "length (vec_remove i plans) = length plans - 1" "take i (vec_remove i plans) = take i plans"
      "drop i (vec_remove i plans) = drop (Suc i) plans"
    using i by (simp_all add: vec_remove_def)
  show ?case
  proof (cases "remaining_victims (plans ! i) = {}")
    case True
    have "n = length (vec_remove i plans) - i" "i \<le> length (vec_remove i plans)" using Suc(2) i r(1) by auto
    from Suc(1) [OF this] show ?thesis
      using True i d r by (simp add: resolve_loop.simps [of plans])
  next
    case False
    have "n = length plans - Suc i" "Suc i \<le> length plans" using Suc(2) i by auto
    from Suc(1) [OF this] show ?thesis
      using False i d by (simp add: resolve_loop.simps [of plans] take_Suc_conv_app_nth)
  qed
qed

text \<open>The loop that releases deferred preemption plans always ends, whatever plans it starts with: it
  returns the plans that still await a victim, in order, and hands out every other one exactly once.
\<close>

theorem resolve_loop_ends:
  "resolve_loop plans 0 [] =
     Some (filter (\<lambda>p. remaining_victims p \<noteq> {}) plans,
           map (\<lambda>p. (plan_pod p, plan_node p)) (filter (\<lambda>p. remaining_victims p = {}) plans))"
  by (simp add: resolve_loop_from)

definition strike :: "string \<Rightarrow> waiting_plan \<Rightarrow> waiting_plan" where
  "strike victim p = p\<lparr>remaining_victims := remaining_victims p - {victim}\<rparr>"

lemma waiters_resolve_eq:
  "waiters_resolve victim plans =
     (filter (\<lambda>p. remaining_victims p \<noteq> {}) (map (strike victim) plans),
      map (\<lambda>p. (plan_pod p, plan_node p)) (filter (\<lambda>p. remaining_victims p = {}) (map (strike victim) plans)))"
  unfolding waiters_resolve_def Let_def strike_def [symmetric] by (simp add: resolve_loop_from)

subsection \<open>Backoff\<close>

text \<open>The backoff of a pod that keeps failing is between one and ten seconds, never shrinks from one
  failure to the next, and a pod is held back exactly while its delay has not passed since its last
  attempt. So a pod is never held back for more than ten seconds after an attempt.
\<close>

theorem backoff_bounds:
  "pod_initial_backoff \<le> backoff_delay n \<and> backoff_delay n \<le> pod_max_backoff \<and>
   backoff_delay n \<le> backoff_delay (Suc n) \<and>
   set (backed_off now m) =
     {(k, fs_last_attempt s + backoff_delay (fs_failures s) - now) | k s.
        (k, s) \<in> set m \<and> now < fs_last_attempt s + backoff_delay (fs_failures s)}"
proof -
  have "(1 :: nat) \<le> 2 ^ j" for j by simp
  then have lo: "pod_initial_backoff \<le> backoff_delay n"
    by (simp add: backoff_delay_def pod_initial_backoff_def pod_max_backoff_def nanos_per_sec_def)
  have "(2 :: nat) ^ min (n - 1) 8 \<le> 2 ^ min (Suc n - 1) 8" by (intro power_increasing) auto
  then have mono: "backoff_delay n \<le> backoff_delay (Suc n)"
    unfolding backoff_delay_def by (intro min.mono mult_le_mono2) auto
  have "set (backed_off now m) = {(k, fs_last_attempt s + backoff_delay (fs_failures s) - now) | k s.
        (k, s) \<in> set m \<and> now < fs_last_attempt s + backoff_delay (fs_failures s)}"
    unfolding backed_off_def set_map_filter Let_def by (force split: if_splits)
  with lo mono show ?thesis by (simp add: backoff_delay_def)
qed

subsection \<open>Every reachable tally\<close>

text \<open>
  The tallies the scheduler can build, by any sequence of its operations. A \<^verbatim>\<open>HashMap\<close> and a
  \<^verbatim>\<open>HashSet\<close> may change their order at any time. A watch that reconnects replays into a
  fresh tally that then replaces part of the live one.
\<close>

inductive tally_reachable :: "node_tally \<Rightarrow> bool" where
  start: "tally_reachable empty_tally"
| event: "tally_reachable t \<Longrightarrow> tally_reachable (fst (apply_event de e t))"
| assumes': "tally_reachable t \<Longrightarrow> requests_wf (requests pod) \<Longrightarrow> tally_reachable (tally_assume pod node t)"
| removes: "tally_reachable t \<Longrightarrow> tally_reachable (tally_remove namespace name t)"
| clears: "tally_reachable t \<Longrightarrow> tally_reachable (fst (tally_clear t))"
| replaces: "tally_reachable t \<Longrightarrow> tally_reachable fresh \<Longrightarrow> tally_reachable (fst (replace_pods fresh uids t))"
| claims: "tally_reachable t \<Longrightarrow> tally_reachable (claim_victims victims t)"
| releases: "tally_reachable t \<Longrightarrow> tally_reachable (release_victims victims t)"
| defers: "tally_reachable t \<Longrightarrow> tally_reachable (register_preemption_waiter pod node victims t)"
| waits: "tally_reachable t \<Longrightarrow> tally_reachable (register_pvc_waiter namespace pvc key t)"
| fails: "tally_reachable t \<Longrightarrow>
    tally_reachable (t\<lparr>tally_failures := fst (record_failure key uid message now (tally_failures t))\<rparr>)"
| forgives: "tally_reachable t \<Longrightarrow> tally_reachable (t\<lparr>tally_failures := backoff_clear key (tally_failures t)\<rparr>)"
| retains: "tally_reachable t \<Longrightarrow> tally_reachable (t\<lparr>tally_failures := retain_pending uids (tally_failures t)\<rparr>)"
| pvc: "tally_reachable t \<Longrightarrow> tally_reachable (fst (apply_pvc_event de_pvc e t))"
| pv: "tally_reachable t \<Longrightarrow> tally_reachable (apply_pv_event de_pv e t)"
| storage_class: "tally_reachable t \<Longrightarrow> tally_reachable (apply_storage_class_event de_sc e t)"
| csi_driver: "tally_reachable t \<Longrightarrow> tally_reachable (apply_csi_driver_event de_driver e t)"
| csi_node: "tally_reachable t \<Longrightarrow> tally_reachable (apply_csi_node_event de_csi_node e t)"
| node: "tally_reachable t \<Longrightarrow> tally_reachable (fst (apply_node_event de_node e t))"
| pvc_replay: "tally_reachable t \<Longrightarrow> tally_reachable fresh \<Longrightarrow> tally_reachable (fst (replace_pvc_cache fresh t))"
| pv_replay: "tally_reachable t \<Longrightarrow> tally_reachable fresh \<Longrightarrow> tally_reachable (replace_pv_cache fresh t)"
| storage_class_replay:
    "tally_reachable t \<Longrightarrow> tally_reachable fresh \<Longrightarrow> tally_reachable (replace_storage_class_cache fresh t)"
| csi_node_replay: "tally_reachable t \<Longrightarrow> tally_reachable fresh \<Longrightarrow> tally_reachable (replace_csi_node_cache fresh t)"
| csi_driver_replay:
    "tally_reachable t \<Longrightarrow> tally_reachable fresh \<Longrightarrow> tally_reachable (replace_csi_driver_cache fresh t)"
| node_replay: "tally_reachable t \<Longrightarrow> tally_reachable fresh \<Longrightarrow> tally_reachable (replace_node_cache fresh t)"
| pvc_clear: "tally_reachable t \<Longrightarrow> tally_reachable (clear_pvc_cache t)"
| pv_clear: "tally_reachable t \<Longrightarrow> tally_reachable (clear_pv_cache t)"
| storage_class_clear: "tally_reachable t \<Longrightarrow> tally_reachable (clear_storage_class_cache t)"
| csi_node_clear: "tally_reachable t \<Longrightarrow> tally_reachable (clear_csi_node_cache t)"
| csi_driver_clear: "tally_reachable t \<Longrightarrow> tally_reachable (clear_csi_driver_cache t)"
| node_clear: "tally_reachable t \<Longrightarrow> tally_reachable (clear_node_cache t)"
| rehash: "tally_reachable t \<Longrightarrow> mset ps = mset (tally_pods t) \<Longrightarrow>
    (\<forall>n. mset (or_default [] (map_of idx n)) = mset (or_default [] (map_of (by_node t) n))) \<Longrightarrow>
    tally_reachable (t\<lparr>tally_pods := ps, by_node := idx\<rparr>)"

lemma tally_ok_empty: "tally_ok empty_tally"
  by (simp add: tally_ok_def index_ok_def nodes_ok_def pods_ok_def empty_tally_def node_keys_def keys_on_def or_default_def)

lemma tally_ok_irrelevant [simp]:
  "tally_ok (t\<lparr>reserved_victims := x_0\<rparr>) = tally_ok t"
  "tally_ok (t\<lparr>waiters := x_1\<rparr>) = tally_ok t"
  "tally_ok (t\<lparr>tally_pvcs := x_2\<rparr>) = tally_ok t"
  "tally_ok (t\<lparr>pvc_waiters := x_3\<rparr>) = tally_ok t"
  "tally_ok (t\<lparr>pv_csi_drivers := x_4\<rparr>) = tally_ok t"
  "tally_ok (t\<lparr>sc_provisioners := x_5\<rparr>) = tally_ok t"
  "tally_ok (t\<lparr>csi_node_limits := x_6\<rparr>) = tally_ok t"
  "tally_ok (t\<lparr>csi_node_drivers := x_7\<rparr>) = tally_ok t"
  "tally_ok (t\<lparr>csi_prevent_scheduling := x_8\<rparr>) = tally_ok t"
  "tally_ok (t\<lparr>tally_failures := x_9\<rparr>) = tally_ok t"
  by (auto simp: tally_ok_def nodes_ok_def pods_ok_def cong: index_ok_cong)

lemma tally_ok_event: "tally_ok t \<Longrightarrow> tally_ok (fst (apply_event de e t))"
proof (cases "de e")
  case (Some ev)
  assume ok: "tally_ok t"
  have "requests_wf (tp_requests (tallied_of ns nm item nd))" for ns nm item nd
    by (simp add: tallied_of_def Let_def)
  with ok show ?thesis
    unfolding apply_event_def Some Let_def
    by (auto split: prod.split intro!: tally_ok_insert_pod tally_ok_remove_pod)
qed (simp add: apply_event_def)

lemma tally_ok_node_event: "tally_ok t \<Longrightarrow> tally_ok (fst (apply_node_event de e t))"
proof -
  assume ok: "tally_ok t"
  have step: "tally_ok (t\<lparr>tally_nodes := ns\<rparr>)" if "bt_wf ns" "\<forall>(name, item) \<in> set ns. node_name item = name" for ns
    using ok that by (auto simp: tally_ok_def nodes_ok_def pods_ok_def cong: index_ok_cong)
  have wf: "bt_wf (tally_nodes t)" and named: "\<forall>(name, item) \<in> set (tally_nodes t). node_name item = name"
    using ok by (auto simp: tally_ok_def nodes_ok_def)
  have "tally_ok (t\<lparr>tally_nodes := bt_remove n (tally_nodes t)\<rparr>)" for n
    using wf named by (intro step) (auto simp: bt_remove_def)
  moreover have "tally_ok (t\<lparr>tally_nodes := bt_insert (node_name i) i (tally_nodes t)\<rparr>)" for i
    using wf named set_bt_insert_subset [of "node_name i" i "tally_nodes t"] by (intro step) auto
  ultimately show ?thesis
    using ok by (auto simp: apply_node_event_def Let_def split: option.split)
qed

lemma tally_ok_rehash:
  assumes "tally_ok t" "mset ps = mset (tally_pods t)"
    and "\<forall>n. mset (or_default [] (map_of idx n)) = mset (or_default [] (map_of (by_node t) n))"
  shows "tally_ok (t\<lparr>tally_pods := ps, by_node := idx\<rparr>)"
proof -
  have d: "distinct (map fst (tally_pods t))" using assms(1) by (simp add: tally_ok_def index_ok_def)
  have "mset (map fst ps) = mset (map fst (tally_pods t))" using assms(2) by (metis mset_map)
  then have d': "distinct (map fst ps)" using d by (metis mset_eq_imp_distinct_iff)
  have "set ps = set (tally_pods t)" using assms(2) by (metis mset_eq_setD)
  then have "map_of ps = map_of (tally_pods t)"
    using d d' by (metis map_of_inject_set)
  then have "keys_on (t\<lparr>tally_pods := ps, by_node := idx\<rparr>) n = keys_on t n" for n
    by (simp add: keys_on_def)
  moreover have "distinct (or_default [] (map_of idx n)) = distinct (node_keys t n)"
      "set (or_default [] (map_of idx n)) = set (node_keys t n)" for n
    using assms(3) unfolding node_keys_def by (metis mset_eq_imp_distinct_iff, metis mset_eq_setD)
  ultimately have "index_ok (t\<lparr>tally_pods := ps, by_node := idx\<rparr>)"
    using assms(1) d' by (simp add: tally_ok_def index_ok_def node_keys_def)
  then show ?thesis
    using assms(1) \<open>set ps = set (tally_pods t)\<close> by (simp add: tally_ok_def nodes_ok_def pods_ok_def)
qed

lemma tally_ok_replace_pods: "tally_ok t \<Longrightarrow> tally_ok fresh \<Longrightarrow> tally_ok (fst (replace_pods fresh uids t))"
  unfolding tally_ok_def nodes_ok_def pods_ok_def
  by (auto simp: replace_pods_def tally_clear_def waiters_clear_def index_ok_def node_keys_def keys_on_def)

lemma tally_ok_clear: "tally_ok t \<Longrightarrow> tally_ok (fst (tally_clear t))"
  unfolding tally_ok_def nodes_ok_def pods_ok_def
  by (auto simp: tally_clear_def waiters_clear_def index_ok_def node_keys_def keys_on_def or_default_def)

lemma tally_ok_node_replay: "tally_ok t \<Longrightarrow> tally_ok fresh \<Longrightarrow> tally_ok (replace_node_cache fresh t)"
  unfolding tally_ok_def nodes_ok_def pods_ok_def
  by (auto simp: replace_node_cache_def clear_node_cache_def cong: index_ok_cong)

lemma tally_ok_node_clear: "tally_ok t \<Longrightarrow> tally_ok (clear_node_cache t)"
  unfolding tally_ok_def nodes_ok_def pods_ok_def
  by (auto simp: clear_node_cache_def cong: index_ok_cong)

lemma tally_reachable_ok: "tally_reachable t \<Longrightarrow> tally_ok t"
proof (induction rule: tally_reachable.induct)
  case (assumes' t pod node)
  then show ?case by (auto simp: tally_assume_def assumed_pod_def)
next
  case (removes t namespace name)
  then show ?case by (auto simp: tally_remove_def)
qed (simp_all add: tally_ok_empty tally_ok_event tally_ok_clear tally_ok_replace_pods tally_ok_node_event
      tally_ok_node_replay tally_ok_node_clear tally_ok_rehash claim_victims_def release_victims_def
      register_preemption_waiter_def register_pvc_waiter_def
      apply_pvc_event_def apply_pv_event_def apply_storage_class_event_def apply_csi_driver_event_def
      apply_csi_node_event_def replace_pvc_cache_def replace_pv_cache_def replace_storage_class_cache_def
      replace_csi_node_cache_def replace_csi_driver_cache_def clear_pvc_cache_def
      clear_pv_cache_def clear_storage_class_cache_def clear_csi_node_cache_def clear_csi_driver_cache_def Let_def
    split: option.split prod.split)

text \<open>C24: However the scheduler's tally came about, its two accounts of a node agree with the pods it tallies
  there: the index offers to preemption exactly the pods on the node that no plan has claimed, and the
  usage that direct scheduling reads counts every pod on the node once and sums their requests in every
  resource dimension.
\<close>

theorem tally_accounts_agree:
  assumes "tally_reachable t"
  shows "mset (pods_on t node) =
      mset (map np_of (filter (\<lambda>(key, _). key \<notin> reserved_victims t) (residents t node))) \<and>
    usage_pod_count (usage_of t node) = length (residents t node) \<and>
    amount (usage_requests (usage_of t node)) d = (\<Sum>(_, p) \<leftarrow> residents t node. amount (tp_requests p) d)"
proof -
  have ok: "tally_ok t" using assms by (rule tally_reachable_ok)
  then have "index_ok t" by (simp add: tally_ok_def)
  from mset_pods_on [OF this] show ?thesis
    by (simp add: unclaimed_def usage_count usage_amount [OF ok] total_amount_def case_prod_unfold)
qed

definition one_pod :: node_tally where
  "one_pod = tally_assume ((sample_pod ''p'')\<lparr>requests := requests_default\<lparr>cpu_milli := 500\<rparr>\<rparr>) ''n'' empty_tally"

lemma one_pod_reachable: "tally_reachable one_pod"
  unfolding one_pod_def
  by (rule tally_reachable.assumes' [OF tally_reachable.start])
    (simp add: requests_wf_def requests_default_def)

theorem tally_accounts_agree_witness:
  "usage_pod_count (usage_of one_pod ''n'') = 1 \<and>
   amount (usage_requests (usage_of one_pod ''n'')) Cpu = 500"
proof -
  have "residents one_pod ''n'' = [(''d/p'', assumed_pod
      ((sample_pod ''p'')\<lparr>requests := requests_default\<lparr>cpu_milli := 500\<rparr>\<rparr>) ''n'')]"
    by (simp add: residents_def one_pod_def tally_assume_def empty_tally_def assumed_pod_def pod_key_def sample_pod_def)
  with tally_accounts_agree [OF one_pod_reachable, of "''n''" Cpu] show ?thesis
    by (simp add: assumed_pod_def)
qed

end
