(* ===== verification/Sched_Select.thy ===== *)
theory Sched_Select
  imports Sched_Tally
begin

text \<open>
  Choosing a node (\<^verbatim>\<open>select_node_with_capacity\<close>, \<^verbatim>\<open>select_and_reserve_node\<close>,
  \<^verbatim>\<open>pick_node\<close> of \<^verbatim>\<open>crates/scheduler/src/lib.rs\<close>). What the choice needs of the
  tally is the locale \<^verbatim>\<open>pod_account\<close>, interpreted on the tally. The chosen node passes every
  filter, holds the pod within its capacity once it is reserved, and is a least loaded one of those
  that pass; a refusal means that no node passes.
\<close>

subsection \<open>Choosing a node\<close>

datatype verdict = Fits | Rejected | Csi_Limited | Csi_Missing string

datatype select_error = Max_Volume_Count | Driver_Missing string | No_Fit

definition rwop_keys :: "pending_pod \<Rightarrow> string list" where
  "rwop_keys pod = map (pvc_key (pod_namespace pod)) (read_write_once_pod_pvcs pod)"

definition judge_node ::
  "pending_pod \<Rightarrow> inter_pod_affinity_context \<Rightarrow> topology_spread_term list \<Rightarrow> (string \<Rightarrow> node_usage) \<Rightarrow>
   node_item \<Rightarrow> verdict" where
  "judge_node pod actx tctx usage n =
     (let u = usage (node_name n); cap = pod_count_capacity n in
      if \<not> node_qualifies_for_pod n pod then Rejected
      else if \<not> affinity_qualifies actx (node_labels n) then Rejected
      else if \<not> topology_qualifies pod tctx (node_labels n) then Rejected
      else if cap \<noteq> 0 \<and> usage_pod_count u \<ge> cap then Rejected
      else if \<not> resource_fits (allocatable n) (usage_requests u) (requests pod) \<or>
              \<not> host_ports_fit (usage_host_ports u) (host_ports pod) then Rejected
      else if \<not> read_write_once_pod_conflict_free (usage_pvc_names u) (rwop_keys pod) then Rejected
      else if \<not> csi_volume_limits_fit (csi_driver_headroom n) (csi_volume_counts pod) then Csi_Limited
      else (case missing_required_csi_driver (csi_registered_drivers n) (csi_prevent_scheduling_drivers n)
                   (needed_csi_drivers pod) of
              Some driver \<Rightarrow> Csi_Missing driver
            | None \<Rightarrow> Fits))"

text \<open>\<^verbatim>\<open>Iterator::min_by_key\<close> returns the first of the minimal elements.\<close>

fun min_by_key :: "('a \<Rightarrow> 'b::linorder) \<Rightarrow> 'a list \<Rightarrow> 'a option" where
  "min_by_key f [] = None"
| "min_by_key f (x # xs) =
     (case min_by_key f xs of None \<Rightarrow> Some x | Some y \<Rightarrow> if f x \<le> f y then Some x else Some y)"

definition load_key :: "node_usage \<Rightarrow> int list" where
  "load_key u =
     [int (usage_pod_count u), sint (cpu_milli (usage_requests u)), sint (memory_milli (usage_requests u)),
      sint (ephemeral_storage_milli (usage_requests u))]"

definition first_missing :: "verdict list \<Rightarrow> string option" where
  "first_missing vs =
     (case List.map_filter (\<lambda>v. case v of Csi_Missing d \<Rightarrow> Some d | _ \<Rightarrow> None) vs of
        d # _ \<Rightarrow> Some d | [] \<Rightarrow> None)"

definition select_node_with_capacity ::
  "node_item list \<Rightarrow> pending_pod \<Rightarrow> (string \<times> node_usage) list \<Rightarrow> tallied_pod_labels list \<Rightarrow>
   select_error + string" where
  "select_node_with_capacity items pod usages tallied =
     (let by_name = node_labels_by_name items;
          actx = affinity_context pod tallied by_name;
          tctx = topology_context pod tallied by_name;
          usage = (\<lambda>name. or_default usage_default (map_of usages name));
          verdict = judge_node pod actx tctx usage
      in case min_by_key (\<lambda>n. load_key (usage (node_name n))) (filter (\<lambda>n. verdict n = Fits) items) of
           Some n \<Rightarrow> Inr (node_name n)
         | None \<Rightarrow>
             Inl (if list_ex (\<lambda>n. verdict n = Csi_Limited) items then Max_Volume_Count
                  else (case first_missing (map verdict items) of
                          Some driver \<Rightarrow> Driver_Missing driver
                        | None \<Rightarrow> No_Fit)))"

definition with_headroom :: "node_tally \<Rightarrow> (string \<times> node_usage) list \<Rightarrow> pending_pod \<Rightarrow> node_item \<Rightarrow> node_item" where
  "with_headroom t usages pod n =
     (if csi_volume_counts pod = [] then n
      else (case map_of (csi_node_limits t) (node_name n) of
              None \<Rightarrow> n
            | Some limits \<Rightarrow>
                n\<lparr>csi_driver_headroom := net_csi_headroom limits
                    (case map_of usages (node_name n) of
                       Some u \<Rightarrow> usage_csi_attached_counts u | None \<Rightarrow> [])\<rparr>))"

definition with_drivers :: "node_tally \<Rightarrow> pending_pod \<Rightarrow> node_item \<Rightarrow> node_item" where
  "with_drivers t pod n =
     (if needed_csi_drivers pod = [] then n
      else (case map_of (csi_node_drivers t) (node_name n) of
              None \<Rightarrow> n | Some drivers \<Rightarrow> n\<lparr>csi_registered_drivers := drivers\<rparr>)
           \<lparr>csi_prevent_scheduling_drivers := csi_prevent_scheduling t\<rparr>)"

definition enriched :: "node_tally \<Rightarrow> pending_pod \<Rightarrow> node_item list \<Rightarrow> node_item list" where
  "enriched t pod items = map (with_drivers t pod \<circ> with_headroom t (usage_by_node t) pod) items"

definition select_and_reserve_node ::
  "node_item list \<Rightarrow> pending_pod \<Rightarrow> node_tally \<Rightarrow> select_error + (string \<times> node_tally)" where
  "select_and_reserve_node items pod t =
     (case select_node_with_capacity (enriched t pod items) pod (usage_by_node t) (tally_pod_labels t) of
        Inl e \<Rightarrow> Inl e
      | Inr node \<Rightarrow> Inr (node, tally_assume pod node t))"

definition pick_node :: "pending_pod \<Rightarrow> node_tally \<Rightarrow> select_error + (string \<times> node_tally)" where
  "pick_node pod t = select_and_reserve_node (node_list t) pod t"

subsection \<open>The least loaded candidate\<close>

lemma min_by_key_None: "min_by_key f xs = None \<longleftrightarrow> xs = []"
  by (cases xs) (auto split: option.split)

lemma min_by_key_Some:
  "min_by_key f xs = Some y \<Longrightarrow> y \<in> set xs \<and> (\<forall>x \<in> set xs. f y \<le> f x)"
proof (induction xs arbitrary: y)
  case (Cons x xs)
  show ?case
  proof (cases "min_by_key f xs")
    case None
    then have "xs = []" by (simp add: min_by_key_None)
    then show ?thesis using Cons.prems by simp
  next
    case (Some z)
    then show ?thesis using Cons.IH [OF Some] Cons.prems by (auto split: if_splits)
  qed
qed simp

text \<open>Of several minimal elements it is the first.\<close>

lemma min_by_key_first:
  "min_by_key f xs = Some y \<Longrightarrow> \<exists>us vs. xs = us @ y # vs \<and> (\<forall>u \<in> set us. f y < f u)"
proof (induction xs arbitrary: y)
  case (Cons x xs)
  show ?case
  proof (cases "min_by_key f xs")
    case None
    then have "xs = []" by (simp add: min_by_key_None)
    then show ?thesis using Cons.prems by (intro exI [of _ "[]"]) auto
  next
    case (Some z)
    obtain us vs where uv: "xs = us @ z # vs" "\<forall>u \<in> set us. f z < f u" using Cons.IH [OF Some] by blast
    show ?thesis
    proof (cases "f x \<le> f z")
      case True
      then have "y = x" using Cons.prems Some by simp
      then show ?thesis by (intro exI [of _ "[]"] exI [of _ xs]) auto
    next
      case False
      then have "y = z" using Cons.prems Some by simp
      then show ?thesis using False uv by (intro exI [of _ "x # us"] exI [of _ vs]) auto
    qed
  qed
qed simp

subsection \<open>Fitting in every dimension\<close>

fun dim_cap :: "node_allocatable \<Rightarrow> dim \<Rightarrow> i64" where
  "dim_cap al Cpu = parse_quantity_milli (alloc_cpu al)"
| "dim_cap al Memory = parse_quantity_milli (alloc_memory al)"
| "dim_cap al Ephemeral = parse_quantity_milli (alloc_ephemeral_storage al)"
| "dim_cap al (Extended name) = extended_cap al name"

text \<open>
  A dimension binds unless it is cpu, memory or ephemeral storage without a known capacity, or an
  extended resource the pod does not ask for.
\<close>

fun dim_binds :: "node_allocatable \<Rightarrow> resource_requests \<Rightarrow> dim \<Rightarrow> bool" where
  "dim_binds al req (Extended name) = (amount req (Extended name) \<noteq> 0)"
| "dim_binds al req d = (dim_cap al d \<noteq> 0)"

definition within_cap :: "node_allocatable \<Rightarrow> resource_requests \<Rightarrow> (dim \<Rightarrow> i64) \<Rightarrow> bool" where
  "within_cap al req total_of = (\<forall>d. dim_binds al req d \<longrightarrow> sint (total_of d) \<le> sint (dim_cap al d))"

lemma all_dims: "(\<forall>d. P d) \<longleftrightarrow> P Cpu \<and> P Memory \<and> P Ephemeral \<and> (\<forall>name. P (Extended name))"
  by (metis dim.exhaust)

lemma resource_fits_iff:
  assumes "requests_wf req"
  shows "resource_fits al used req \<longleftrightarrow> within_cap al req (\<lambda>d. amount used d + amount req d)"
proof -
  have d: "distinct (map fst (extended req))" using assms by (simp add: requests_wf_def bt_wf_distinct)
  have "list_all (\<lambda>(name, want). want = 0 \<or>
        sint (bt_get_or_zero (extended used) name + want) \<le> sint (extended_cap al name)) (extended req) \<longleftrightarrow>
      (\<forall>name. amount req (Extended name) \<noteq> 0 \<longrightarrow>
        sint (amount used (Extended name) + amount req (Extended name)) \<le> sint (extended_cap al name))"
    (is "?L \<longleftrightarrow> ?R")
  proof
    assume l: ?L
    show ?R
    proof (intro allI impI)
      fix name
      assume nz: "amount req (Extended name) \<noteq> 0"
      then obtain want where w: "map_of (extended req) name = Some want"
        by (cases "map_of (extended req) name") (auto simp: bt_get_or_zero_def)
      then have "(name, want) \<in> set (extended req)" by (rule map_of_SomeD)
      with l w nz show "sint (amount used (Extended name) + amount req (Extended name)) \<le> sint (extended_cap al name)"
        by (auto simp: list_all_iff bt_get_or_zero_def)
    qed
  next
    assume r: ?R
    have "bt_get_or_zero (extended req) name = want" if "(name, want) \<in> set (extended req)" for name want
      using that d by (simp add: bt_get_or_zero_def)
    with r show ?L unfolding list_all_iff by fastforce
  qed
  then show ?thesis
    unfolding within_cap_def all_dims resource_fits_def Let_def by auto
qed

lemma within_cap_cong: "(\<And>d. f d = g d) \<Longrightarrow> within_cap al req f = within_cap al req g"
  by (simp add: within_cap_def)

subsection \<open>What a decision needs of the account\<close>

text \<open>
  The interface between the filters and the account of pods: a placed pod joins the pods of its node
  and no other, provided it was not accounted for before.
\<close>

locale pod_account =
  fixes account_ok :: "'t \<Rightarrow> bool"
    and knows :: "'t \<Rightarrow> string set"
    and on_node :: "'t \<Rightarrow> string \<Rightarrow> (string \<times> tallied_pod) list"
    and place :: "pending_pod \<Rightarrow> string \<Rightarrow> 't \<Rightarrow> 't"
  assumes place_ok: "account_ok t \<Longrightarrow> requests_wf (requests pod) \<Longrightarrow> account_ok (place pod node t)"
    and place_on: "account_ok t \<Longrightarrow> pod_key pod \<notin> knows t \<Longrightarrow>
      mset (on_node (place pod node t) n) =
      mset (on_node t n) + (if n = node then {#(pod_key pod, assumed_pod pod node)#} else {#})"
begin

lemma place_count:
  assumes "account_ok t" "pod_key pod \<notin> knows t"
  shows "length (on_node (place pod node t) n) = length (on_node t n) + (if n = node then 1 else 0)"
proof -
  have "size (mset (on_node (place pod node t) n)) = size (mset (on_node t n)) + (if n = node then 1 else 0)"
    unfolding place_on [OF assms] by simp
  then show ?thesis by simp
qed

lemma place_total:
  assumes "account_ok t" "pod_key pod \<notin> knows t"
  shows "total_amount (on_node (place pod node t) n) d =
    total_amount (on_node t n) d + (if n = node then amount (requests pod) d else 0)"
proof -
  have tot: "total_amount es d = (\<Sum>e \<in># mset es. amount (tp_requests (snd e)) d)" for es
    by (simp add: total_amount_def flip: sum_mset_sum_list)
  show ?thesis unfolding tot place_on [OF assms] by (simp add: assumed_pod_def)
qed

text \<open>A pod whose requests were checked against the account leaves the account within the capacity.\<close>

lemma place_within:
  assumes "account_ok t" "pod_key pod \<notin> knows t"
    and "within_cap al (requests pod) (\<lambda>d. total_amount (on_node t node) d + amount (requests pod) d)"
  shows "within_cap al (requests pod) (total_amount (on_node (place pod node t) node))"
  using assms(3) by (simp add: place_total [OF assms(1,2)] within_cap_def)

end

definition tally_knows :: "node_tally \<Rightarrow> string set" where
  "tally_knows t = fst ` set (tally_pods t)"

lemma update_fresh: "k \<notin> fst ` set m \<Longrightarrow> AList.update k v m = m @ [(k, v)]"
  by (induction m) auto

lemma residents_assume:
  "pod_key pod \<notin> tally_knows t \<Longrightarrow>
   residents (tally_assume pod node t) n =
   residents t n @ (if n = node then [(pod_key pod, assumed_pod pod node)] else [])"
  by (auto simp: residents_def tally_assume_def tally_knows_def update_fresh assumed_pod_def)

lemma tally_ok_assume [intro]: "tally_ok t \<Longrightarrow> requests_wf (requests pod) \<Longrightarrow> tally_ok (tally_assume pod node t)"
  unfolding tally_assume_def by (rule tally_ok_insert_pod) (simp_all add: assumed_pod_def)

interpretation account: pod_account tally_ok tally_knows residents tally_assume
  by unfold_locales (auto simp: residents_assume)

subsection \<open>The filters a node passes\<close>

definition ports_on :: "node_tally \<Rightarrow> string \<Rightarrow> host_port_claim list" where
  "ports_on t node = concat (map (tp_host_ports \<circ> snd) (residents t node))"

definition claims_on :: "node_tally \<Rightarrow> string \<Rightarrow> string list" where
  "claims_on t node = concat (map (tp_pvc_names \<circ> snd) (residents t node))"

definition csi_ok :: "node_tally \<Rightarrow> pending_pod \<Rightarrow> node_item \<Rightarrow> bool" where
  "csi_ok t pod n =
     (csi_volume_limits_fit (csi_driver_headroom (with_headroom t (usage_by_node t) pod n)) (csi_volume_counts pod) \<and>
      missing_required_csi_driver (csi_registered_drivers (with_drivers t pod n))
        (csi_prevent_scheduling_drivers (with_drivers t pod n)) (needed_csi_drivers pod) = None)"

text \<open>The conjunction of the filters, each over the pods tallied on the node or in the cluster.\<close>

definition suitable :: "node_tally \<Rightarrow> pending_pod \<Rightarrow> node_item \<Rightarrow> bool" where
  "suitable t pod n =
     (let by_name = node_labels_by_name (node_list t); here = residents t (node_name n) in
      node_qualifies_for_pod n pod \<and>
      affinity_qualifies (affinity_context pod (tally_pod_labels t) by_name) (node_labels n) \<and>
      list_all (spread_ok pod (node_labels n) by_name (tally_pod_labels t)) (hard_constraints pod) \<and>
      (pod_count_capacity n = 0 \<or> length here < pod_count_capacity n) \<and>
      within_cap (allocatable n) (requests pod) (\<lambda>d. total_amount here d + amount (requests pod) d) \<and>
      host_ports_fit (ports_on t (node_name n)) (host_ports pod) \<and>
      read_write_once_pod_conflict_free (claims_on t (node_name n)) (rwop_keys pod) \<and>
      csi_ok t pod n)"

abbreviation enrich :: "node_tally \<Rightarrow> pending_pod \<Rightarrow> node_item \<Rightarrow> node_item" where
  "enrich t pod n \<equiv> with_drivers t pod (with_headroom t (usage_by_node t) pod n)"

lemma enrich_fields [simp]:
  "node_name (with_headroom t us pod n) = node_name n" "node_labels (with_headroom t us pod n) = node_labels n"
  "taints (with_headroom t us pod n) = taints n" "unschedulable (with_headroom t us pod n) = unschedulable n"
  "allocatable (with_headroom t us pod n) = allocatable n" "capacity (with_headroom t us pod n) = capacity n"
  "csi_registered_drivers (with_headroom t us pod n) = csi_registered_drivers n"
  "csi_prevent_scheduling_drivers (with_headroom t us pod n) = csi_prevent_scheduling_drivers n"
  "node_name (with_drivers t pod n) = node_name n" "node_labels (with_drivers t pod n) = node_labels n"
  "taints (with_drivers t pod n) = taints n" "unschedulable (with_drivers t pod n) = unschedulable n"
  "allocatable (with_drivers t pod n) = allocatable n" "capacity (with_drivers t pod n) = capacity n"
  "csi_driver_headroom (with_drivers t pod n) = csi_driver_headroom n"
  by (simp_all add: with_headroom_def with_drivers_def split: option.split)

lemma enrich_drivers:
  "csi_registered_drivers (enrich t pod n) = csi_registered_drivers (with_drivers t pod n)"
  "csi_prevent_scheduling_drivers (enrich t pod n) = csi_prevent_scheduling_drivers (with_drivers t pod n)"
  by (simp_all add: with_drivers_def split: option.split)

lemma enrich_qualifies [simp]: "node_qualifies_for_pod (enrich t pod n) pod' = node_qualifies_for_pod n pod'"
  by (simp add: node_qualifies_for_pod_def)

lemma enrich_capacity [simp]: "pod_count_capacity (enrich t pod n) = pod_count_capacity n"
  by (simp add: pod_count_capacity_def)

lemma labels_by_name_enriched [simp]: "node_labels_by_name (enriched t pod items) = node_labels_by_name items"
  by (simp add: node_labels_by_name_def enriched_def fold_map comp_def)

lemma host_ports_fit_cong: "set ps = set qs \<Longrightarrow> host_ports_fit ps ws = host_ports_fit qs ws"
  by (simp add: host_ports_fit_def list_ex_iff)

lemma rwop_free_cong:
  "set ps = set qs \<Longrightarrow> read_write_once_pod_conflict_free ps ws = read_write_once_pod_conflict_free qs ws"
  by (simp add: read_write_once_pod_conflict_free_def)

definition decide :: "node_tally \<Rightarrow> pending_pod \<Rightarrow> node_item \<Rightarrow> verdict" where
  "decide t pod n =
     judge_node pod (affinity_context pod (tally_pod_labels t) (node_labels_by_name (node_list t)))
       (topology_context pod (tally_pod_labels t) (node_labels_by_name (node_list t)))
       (usage_of t) (enrich t pod n)"

lemma decide_Fits_iff:
  assumes "tally_ok t" "requests_wf (requests pod)"
  shows "decide t pod n = Fits \<longleftrightarrow> suitable t pod n"
proof -
  have ports: "host_ports_fit (usage_host_ports (usage_of t m)) ws = host_ports_fit (ports_on t m) ws" for m ws
    by (rule host_ports_fit_cong) (auto simp: usage_host_ports_set ports_on_def)
  have claims: "read_write_once_pod_conflict_free (usage_pvc_names (usage_of t m)) ws =
      read_write_once_pod_conflict_free (claims_on t m) ws" for m ws
    by (rule rwop_free_cong) (auto simp: usage_pvc_names_set claims_on_def)
  have fits: "resource_fits al (usage_requests (usage_of t m)) (requests pod) =
      within_cap al (requests pod) (\<lambda>d. total_amount (residents t m) d + amount (requests pod) d)" for al m
    by (simp add: resource_fits_iff [OF assms(2)] usage_amount [OF assms(1)])
  show ?thesis
    unfolding decide_def judge_node_def suitable_def csi_ok_def Let_def
      ports claims fits usage_count topology_qualifies_iff enrich_qualifies enrich_capacity enrich_fields enrich_drivers
    by (auto split: option.split)
qed

lemma map_of_node_list:
  "tally_ok t \<Longrightarrow> n \<in> set (node_list t) \<longleftrightarrow> fetch_node t (node_name n) = Some n"
  by (auto simp: tally_ok_def nodes_ok_def node_list_def fetch_node_def bt_wf_distinct image_iff)
    (force dest: map_of_SomeD)+

lemma pick_node_alt:
  "pick_node pod t =
     (case min_by_key (\<lambda>n. load_key (usage_of t (node_name n)))
        (filter (\<lambda>n. decide t pod n = Fits) (node_list t)) of
        Some n \<Rightarrow> Inr (node_name n, tally_assume pod (node_name n) t)
      | None \<Rightarrow> Inl (if list_ex (\<lambda>n. decide t pod n = Csi_Limited) (node_list t) then Max_Volume_Count
                     else (case first_missing (map (decide t pod) (node_list t)) of
                             Some driver \<Rightarrow> Driver_Missing driver | None \<Rightarrow> No_Fit)))"
proof -
  have m: "min_by_key f (map g xs) = map_option g (min_by_key (f \<circ> g) xs)"
    for f :: "node_item \<Rightarrow> int list" and g :: "node_item \<Rightarrow> node_item" and xs
    by (induction xs) (auto split: option.split)
  have u: "or_default usage_default (map_of (usage_by_node t) name) = usage_of t name" for name
    by (simp add: usage_of_def)
  have d: "decide t pod = (\<lambda>n. judge_node pod
      (affinity_context pod (tally_pod_labels t) (node_labels_by_name (node_list t)))
      (topology_context pod (tally_pod_labels t) (node_labels_by_name (node_list t)))
      (usage_of t) (enrich t pod n))"
    by (simp add: fun_eq_iff decide_def)
  show ?thesis
    unfolding pick_node_def select_and_reserve_node_def select_node_with_capacity_def Let_def
      labels_by_name_enriched u d
    by (simp add: enriched_def filter_map m comp_def list_ex_iff split: option.split)
qed

subsection \<open>Correctness of the choice\<close>

lemma filter_split:
  "filter P xs = as @ y # bs \<Longrightarrow> \<exists>us vs. xs = us @ y # vs \<and> as = filter P us \<and> P y \<and> bs = filter P vs"
proof (induction xs arbitrary: as)
  case (Cons x xs)
  show ?case
  proof (cases "P x \<and> as = []")
    case True
    then show ?thesis using Cons.prems by (intro exI [of _ "[]"] exI [of _ xs]) auto
  next
    case False
    then obtain as' where as': "filter P xs = as' @ y # bs" "as = (if P x then [x] else []) @ as'"
      using Cons.prems by (cases as) (auto split: if_splits)
    from Cons.IH [OF as'(1)] obtain us vs
      where "xs = us @ y # vs" "as' = filter P us" "P y" "bs = filter P vs" by blast
    then show ?thesis using as'(2) by (intro exI [of _ "x # us"] exI [of _ vs]) auto
  qed
qed simp

lemma filter_split_first:
  assumes "min_by_key f (filter P xs) = Some y"
  shows "\<exists>us vs. xs = us @ y # vs \<and> P y \<and> (\<forall>u \<in> set us. P u \<longrightarrow> f y < f u) \<and> (\<forall>v \<in> set vs. P v \<longrightarrow> f y \<le> f v)"
proof -
  obtain as bs where ab: "filter P xs = as @ y # bs" "\<forall>u \<in> set as. f y < f u"
    using min_by_key_first [OF assms] by blast
  obtain us vs where uv: "xs = us @ y # vs" "as = filter P us" "P y" "bs = filter P vs"
    using filter_split [OF ab(1)] by blast
  have "\<forall>x \<in> set (filter P xs). f y \<le> f x" using min_by_key_Some [OF assms] by blast
  then show ?thesis using ab(2) uv by (intro exI [of _ us] exI [of _ vs]) auto
qed

text \<open>C10: A pod is refused exactly when no cached node passes every filter. Otherwise the pod is reserved on a
  node that passes all of them and has the least load among those, by pod count and then by requested
  cpu, memory and storage; of several such nodes it is the first in the list.
\<close>

theorem pick_node_exact:
  assumes "tally_reachable t" "requests_wf (requests pod)"
  shows "case pick_node pod t of
      Inl _ \<Rightarrow> \<not> list_ex (suitable t pod) (node_list t)
    | Inr (name, t') \<Rightarrow>
        (\<exists>us n vs. node_list t = us @ n # vs \<and> node_name n = name \<and> suitable t pod n \<and>
           t' = tally_assume pod name t \<and>
           (\<forall>m \<in> set us. suitable t pod m \<longrightarrow>
              load_key (usage_of t name) < load_key (usage_of t (node_name m))) \<and>
           (\<forall>m \<in> set vs. suitable t pod m \<longrightarrow>
              load_key (usage_of t name) \<le> load_key (usage_of t (node_name m))))"
proof -
  have dec: "decide t pod n = Fits \<longleftrightarrow> suitable t pod n" for n
    using assms by (intro decide_Fits_iff tally_reachable_ok)
  show ?thesis
  proof (cases "min_by_key (\<lambda>n. load_key (usage_of t (node_name n))) (filter (\<lambda>n. suitable t pod n) (node_list t))")
    case None
    then show ?thesis by (auto simp: pick_node_alt dec min_by_key_None filter_empty_conv list_ex_iff)
  next
    case (Some n)
    from filter_split_first [OF Some] Some show ?thesis by (fastforce simp: pick_node_alt dec)
  qed
qed

definition sample_node :: "string \<Rightarrow> string \<Rightarrow> string \<Rightarrow> node_item" where
  "sample_node name pods cpu =
     \<lparr>node_name = name, node_labels = [], taints = [], unschedulable = None,
      allocatable = \<lparr>alloc_pods = pods, alloc_cpu = cpu, alloc_memory = '''', alloc_ephemeral_storage = '''',
                     alloc_extended = []\<rparr>,
      capacity = \<lparr>alloc_pods = '''', alloc_cpu = '''', alloc_memory = '''', alloc_ephemeral_storage = '''',
                  alloc_extended = []\<rparr>,
      csi_driver_headroom = [], csi_registered_drivers = {}, csi_prevent_scheduling_drivers = {}\<rparr>"

definition add_node :: "node_item \<Rightarrow> node_tally \<Rightarrow> node_tally" where
  "add_node n t = fst (apply_node_event (\<lambda>_. Some \<lparr>event_type = ''ADDED'', event_object = n\<rparr>) JNull t)"

definition cpu_pod :: "string \<Rightarrow> int \<Rightarrow> i64 \<Rightarrow> pending_pod" where
  "cpu_pod name prio cpu =
     (sample_pod name)\<lparr>priority := prio, requests := requests_default\<lparr>cpu_milli := cpu\<rparr>\<rparr>"

lemma add_node_reachable: "tally_reachable t \<Longrightarrow> tally_reachable (add_node n t)"
  unfolding add_node_def by (rule tally_reachable.node)

lemma cpu_pod_wf [simp]: "requests_wf (requests (cpu_pod name prio cpu))"
  by (simp add: cpu_pod_def requests_wf_def requests_default_def)

lemma cpu_pod_reachable: "tally_reachable t \<Longrightarrow> tally_reachable (tally_assume (cpu_pod name prio cpu) node t)"
  by (rule tally_reachable.assumes') simp_all

definition two_nodes :: node_tally where
  "two_nodes = tally_assume (cpu_pod ''q'' 0 600) ''a''
     (add_node (sample_node ''b'' ''10'' ''1'') (add_node (sample_node ''a'' ''10'' ''1'') empty_tally))"

lemma two_nodes_reachable: "tally_reachable two_nodes"
  unfolding two_nodes_def by (intro cpu_pod_reachable add_node_reachable tally_reachable.start)

theorem pick_node_exact_witness:
  "(\<exists>us n vs. node_list two_nodes = us @ n # vs \<and> node_name n = ''b'' \<and> suitable two_nodes (cpu_pod ''p'' 0 500) n) \<and>
   \<not> list_ex (suitable two_nodes (cpu_pod ''p'' 0 1500)) (node_list two_nodes)"
proof -
  have a: "case pick_node (cpu_pod ''p'' 0 500) two_nodes of Inl _ \<Rightarrow> False | Inr (name, _) \<Rightarrow> name = ''b''"
    by code_simp
  have b: "case pick_node (cpu_pod ''p'' 0 1500) two_nodes of Inl _ \<Rightarrow> True | Inr _ \<Rightarrow> False"
    by code_simp
  show ?thesis
    using pick_node_exact [OF two_nodes_reachable, of "cpu_pod ''p'' 0 500"]
      pick_node_exact [OF two_nodes_reachable, of "cpu_pod ''p'' 0 1500"] a b
    by (auto split: sum.splits)
qed

text \<open>The requests summed as integers, without the wrap-around of \<^verbatim>\<open>i64\<close>.\<close>

definition exact_amount :: "(string \<times> tallied_pod) list \<Rightarrow> dim \<Rightarrow> int" where
  "exact_amount es d = (\<Sum>e \<leftarrow> es. sint (amount (tp_requests (snd e)) d))"

lemma total_amount_exact: "in_i64 (exact_amount es d) \<Longrightarrow> sint (total_amount es d) = exact_amount es d"
proof -
  have "total_amount es d = word_of_int (exact_amount es d)"
    by (induction es) (simp_all add: total_amount_def exact_amount_def)
  then show "in_i64 (exact_amount es d) \<Longrightarrow> sint (total_amount es d) = exact_amount es d"
    by (simp only: sint_word_of_int)
qed

lemma within_exact:
  assumes "within_cap al req (total_amount es)" and "\<forall>d. in_i64 (exact_amount es d)"
  shows "\<forall>d. dim_binds al req d \<longrightarrow> exact_amount es d \<le> sint (dim_cap al d)"
  using assms total_amount_exact by (fastforce simp: within_cap_def)

text \<open>C11: A direct scheduling decision does not overcommit the node it picks. Let the tally not know the pod yet, and let
  the requests of the pods on the node, the new one included, sum up within an \<^verbatim>\<open>i64\<close> in every dimension. With the
  pod reserved, the pods the tally has on the node are no more than its pod capacity, and their requests, summed as
  integers, are within the node's allocatable amount in every dimension with a known capacity and every extended
  resource the pod asks for. The node is cached, qualifies for the pod, satisfies its anti-affinity and topology
  constraints, and no pod on it holds a host port or an exclusive claim the pod wants.
\<close>

theorem pick_node_no_overcommit:
  assumes "tally_reachable t" "requests_wf (requests pod)" "pod_key pod \<notin> tally_knows t"
    and "pick_node pod t = Inr (name, t')" and "\<forall>d. in_i64 (exact_amount (residents t' name) d)"
  shows "\<exists>n. fetch_node t name = Some n \<and> node_qualifies_for_pod n pod \<and>
    (pod_count_capacity n = 0 \<or> length (residents t' name) \<le> pod_count_capacity n) \<and>
    (\<forall>d. dim_binds (allocatable n) (requests pod) d \<longrightarrow>
       exact_amount (residents t' name) d \<le> sint (dim_cap (allocatable n) d)) \<and>
    host_ports_fit (ports_on t name) (host_ports pod) \<and>
    read_write_once_pod_conflict_free (claims_on t name) (rwop_keys pod) \<and>
    affinity_qualifies (affinity_context pod (tally_pod_labels t) (node_labels_by_name (node_list t))) (node_labels n) \<and>
    list_all (spread_ok pod (node_labels n) (node_labels_by_name (node_list t)) (tally_pod_labels t))
      (hard_constraints pod)"
proof -
  have ok: "tally_ok t" using assms(1) by (rule tally_reachable_ok)
  have "\<exists>n. n \<in> set (node_list t) \<and> node_name n = name \<and> suitable t pod n \<and> t' = tally_assume pod name t"
    using assms(4) min_by_key_Some
    by (fastforce simp: pick_node_alt decide_Fits_iff [OF ok assms(2)] split: option.splits)
  then obtain n where n: "n \<in> set (node_list t)" "node_name n = name" "suitable t pod n"
    and t': "t' = tally_assume pod name t" by blast
  have "fetch_node t name = Some n" using map_of_node_list [OF ok, of n] n(1,2) by simp
  moreover have "length (residents t' name) = length (residents t name) + 1"
    unfolding t' using account.place_count [OF ok assms(3), of name name] by simp
  moreover have "within_cap (allocatable n) (requests pod) (total_amount (residents t' name))"
    unfolding t' using n(2,3) by (intro account.place_within [OF ok assms(3)]) (simp add: suitable_def Let_def)
  then have "\<forall>d. dim_binds (allocatable n) (requests pod) d \<longrightarrow>
      exact_amount (residents t' name) d \<le> sint (dim_cap (allocatable n) d)"
    using assms(5) by (rule within_exact)
  ultimately show ?thesis using n(2,3) unfolding suitable_def Let_def by auto
qed

lemma exact_amount_cpu:
  "in_i64 (sint x) \<Longrightarrow> requests q = requests_default\<lparr>cpu_milli := x\<rparr> \<Longrightarrow>
     in_i64 (exact_amount [(k, assumed_pod q node)] d)"
  by (cases d) (simp_all add: exact_amount_def assumed_pod_def requests_default_def bt_get_or_zero_def in_i64_def)

theorem pick_node_no_overcommit_witness:
  "\<exists>t'. pick_node (cpu_pod ''p'' 0 500) two_nodes = Inr (''b'', t') \<and>
     (\<exists>n. fetch_node two_nodes ''b'' = Some n \<and> dim_binds (allocatable n) (requests (cpu_pod ''p'' 0 500)) Cpu \<and>
       exact_amount (residents t' ''b'') Cpu \<le> sint (dim_cap (allocatable n) Cpu))"
proof -
  let ?p = "cpu_pod ''p'' 0 500"
  have "case pick_node ?p two_nodes of Inl _ \<Rightarrow> False | Inr (name, t') \<Rightarrow> name = ''b'' \<and>
      residents t' ''b'' = [(pod_key ?p, assumed_pod ?p ''b'')]" by code_simp
  then obtain t' where pick: "pick_node ?p two_nodes = Inr (''b'', t')" and r: "residents t' ''b'' = [(pod_key ?p, assumed_pod ?p ''b'')]"
    by (auto split: sum.splits)
  have "requests ?p = requests_default\<lparr>cpu_milli := 500\<rparr>" by (simp add: cpu_pod_def)
  then have sums: "\<forall>d. in_i64 (exact_amount (residents t' ''b'') d)"
    unfolding r by (intro allI exact_amount_cpu) (simp_all add: in_i64_def)
  have known: "pod_key ?p \<notin> tally_knows two_nodes" by code_simp
  have "case fetch_node two_nodes ''b'' of None \<Rightarrow> False | Some n \<Rightarrow> dim_binds (allocatable n) (requests ?p) Cpu" by code_simp
  then obtain n where n: "fetch_node two_nodes ''b'' = Some n" "dim_binds (allocatable n) (requests ?p) Cpu"
    by (cases "fetch_node two_nodes ''b''") (simp_all del: dim_binds.simps)
  have "exact_amount (residents t' ''b'') Cpu \<le> sint (dim_cap (allocatable n) Cpu)"
    using pick_node_no_overcommit [OF two_nodes_reachable cpu_pod_wf known pick sums] n by (metis option.inject)
  with n pick show ?thesis by blast
qed

subsection \<open>Two placements that should not happen\<close>

definition claim_holder :: "string \<Rightarrow> pending_pod" where
  "claim_holder name = (cpu_pod name 0 100)\<lparr>pvc_names := [''v''], read_write_once_pod_pvcs := [''v'']\<rparr>"

definition claim_held :: node_tally where
  "claim_held = tally_assume (claim_holder ''q'') ''a''
     (add_node (sample_node ''b'' ''10'' ''1'') (add_node (sample_node ''a'' ''10'' ''1'') empty_tally))"

text \<open>
  The check for a claim only one pod may use looks at the candidate node alone. With the claim held by a
  pod on one node, a second pod that wants it is placed on another node, and both are tallied with
  the same claim.
\<close>

theorem exclusive_claim_shared:
  "case pick_node (claim_holder ''p'') claim_held of
     Inl _ \<Rightarrow> False
   | Inr (name, t') \<Rightarrow> name = ''b'' \<and> claims_on t' ''a'' = [''d/v''] \<and> claims_on t' ''b'' = [''d/v'']"
  by code_simp

definition huge_spec :: pod_spec where
  "huge_spec = pod_spec_default\<lparr>spec_containers :=
     [\<lparr>container_requests = [(''memory'', ''9P'')], container_ports = None\<rparr>,
      \<lparr>container_requests = [(''memory'', ''9P'')], container_ports = None\<rparr>]\<rparr>"

text \<open>
  Requests are summed without an overflow check. In a release build a pod whose two containers ask for
  nine petabytes of memory each has a negative total, and it fits on an empty node that has one
  gibibyte.
\<close>

theorem summed_requests_wrap:
  "sint (memory_milli (pod_total_requests huge_spec)) < 0 \<and>
   resource_fits \<lparr>alloc_pods = '''', alloc_cpu = '''', alloc_memory = ''1Gi'', alloc_ephemeral_storage = '''',
                  alloc_extended = []\<rparr> requests_default (pod_total_requests huge_spec)"
  by code_simp

end
