(* ===== verification/Sched_Preempt.thy ===== *)
theory Sched_Preempt
  imports Sched_Select
begin

text \<open>
  Preemption (\<^verbatim>\<open>crates/scheduler/src/lib.rs\<close>): choosing victims on one node, searching the
  nodes for the cheapest plan, committing a plan under the lock, and checking a deferred plan again
  before its bind. Victims have strictly lower priority, are enough and no more than needed, and a
  committed plan leaves the node's unclaimed pods within its capacity.
\<close>

subsection \<open>Victims on one node\<close>

definition short_of :: "i64 \<Rightarrow> i64 \<Rightarrow> i64 \<Rightarrow> bool" where
  "short_of cap used want = (cap \<noteq> 0 \<and> sint cap < sint (used + want))"

definition resource_deficiency_relevant ::
  "node_allocatable \<Rightarrow> resource_requests \<Rightarrow> resource_requests \<Rightarrow> resource_requests \<Rightarrow> bool" where
  "resource_deficiency_relevant al total_used pending candidate =
     (short_of (parse_quantity_milli (alloc_cpu al)) (cpu_milli total_used) (cpu_milli pending) \<and>
        0 < sint (cpu_milli candidate) \<or>
      short_of (parse_quantity_milli (alloc_memory al)) (memory_milli total_used) (memory_milli pending) \<and>
        0 < sint (memory_milli candidate) \<or>
      short_of (parse_quantity_milli (alloc_ephemeral_storage al)) (ephemeral_storage_milli total_used)
        (ephemeral_storage_milli pending) \<and> 0 < sint (ephemeral_storage_milli candidate) \<or>
      list_ex (\<lambda>(name, want). want \<noteq> 0 \<and>
          sint (extended_cap al name) < sint (bt_get_or_zero (extended total_used) name + want) \<and>
          0 < sint (bt_get_or_zero (extended candidate) name))
        (extended pending))"

definition admits :: "node_allocatable \<Rightarrow> nat \<Rightarrow> resource_requests \<Rightarrow> nat \<Rightarrow> resource_requests \<Rightarrow> bool" where
  "admits al cap pending num used =
     ((cap = 0 \<or> num < cap) \<and> resource_fits al used pending)"

definition sum_requests :: "node_pod list \<Rightarrow> resource_requests" where
  "sum_requests pods = foldl (\<lambda>acc p. requests_add acc (np_requests p)) requests_default pods"

fun evict_loop ::
  "(nat \<Rightarrow> resource_requests \<Rightarrow> bool) \<Rightarrow> node_pod list \<Rightarrow> nat \<Rightarrow> resource_requests \<Rightarrow> string list \<Rightarrow>
   nat \<times> resource_requests \<times> string list" where
  "evict_loop fits [] num used victims = (num, used, victims)"
| "evict_loop fits (c # cs) num used victims =
     (if fits num used then (num, used, victims)
      else evict_loop fits cs (num - 1) (subtract_requests used (np_requests c)) (victims @ [np_key c]))"

definition victim_candidates ::
  "int \<Rightarrow> resource_requests \<Rightarrow> node_pod list \<Rightarrow> nat \<Rightarrow> node_allocatable \<Rightarrow> node_pod list" where
  "victim_candidates prio pending pods cap al =
     sort_key np_priority
       (filter (\<lambda>p. np_priority p < prio \<and>
            ((cap \<noteq> 0 \<and> cap \<le> length pods) \<or>
             resource_deficiency_relevant al (sum_requests pods) pending (np_requests p))) pods)"

definition select_preemption_victims ::
  "int \<Rightarrow> resource_requests \<Rightarrow> node_pod list \<Rightarrow> nat \<Rightarrow> node_allocatable \<Rightarrow> string list" where
  "select_preemption_victims prio pending pods cap al =
     (let fits = admits al cap pending;
          (num, used, victims) =
            evict_loop fits (victim_candidates prio pending pods cap al) (length pods) (sum_requests pods) []
      in if fits num used then victims else [])"

definition read_write_once_pod_preemption_victims ::
  "node_pod list \<Rightarrow> string list \<Rightarrow> int \<Rightarrow> string list option" where
  "read_write_once_pod_preemption_victims pods rwop prio =
     (if rwop = [] then Some []
      else
        (let conflicting = filter (\<lambda>p. list_ex (\<lambda>name. name \<in> set rwop) (np_pvc_names p)) pods
         in if list_ex (\<lambda>p. prio \<le> np_priority p) conflicting then None
            else Some (map np_key conflicting)))"

subsection \<open>Plans\<close>

record preemption_plan =
  pp_node_name :: string
  pp_victims :: "string list"

definition plan_on_node ::
  "pending_pod \<Rightarrow> tallied_pod_labels list \<Rightarrow> labels_by_name \<Rightarrow> node_tally \<Rightarrow> node_item \<Rightarrow> preemption_plan option" where
  "plan_on_node pod tallied by_name t node =
     (let pods = pods_on t (node_name node);
          csi_fits = (csi_volume_counts pod = [] \<or>
            csi_volume_limits_fit (fresh_csi_headroom_for_node t (node_name node)) (csi_volume_counts pod));
          topology_fits = (needed_csi_drivers pod = [] \<or>
            missing_required_csi_driver (fresh_csi_registered_drivers_for_node t (node_name node))
              (csi_prevent_scheduling t) (needed_csi_drivers pod) = None);
          base = select_preemption_victims (priority pod) (requests pod) pods (pod_count_capacity node)
                   (allocatable node)
      in if \<not> node_qualifies_for_pod node pod then None
         else if \<not> csi_fits \<or> \<not> topology_fits then None
         else
           (case read_write_once_pod_preemption_victims pods (rwop_keys pod) (priority pod) of
              None \<Rightarrow> None
            | Some rwop \<Rightarrow>
                (let victims = fold (\<lambda>v vs. if v \<in> set vs then vs else vs @ [v]) rwop base;
                     victim_pods = filter (\<lambda>p. tallied_key p \<in> set victims) tallied
                 in if victims = [] then None
                    else if \<not> affinity_qualifies_excluding_victims (affinity_context pod tallied by_name)
                           (node_labels node) victim_pods then None
                    else if \<not> topology_qualifies_excluding_victims pod (topology_context pod tallied by_name)
                           (node_labels node) victim_pods then None
                    else Some \<lparr>pp_node_name = node_name node, pp_victims = victims\<rparr>)))"

fun cheapest ::
  "(node_item \<Rightarrow> preemption_plan option) \<Rightarrow> node_item list \<Rightarrow> (node_item \<times> preemption_plan) option \<Rightarrow>
   (node_item \<times> preemption_plan) option" where
  "cheapest f [] best = best"
| "cheapest f (n # ns) best =
     (case f n of
        None \<Rightarrow> cheapest f ns best
      | Some plan \<Rightarrow>
          cheapest f ns
            (case best of
               None \<Rightarrow> Some (n, plan)
             | Some (_, b) \<Rightarrow>
                 if length (pp_victims plan) < length (pp_victims b) then Some (n, plan) else best))"

definition find_preemption_candidate ::
  "node_item list \<Rightarrow> pending_pod \<Rightarrow> tallied_pod_labels list \<Rightarrow> labels_by_name \<Rightarrow> node_tally \<Rightarrow>
   (node_item \<times> preemption_plan) option" where
  "find_preemption_candidate items pod tallied by_name t =
     cheapest (plan_on_node pod tallied by_name t) items None"

fun without_victims :: "node_pod list \<Rightarrow> string list \<Rightarrow> nat \<Rightarrow> resource_requests \<Rightarrow> nat \<times> resource_requests" where
  "without_victims pods [] num used = (num, used)"
| "without_victims pods (v # vs) num used =
     (case List.find (\<lambda>p. np_key p = v) pods of
        Some p \<Rightarrow> without_victims pods vs (num - 1) (subtract_requests used (np_requests p))
      | None \<Rightarrow> without_victims pods vs num used)"

definition verify_and_reserve_preemption ::
  "pending_pod \<Rightarrow> node_item \<Rightarrow> preemption_plan \<Rightarrow> node_tally \<Rightarrow> node_tally option" where
  "verify_and_reserve_preemption pod node plan t =
     (let pods = pods_on t (pp_node_name plan);
          (num, used) = without_victims pods (pp_victims plan) (length pods) (sum_requests pods)
      in if \<not> admits (allocatable node) (pod_count_capacity node) (requests pod) num used then None
         else if csi_volume_counts pod \<noteq> [] \<and>
           \<not> csi_volume_limits_fit (fresh_csi_headroom_for_node t (pp_node_name plan)) (csi_volume_counts pod) then None
         else Some (claim_victims (pp_victims plan) (tally_assume pod (pp_node_name plan) t)))"

definition find_preemption_plan :: "pending_pod \<Rightarrow> node_tally \<Rightarrow> (preemption_plan \<times> node_tally) option" where
  "find_preemption_plan pod t =
     (case find_preemption_candidate (node_list t) pod (tally_pod_labels t)
             (node_labels_by_name (node_list t)) t of
        None \<Rightarrow> None
      | Some (node, plan) \<Rightarrow> map_option (Pair plan) (verify_and_reserve_preemption pod node plan t))"

definition preemption_reservation_still_fits :: "pending_pod \<Rightarrow> node_item \<Rightarrow> node_tally \<Rightarrow> bool" where
  "preemption_reservation_still_fits pod node t =
     (let others = filter (\<lambda>p. np_key p \<noteq> pod_key pod) (pods_on t (node_name node))
      in admits (allocatable node) (pod_count_capacity node) (requests pod) (length others) (sum_requests others))"

subsection \<open>Sums over the pods of a node\<close>

definition pods_total :: "node_pod list \<Rightarrow> dim \<Rightarrow> i64" where
  "pods_total pods d = (\<Sum>p \<leftarrow> pods. amount (np_requests p) d)"

definition pods_wf :: "node_pod list \<Rightarrow> bool" where
  "pods_wf pods = (distinct (map np_key pods) \<and> (\<forall>p \<in> set pods. requests_wf (np_requests p)))"

lemma foldl_requests_add:
  assumes "\<forall>p \<in> set pods. requests_wf (np_requests p)"
  shows "amount (foldl (\<lambda>acc p. requests_add acc (np_requests p)) u pods) d = amount u d + pods_total pods d \<and>
    names (foldl (\<lambda>acc p. requests_add acc (np_requests p)) u pods) = names u \<union> (\<Union>p \<in> set pods. names (np_requests p)) \<and>
    (requests_wf u \<longrightarrow> requests_wf (foldl (\<lambda>acc p. requests_add acc (np_requests p)) u pods))"
  using assms
proof (induction pods arbitrary: u)
  case (Cons p pods)
  then show ?case using Cons.IH [of "requests_add u (np_requests p)"] by (auto simp: pods_total_def)
qed (simp add: pods_total_def)

lemma amount_sum_requests:
  "\<forall>p \<in> set pods. requests_wf (np_requests p) \<Longrightarrow> amount (sum_requests pods) d = pods_total pods d"
  by (simp add: sum_requests_def foldl_requests_add)

lemma names_sum_requests:
  "\<forall>p \<in> set pods. requests_wf (np_requests p) \<Longrightarrow> names (sum_requests pods) = (\<Union>p \<in> set pods. names (np_requests p))"
  by (simp add: sum_requests_def foldl_requests_add)

lemma pods_total_mset: "mset ps = mset qs \<Longrightarrow> pods_total ps d = pods_total qs d"
  by (simp add: pods_total_def flip: sum_mset_sum_list)

lemma pods_total_append: "pods_total (ps @ qs) d = pods_total ps d + pods_total qs d"
  by (simp add: pods_total_def)

lemma pods_total_split: "pods_total pods d = pods_total (filter P pods) d + pods_total (filter (\<lambda>p. \<not> P p) pods) d"
  by (induction pods) (auto simp: pods_total_def)

lemma admits_iff:
  "requests_wf pending \<Longrightarrow> admits al cap pending num used \<longleftrightarrow>
   (cap = 0 \<or> num < cap) \<and> within_cap al pending (\<lambda>d. amount used d + amount pending d)"
  by (simp add: admits_def resource_fits_iff)

text \<open>A node admits a pod next to some pods.\<close>

definition admits_beside :: "node_allocatable \<Rightarrow> nat \<Rightarrow> resource_requests \<Rightarrow> node_pod list \<Rightarrow> bool" where
  "admits_beside al cap pending pods =
     ((cap = 0 \<or> length pods < cap) \<and> within_cap al pending (\<lambda>d. pods_total pods d + amount pending d))"

lemma admits_sum:
  "requests_wf pending \<Longrightarrow> \<forall>p \<in> set pods. requests_wf (np_requests p) \<Longrightarrow>
   admits al cap pending (length pods) (sum_requests pods) \<longleftrightarrow> admits_beside al cap pending pods"
  by (simp add: admits_iff admits_beside_def amount_sum_requests)

lemma admits_beside_mset:
  assumes "mset ps = mset qs"
  shows "admits_beside al cap pending ps = admits_beside al cap pending qs"
proof -
  have "length ps = length qs" using assms by (rule mset_eq_length)
  then show ?thesis using pods_total_mset [OF assms] by (simp add: admits_beside_def)
qed

subsection \<open>The eviction loop\<close>

definition evicted :: "resource_requests \<Rightarrow> node_pod list \<Rightarrow> resource_requests" where
  "evicted used cs = foldl (\<lambda>u c. subtract_requests u (np_requests c)) used cs"

lemma evicted_simps [simp]:
  "evicted u [] = u" "evicted u (c # cs) = evicted (subtract_requests u (np_requests c)) cs"
  by (simp_all add: evicted_def)

lemma amount_evicted:
  "\<forall>c \<in> set cs. requests_wf (np_requests c) \<and> names (np_requests c) \<subseteq> names u \<Longrightarrow>
   amount (evicted u cs) d = amount u d - pods_total cs d"
  by (induction cs arbitrary: u) (simp_all add: amount_subtract pods_total_def)

lemma evict_loop_prefix:
  "\<exists>k \<le> length cs. evict_loop fits cs n u vs = (n - k, evicted u (take k cs), vs @ map np_key (take k cs)) \<and>
     (\<forall>j < k. \<not> fits (n - j) (evicted u (take j cs))) \<and>
     (k < length cs \<longrightarrow> fits (n - k) (evicted u (take k cs)))"
proof (induction cs arbitrary: n u vs)
  case (Cons c cs)
  show ?case
  proof (cases "fits n u")
    case True
    then show ?thesis by (intro exI [of _ 0]) simp
  next
    case False
    obtain k where k: "k \<le> length cs"
      "evict_loop fits cs (n - 1) (subtract_requests u (np_requests c)) (vs @ [np_key c]) =
        (n - 1 - k, evicted (subtract_requests u (np_requests c)) (take k cs), (vs @ [np_key c]) @ map np_key (take k cs))"
      "\<forall>j < k. \<not> fits (n - 1 - j) (evicted (subtract_requests u (np_requests c)) (take j cs))"
      "k < length cs \<longrightarrow> fits (n - 1 - k) (evicted (subtract_requests u (np_requests c)) (take k cs))"
      using Cons.IH [of "n - 1" "subtract_requests u (np_requests c)" "vs @ [np_key c]"] by blast
    have "\<not> fits (n - j) (evicted u (take j (c # cs)))" if "j < Suc k" for j
      using that False k(3) by (cases j) auto
    then show ?thesis using False k(1,2,4) by (intro exI [of _ "Suc k"]) auto
  qed
qed simp

lemma mset_split_keys:
  assumes "distinct (map np_key pods)" "distinct es" "set es \<subseteq> set pods" "np_key ` set es = K"
  shows "mset es = mset (filter (\<lambda>p. np_key p \<in> K) pods)"
proof (rule set_eq_iff_mset_eq_distinct [THEN iffD1])
  have "distinct pods" using assms(1) by (simp add: distinct_map)
  then show "distinct (filter (\<lambda>p. np_key p \<in> K) pods)" by simp
  show "distinct es" by (rule assms(2))
  have inj: "inj_on np_key (set pods)" using assms(1) by (simp add: distinct_map)
  show "set es = set (filter (\<lambda>p. np_key p \<in> K) pods)"
    using inj assms(3,4) by (auto dest: inj_onD)
qed

text \<open>Evicting some of the node's pods leaves the amounts and the number of the others.\<close>

lemma admits_evicted:
  assumes wf: "pods_wf pods" and pend: "requests_wf pending" and es: "distinct es" "set es \<subseteq> set pods"
  shows "admits al cap pending (length pods - length es) (evicted (sum_requests pods) es) \<longleftrightarrow>
    admits_beside al cap pending (filter (\<lambda>p. np_key p \<notin> np_key ` set es) pods)"
proof -
  let ?K = "np_key ` set es"
  have es': "mset es = mset (filter (\<lambda>p. np_key p \<in> ?K) pods)"
    using wf es by (intro mset_split_keys) (simp_all add: pods_wf_def)
  then have "length es = length (filter (\<lambda>p. np_key p \<in> ?K) pods)" by (rule mset_eq_length)
  then have len: "length pods - length es = length (filter (\<lambda>p. np_key p \<notin> ?K) pods)"
    using sum_length_filter_compl [of "\<lambda>p. np_key p \<in> ?K" pods] by simp
  have all: "\<forall>p \<in> set pods. requests_wf (np_requests p)" using wf by (simp add: pods_wf_def)
  have "\<forall>c \<in> set es. requests_wf (np_requests c) \<and> names (np_requests c) \<subseteq> names (sum_requests pods)"
    using es(2) all by (auto simp: names_sum_requests [OF all])
  then have "amount (evicted (sum_requests pods) es) d = pods_total (filter (\<lambda>p. np_key p \<notin> ?K) pods) d" for d
    using pods_total_split [of pods d "\<lambda>p. np_key p \<in> ?K"] pods_total_mset [OF es', of d]
    by (simp add: amount_evicted amount_sum_requests [OF all])
  then show ?thesis by (simp add: admits_iff [OF pend] admits_beside_def len)
qed

subsection \<open>The victims of a node\<close>

definition remaining :: "node_pod list \<Rightarrow> string list \<Rightarrow> node_pod list" where
  "remaining pods victims = filter (\<lambda>p. np_key p \<notin> set victims) pods"

lemma candidates_set:
  "set (victim_candidates prio pending pods cap al) \<subseteq> {p \<in> set pods. np_priority p < prio}"
  by (auto simp: victim_candidates_def)

lemma candidates_distinct: "pods_wf pods \<Longrightarrow> distinct (victim_candidates prio pending pods cap al)"
  by (simp add: victim_candidates_def pods_wf_def distinct_map)

text \<open>
  The loop evicts a prefix of the candidates: it stops at the first one that is enough, or has
  evicted all of them.
\<close>

lemma select_victims_prefix:
  fixes prio cap al
  assumes wf: "pods_wf pods" and pend: "requests_wf pending"
  defines "cs \<equiv> victim_candidates prio pending pods cap al"
  obtains k where "k \<le> length cs"
    "\<forall>j < k. \<not> admits_beside al cap pending (remaining pods (map np_key (take j cs)))"
    "k < length cs \<Longrightarrow> admits_beside al cap pending (remaining pods (map np_key (take k cs)))"
    "select_preemption_victims prio pending pods cap al =
      (if admits_beside al cap pending (remaining pods (map np_key (take k cs))) then map np_key (take k cs) else [])"
proof -
  have state: "admits al cap pending (length pods - j) (evicted (sum_requests pods) (take j cs)) \<longleftrightarrow>
      admits_beside al cap pending (remaining pods (map np_key (take j cs)))" if "j \<le> length cs" for j
  proof -
    have d: "distinct (take j cs)" using candidates_distinct [OF wf] by (simp add: cs_def)
    have s: "set (take j cs) \<subseteq> set pods"
      using candidates_set [of prio pending pods cap al] set_take_subset [of j cs] unfolding cs_def by blast
    show ?thesis
      using admits_evicted [OF wf pend d s, of al cap] that by (simp add: remaining_def min_absorb2)
  qed
  obtain k where k: "k \<le> length cs"
    "evict_loop (admits al cap pending) cs (length pods) (sum_requests pods) [] =
      (length pods - k, evicted (sum_requests pods) (take k cs), map np_key (take k cs))"
    "\<forall>j < k. \<not> admits al cap pending (length pods - j) (evicted (sum_requests pods) (take j cs))"
    "k < length cs \<longrightarrow> admits al cap pending (length pods - k) (evicted (sum_requests pods) (take k cs))"
    using evict_loop_prefix [of cs "admits al cap pending" "length pods" "sum_requests pods" "[]"] by auto
  show thesis
  proof (rule that [OF k(1)])
    show "select_preemption_victims prio pending pods cap al =
      (if admits_beside al cap pending (remaining pods (map np_key (take k cs))) then map np_key (take k cs) else [])"
      using k(2) state [OF k(1)] by (simp add: select_preemption_victims_def cs_def [symmetric])
  qed (use k state in auto)
qed

text \<open>C14: The victims chosen on a node are pods of that node with strictly lower priority than the pending pod.
  Without them the node has room for the pending pod in every dimension, and without the last of them
  it would not: no more pods are evicted than the order by priority requires.
\<close>

theorem victims_sufficient_and_needed:
  assumes "pods_wf pods" "requests_wf pending"
    and "select_preemption_victims prio pending pods cap al = victims" "victims \<noteq> []"
  shows "set victims \<subseteq> np_key ` {p \<in> set pods. np_priority p < prio} \<and>
    admits_beside al cap pending (remaining pods victims) \<and>
    \<not> admits_beside al cap pending (remaining pods (butlast victims))"
proof (rule select_victims_prefix [OF assms(1,2), of prio cap al])
  let ?cs = "victim_candidates prio pending pods cap al"
  fix k
  assume k: "k \<le> length ?cs"
    and before: "\<forall>j < k. \<not> admits_beside al cap pending (remaining pods (map np_key (take j ?cs)))"
    and sel: "select_preemption_victims prio pending pods cap al =
      (if admits_beside al cap pending (remaining pods (map np_key (take k ?cs))) then map np_key (take k ?cs) else [])"
  have v: "victims = map np_key (take k ?cs)" "admits_beside al cap pending (remaining pods victims)"
    using sel assms(3,4) by (auto split: if_splits)
  then have "0 < k" using assms(4) by (cases k) auto
  then have "butlast victims = map np_key (take (k - 1) ?cs)"
    using k v(1) by (simp add: take_map [symmetric] butlast_take)
  then have "\<not> admits_beside al cap pending (remaining pods (butlast victims))" using before \<open>0 < k\<close> by simp
  moreover have "set victims \<subseteq> np_key ` {p \<in> set pods. np_priority p < prio}"
    using candidates_set [of prio pending pods cap al] set_take_subset [of k ?cs] unfolding v(1) by auto
  ultimately show ?thesis using v(2) by blast
qed

definition np_pod :: "string \<Rightarrow> int \<Rightarrow> i64 \<Rightarrow> node_pod" where
  "np_pod key prio cpu =
     \<lparr>np_key = key, np_priority = prio, np_requests = requests_default\<lparr>cpu_milli := cpu\<rparr>, np_pvc_names = []\<rparr>"

theorem victims_sufficient_and_needed_witness:
  "select_preemption_victims 5 (requests_default\<lparr>cpu_milli := 500\<rparr>)
     [np_pod ''d/a'' 1 400, np_pod ''d/b'' 9 300, np_pod ''d/c'' 0 200] 0 (allocatable (sample_node ''n'' '''' ''1''))
     = [''d/c'', ''d/a''] \<and>
   \<not> admits_beside (allocatable (sample_node ''n'' '''' ''1'')) 0 (requests_default\<lparr>cpu_milli := 500\<rparr>)
     (remaining [np_pod ''d/a'' 1 400, np_pod ''d/b'' 9 300, np_pod ''d/c'' 0 200] [''d/c''])"
proof -
  have sel: "select_preemption_victims 5 (requests_default\<lparr>cpu_milli := 500\<rparr>)
     [np_pod ''d/a'' 1 400, np_pod ''d/b'' 9 300, np_pod ''d/c'' 0 200] 0 (allocatable (sample_node ''n'' '''' ''1''))
     = [''d/c'', ''d/a'']"
    by code_simp
  have "pods_wf [np_pod ''d/a'' 1 400, np_pod ''d/b'' 9 300, np_pod ''d/c'' 0 200]"
    "requests_wf (requests_default\<lparr>cpu_milli := 500\<rparr>)"
    by (simp_all add: pods_wf_def np_pod_def requests_wf_def requests_default_def)
  from victims_sufficient_and_needed [OF this sel] sel show ?thesis by simp
qed

subsection \<open>A node that can make room is found\<close>

definition int_total :: "node_pod list \<Rightarrow> dim \<Rightarrow> int" where
  "int_total pods d = (\<Sum>p \<leftarrow> pods. sint (amount (np_requests p) d))"

text \<open>No amount is negative, and adding the pending pod to all the pods does not overflow.\<close>

definition no_overflow :: "node_pod list \<Rightarrow> resource_requests \<Rightarrow> bool" where
  "no_overflow pods pending =
     (\<forall>d. (\<forall>p \<in> set pods. 0 \<le> sint (amount (np_requests p) d)) \<and> 0 \<le> sint (amount pending d) \<and>
          int_total pods d + sint (amount pending d) < 2 ^ 63)"

lemma sint_plus:
  assumes "in_i64 (sint a + sint b)"
  shows "sint (a + b :: i64) = sint a + sint b"
proof -
  have "a + b = word_of_int (sint a + sint b)" by simp
  then show ?thesis using sint_word_of_int [OF assms] by simp
qed

lemma int_total_nonneg: "\<forall>p \<in> set pods. 0 \<le> sint (amount (np_requests p) d) \<Longrightarrow> 0 \<le> int_total pods d"
  unfolding int_total_def by (rule sum_list_nonneg) auto

lemma int_total_filter_le:
  "\<forall>p \<in> set pods. 0 \<le> sint (amount (np_requests p) d) \<Longrightarrow> int_total (filter P pods) d \<le> int_total pods d"
  by (induction pods) (auto simp: int_total_def)

lemma sint_pods_total:
  assumes "\<forall>p \<in> set pods. 0 \<le> sint (amount (np_requests p) d)" "0 \<le> w" "int_total pods d + w < 2 ^ 63"
  shows "sint (pods_total pods d) = int_total pods d"
  using assms
proof (induction pods arbitrary: w)
  case (Cons p pods)
  have "0 \<le> int_total pods d" using Cons.prems(1) by (intro int_total_nonneg) auto
  moreover have "sint (pods_total pods d) = int_total pods d"
    using Cons.prems by (intro Cons.IH [of "sint (amount (np_requests p) d) + w"]) (auto simp: int_total_def)
  ultimately show ?case
    using Cons.prems sint_plus [of "amount (np_requests p) d" "pods_total pods d"]
    by (auto simp: pods_total_def int_total_def in_i64_def)
qed (simp add: pods_total_def int_total_def)

lemma sint_pods_plus:
  assumes "no_overflow pods pending"
  shows "sint (pods_total (filter P pods) d + amount pending d) =
    int_total (filter P pods) d + sint (amount pending d)"
proof -
  have nn: "\<forall>p \<in> set pods. 0 \<le> sint (amount (np_requests p) d)" "0 \<le> sint (amount pending d)"
      "int_total pods d + sint (amount pending d) < 2 ^ 63"
    using assms by (auto simp: no_overflow_def)
  have le: "int_total (filter P pods) d \<le> int_total pods d" using nn(1) by (rule int_total_filter_le)
  have "0 \<le> int_total (filter P pods) d" using nn(1) by (intro int_total_nonneg) auto
  moreover have "sint (pods_total (filter P pods) d) = int_total (filter P pods) d"
    using nn le by (intro sint_pods_total [where w = "sint (amount pending d)"]) auto
  ultimately show ?thesis
    using nn le by (subst sint_plus) (auto simp: in_i64_def)
qed

lemma sint_pods_plus_all:
  "no_overflow pods pending \<Longrightarrow>
   sint (pods_total pods d + amount pending d) = int_total pods d + sint (amount pending d)"
  using sint_pods_plus [of pods pending "\<lambda>_. True" d] by simp

lemma deficiency_relevant:
  assumes "requests_wf pending" "dim_binds al pending d"
    and "sint (dim_cap al d) < sint (amount used d + amount pending d)" "0 < sint (amount c d)"
  shows "resource_deficiency_relevant al used pending c"
proof (cases d)
  case (Extended name)
  then have "amount pending (Extended name) \<noteq> 0" using assms(2) by simp
  then obtain want where w: "map_of (extended pending) name = Some want" "want \<noteq> 0"
    by (cases "map_of (extended pending) name") (auto simp: bt_get_or_zero_def)
  then have "(name, want) \<in> set (extended pending)" by (auto dest: map_of_SomeD)
  with w assms(3,4) Extended show ?thesis
    unfolding resource_deficiency_relevant_def list_ex_iff
    by (intro disjI2 bexI [of _ "(name, want)"]) (auto simp: bt_get_or_zero_def)
qed (use assms(2-4) in \<open>simp_all add: resource_deficiency_relevant_def short_of_def\<close>)

lemma int_total_zero_part:
  "\<forall>p \<in> set pods. \<not> Q p \<longrightarrow> P p \<longrightarrow> sint (amount (np_requests p) d) = 0 \<Longrightarrow>
   (\<forall>p \<in> set pods. Q p \<longrightarrow> P p) \<Longrightarrow> int_total (filter P pods) d = int_total (filter Q pods) d"
  by (induction pods) (auto simp: int_total_def)

lemma candidates_suffice:
  assumes wf: "pods_wf pods" and pend: "requests_wf pending" and no: "no_overflow pods pending"
    and room: "admits_beside al cap pending (filter (\<lambda>p. prio \<le> np_priority p) pods)"
  shows "admits_beside al cap pending (remaining pods (map np_key (victim_candidates prio pending pods cap al)))"
proof -
  define cand :: "node_pod \<Rightarrow> bool" where "cand p \<longleftrightarrow> np_priority p < prio \<and> ((cap \<noteq> 0 \<and> cap \<le> length pods) \<or>
    resource_deficiency_relevant al (sum_requests pods) pending (np_requests p))" for p
  have all: "\<forall>p \<in> set pods. requests_wf (np_requests p)" and inj: "inj_on np_key (set pods)"
    using wf by (auto simp: pods_wf_def distinct_map)
  have rem: "remaining pods (map np_key (victim_candidates prio pending pods cap al)) = filter (\<lambda>p. \<not> cand p) pods"
    using inj unfolding remaining_def victim_candidates_def cand_def [symmetric]
    by (intro filter_cong) (auto dest: inj_onD)
  have "cap = 0 \<or> length (filter (\<lambda>p. \<not> cand p) pods) < cap"
  proof (cases "cap \<le> length pods")
    case True
    then have "cap = 0 \<or> filter (\<lambda>p. \<not> cand p) pods = filter (\<lambda>p. prio \<le> np_priority p) pods"
      by (auto simp: cand_def intro!: filter_cong)
    then show ?thesis using room by (auto simp: admits_beside_def)
  qed (use length_filter_le [of "\<lambda>p. \<not> cand p" pods] in linarith)
  moreover have "sint (pods_total (filter (\<lambda>p. \<not> cand p) pods) d + amount pending d) \<le> sint (dim_cap al d)"
    if b: "dim_binds al pending d" for d
  proof (cases "sint (dim_cap al d) < sint (pods_total pods d + amount pending d)")
    case True
    have "sint (amount (np_requests p) d) = 0"
      if p: "p \<in> set pods" "\<not> prio \<le> np_priority p" "\<not> cand p" for p
    proof -
      have "\<not> resource_deficiency_relevant al (sum_requests pods) pending (np_requests p)"
        using p by (auto simp: cand_def)
      then have "\<not> 0 < sint (amount (np_requests p) d)"
        using deficiency_relevant [OF pend b] True by (auto simp: amount_sum_requests [OF all])
      then show ?thesis using no p(1) unfolding no_overflow_def by (metis antisym_conv2)
    qed
    then have "int_total (filter (\<lambda>p. \<not> cand p) pods) d = int_total (filter (\<lambda>p. prio \<le> np_priority p) pods) d"
      by (intro int_total_zero_part) (auto simp: cand_def)
    then show ?thesis
      using room b by (simp add: sint_pods_plus [OF no] admits_beside_def within_cap_def)
  next
    case False
    have "int_total (filter (\<lambda>p. \<not> cand p) pods) d \<le> int_total pods d"
      using no by (intro int_total_filter_le) (auto simp: no_overflow_def)
    then show ?thesis using False by (simp add: sint_pods_plus [OF no] sint_pods_plus_all [OF no])
  qed
  ultimately show ?thesis unfolding rem admits_beside_def within_cap_def by blast
qed

text \<open>C19: When a node has no room for the pending pod but would have after evicting every pod of lower priority,
  victims are found on it: leaving out the pods that hold nothing of what is short costs nothing. The
  amounts are non-negative and their sums do not overflow.
\<close>

theorem victims_found:
  assumes "pods_wf pods" "requests_wf pending" "no_overflow pods pending"
    and "\<not> admits_beside al cap pending pods"
    and "admits_beside al cap pending (filter (\<lambda>p. prio \<le> np_priority p) pods)"
  shows "select_preemption_victims prio pending pods cap al \<noteq> []"
proof (rule select_victims_prefix [OF assms(1,2), of prio cap al])
  let ?cs = "victim_candidates prio pending pods cap al"
  fix k
  assume k: "k \<le> length ?cs"
    and stop: "k < length ?cs \<Longrightarrow> admits_beside al cap pending (remaining pods (map np_key (take k ?cs)))"
    and sel: "select_preemption_victims prio pending pods cap al =
      (if admits_beside al cap pending (remaining pods (map np_key (take k ?cs))) then map np_key (take k ?cs) else [])"
  have fits: "admits_beside al cap pending (remaining pods (map np_key (take k ?cs)))"
    using stop candidates_suffice [OF assms(1-3,5)] k by (cases "k < length ?cs") auto
  have "take k ?cs \<noteq> []"
  proof
    assume "take k ?cs = []"
    with fits have "admits_beside al cap pending pods" by (simp add: remaining_def del: take_eq_Nil2)
    with assms(4) show False ..
  qed
  then show ?thesis using sel fits by simp
qed

theorem victims_found_witness:
  "select_preemption_victims 5 (requests_default\<lparr>cpu_milli := 900\<rparr>)
     [np_pod ''d/a'' 1 400] 0 (allocatable (sample_node ''n'' '''' ''1'')) \<noteq> []"
proof (rule victims_found)
  have am: "amount (requests_default\<lparr>cpu_milli := x\<rparr>) d = (if d = Cpu then x else 0)" for x d
    by (cases d) (simp_all add: requests_default_def)
  have cap: "parse_quantity_milli ''1'' = 1000" "parse_quantity_milli '''' = 0" by code_simp+
  have ext: "bt_get_or_zero (extended requests_default) name = 0" for name by (simp add: requests_default_def)
  show "no_overflow [np_pod ''d/a'' 1 400] (requests_default\<lparr>cpu_milli := 900\<rparr>)"
    by (simp add: no_overflow_def int_total_def np_pod_def am)
  show "\<not> admits_beside (allocatable (sample_node ''n'' '''' ''1'')) 0 (requests_default\<lparr>cpu_milli := 900\<rparr>)
      [np_pod ''d/a'' 1 400]"
    by (auto simp: admits_beside_def within_cap_def pods_total_def np_pod_def am sample_node_def cap
        intro!: exI [of _ Cpu])
  show "admits_beside (allocatable (sample_node ''n'' '''' ''1'')) 0 (requests_default\<lparr>cpu_milli := 900\<rparr>)
      (filter (\<lambda>p. 5 \<le> np_priority p) [np_pod ''d/a'' 1 400])"
    by (simp add: admits_beside_def within_cap_def pods_total_def np_pod_def am sample_node_def cap all_dims ext)
qed (simp_all add: pods_wf_def np_pod_def requests_wf_def requests_default_def)

subsection \<open>Committing a plan\<close>

lemma find_key_Some:
  "List.find (\<lambda>p. np_key p = v) pods = Some p \<Longrightarrow> p \<in> set pods \<and> np_key p = v"
  by (auto simp: find_Some_iff)

definition victims_of :: "node_pod list \<Rightarrow> string list \<Rightarrow> node_pod list" where
  "victims_of pods victims = List.map_filter (\<lambda>v. List.find (\<lambda>p. np_key p = v) pods) victims"

lemma without_victims_eq:
  "without_victims pods victims n u =
   (n - length (victims_of pods victims), evicted u (victims_of pods victims))"
  by (induction victims arbitrary: n u) (auto simp: victims_of_def List.map_filter_simps split: option.split)

lemma victims_of_props:
  shows "set (victims_of pods victims) \<subseteq> set pods"
    and "np_key ` set (victims_of pods victims) = set victims \<inter> np_key ` set pods"
    and "distinct victims \<Longrightarrow> distinct (victims_of pods victims)"
proof -
  have mem: "p \<in> set (victims_of pods vs) \<longleftrightarrow> (\<exists>v \<in> set vs. List.find (\<lambda>p. np_key p = v) pods = Some p)" for p vs
    by (auto simp: victims_of_def set_map_filter)
  then show "set (victims_of pods victims) \<subseteq> set pods" by (auto dest: find_key_Some)
  show "np_key ` set (victims_of pods victims) = set victims \<inter> np_key ` set pods"
  proof (intro equalityI subsetI)
    fix v
    assume v: "v \<in> set victims \<inter> np_key ` set pods"
    then obtain p where "List.find (\<lambda>p. np_key p = v) pods = Some p"
      by (cases "List.find (\<lambda>p. np_key p = v) pods") (auto simp: find_None_iff)
    moreover from this have "np_key p = v" by (auto dest: find_key_Some)
    ultimately show "v \<in> np_key ` set (victims_of pods victims)" using v by (auto simp: mem intro!: rev_image_eqI)
  qed (auto simp: mem dest!: find_key_Some)
  show "distinct victims \<Longrightarrow> distinct (victims_of pods victims)"
  proof (induction victims)
    case (Cons v vs)
    have "p \<notin> set (victims_of pods vs)" if "List.find (\<lambda>p. np_key p = v) pods = Some p" for p
      using that Cons.prems by (auto simp: mem dest!: find_key_Some)
    then show ?case using Cons by (auto simp: victims_of_def List.map_filter_simps split: option.split)
  qed (simp add: victims_of_def List.map_filter_simps)
qed

lemma admits_without_victims:
  assumes "pods_wf pods" "requests_wf pending" "distinct victims"
  shows "(case without_victims pods victims (length pods) (sum_requests pods) of (n, u) \<Rightarrow> admits al cap pending n u)
    \<longleftrightarrow> admits_beside al cap pending (remaining pods victims)"
proof -
  have "remaining pods victims = filter (\<lambda>p. np_key p \<notin> np_key ` set (victims_of pods victims)) pods"
    unfolding remaining_def by (intro filter_cong) (auto simp: victims_of_props(2))
  then show ?thesis
    using admits_evicted [OF assms(1,2) victims_of_props(3) [OF assms(3)] victims_of_props(1)]
    by (simp add: without_victims_eq)
qed

lemma pods_total_np_of: "pods_total (map np_of es) d = total_amount es d"
  by (simp add: pods_total_def total_amount_def np_of_def comp_def)

lemma pods_on_wf: "tally_ok t \<Longrightarrow> pods_wf (pods_on t node)"
proof -
  assume ok: "tally_ok t"
  have m: "mset (pods_on t node) = mset (map np_of (unclaimed t node))"
    using ok by (intro mset_pods_on) (simp add: tally_ok_def)
  then have "mset (map np_key (pods_on t node)) = mset (map fst (unclaimed t node))"
    by (simp add: np_of_def image_mset.compositionality comp_def)
  moreover have "distinct (map fst (unclaimed t node))"
    using ok distinct_residents [of t node] by (simp add: unclaimed_def tally_ok_def distinct_map_filter)
  ultimately have "distinct (map np_key (pods_on t node))" by (metis mset_eq_imp_distinct_iff)
  moreover have "set (pods_on t node) = set (map np_of (unclaimed t node))" using m by (rule mset_eq_setD)
  then have "\<forall>p \<in> set (pods_on t node). requests_wf (np_requests p)"
    using ok by (auto simp: unclaimed_def np_of_def dest: residents_wf)
  ultimately show ?thesis by (simp add: pods_wf_def)
qed

lemma remaining_pods_on:
  assumes "tally_ok t"
  shows "mset (remaining (pods_on t node) victims) =
    mset (map np_of (filter (\<lambda>(key, _). key \<notin> set victims) (unclaimed t node)))"
proof -
  have "mset (pods_on t node) = mset (map np_of (unclaimed t node))"
    using assms by (intro mset_pods_on) (simp add: tally_ok_def)
  then have "mset (remaining (pods_on t node) victims) =
      filter_mset (\<lambda>p. np_key p \<notin> set victims) (mset (map np_of (unclaimed t node)))"
    by (simp add: remaining_def)
  also have "\<dots> = mset (filter (\<lambda>p. np_key p \<notin> set victims) (map np_of (unclaimed t node)))" by simp
  also have "filter (\<lambda>p. np_key p \<notin> set victims) (map np_of (unclaimed t node)) =
      map np_of (filter (\<lambda>(key, _). key \<notin> set victims) (unclaimed t node))"
    by (simp add: filter_map comp_def np_of_def case_prod_unfold)
  finally show ?thesis .
qed

text \<open>The pods of a node that count once the claimed victims are gone.\<close>

lemma unclaimed_committed:
  assumes "pod_key pod \<notin> tally_knows t" "pod_key pod \<notin> reserved_victims t" "pod_key pod \<notin> set victims"
  shows "unclaimed (claim_victims victims (tally_assume pod node t)) n =
    filter (\<lambda>(key, _). key \<notin> set victims) (unclaimed t n) @
      (if n = node then [(pod_key pod, assumed_pod pod node)] else [])"
proof -
  have r: "reserved_victims (claim_victims victims (tally_assume pod node t)) = reserved_victims t \<union> set victims"
    by (simp add: claim_victims_def tally_assume_def)
  have "residents (claim_victims victims (tally_assume pod node t)) n = residents (tally_assume pod node t) n"
    by (simp add: claim_victims_def residents_def)
  then show ?thesis
    using assms(2,3)
    by (auto simp: unclaimed_def r residents_assume [OF assms(1)] case_prod_unfold intro!: filter_cong)
qed

lemma committed_within:
  assumes ok: "tally_ok t" and wf: "requests_wf (requests pod)"
    and fresh: "pod_key pod \<notin> tally_knows t" "pod_key pod \<notin> reserved_victims t" "pod_key pod \<notin> set (pp_victims plan)"
    and dist: "distinct (pp_victims plan)"
    and v: "verify_and_reserve_preemption pod n plan t = Some t'"
  shows "t' = claim_victims (pp_victims plan) (tally_assume pod (pp_node_name plan) t) \<and>
    (pod_count_capacity n = 0 \<or> length (unclaimed t' (pp_node_name plan)) \<le> pod_count_capacity n) \<and>
    within_cap (allocatable n) (requests pod) (total_amount (unclaimed t' (pp_node_name plan)))"
proof -
  let ?node = "pp_node_name plan"
  let ?left = "filter (\<lambda>(key, _). key \<notin> set (pp_victims plan)) (unclaimed t ?node)"
  have t': "t' = claim_victims (pp_victims plan) (tally_assume pod ?node t)"
    and adm: "case without_victims (pods_on t ?node) (pp_victims plan) (length (pods_on t ?node))
      (sum_requests (pods_on t ?node)) of (num, u) \<Rightarrow>
        admits (allocatable n) (pod_count_capacity n) (requests pod) num u"
    using v by (auto simp: verify_and_reserve_preemption_def Let_def split: if_splits prod.splits)
  have "admits_beside (allocatable n) (pod_count_capacity n) (requests pod) (map np_of ?left)"
    using adm admits_without_victims [OF pods_on_wf [OF ok] wf dist]
      admits_beside_mset [OF remaining_pods_on [OF ok]] by simp
  moreover have "unclaimed t' ?node = ?left @ [(pod_key pod, assumed_pod pod ?node)]"
    unfolding t' using unclaimed_committed [OF fresh] by simp
  ultimately show ?thesis
    using t' by (auto simp: admits_beside_def pods_total_np_of total_amount_def assumed_pod_def within_cap_def)
qed

subsection \<open>The plan that is chosen\<close>

lemma cheapest_Some:
  "cheapest f ns best = Some (n, plan) \<Longrightarrow> best = Some (n, plan) \<or> (n \<in> set ns \<and> f n = Some plan)"
  by (induction f ns best rule: cheapest.induct) (auto split: option.splits if_splits)

lemma fold_push_new:
  "set (fold (\<lambda>v vs. if v \<in> set vs then vs else vs @ [v]) xs base) = set base \<union> set xs \<and>
   (distinct base \<longrightarrow> distinct (fold (\<lambda>v vs. if v \<in> set vs then vs else vs @ [v]) xs base))"
  by (induction xs arbitrary: base) auto

lemma select_victims_lower:
  assumes "pods_wf pods" "requests_wf pending"
  shows "set (select_preemption_victims prio pending pods cap al) \<subseteq> np_key ` {p \<in> set pods. np_priority p < prio} \<and>
    distinct (select_preemption_victims prio pending pods cap al)"
proof (rule select_victims_prefix [OF assms, of prio cap al])
  let ?cs = "victim_candidates prio pending pods cap al"
  fix k
  assume sel: "select_preemption_victims prio pending pods cap al =
      (if admits_beside al cap pending (remaining pods (map np_key (take k ?cs))) then map np_key (take k ?cs) else [])"
  have sub: "set (take k ?cs) \<subseteq> {p \<in> set pods. np_priority p < prio}"
    using candidates_set [of prio pending pods cap al] set_take_subset [of k ?cs] by blast
  moreover have "inj_on np_key (set (take k ?cs))"
    using assms(1) sub by (auto simp: pods_wf_def distinct_map intro: inj_on_subset)
  then have "distinct (map np_key (take k ?cs))"
    using candidates_distinct [OF assms(1), of prio pending cap al] by (simp add: distinct_map)
  ultimately show ?thesis unfolding sel by auto
qed

lemma rwop_victims_lower:
  "read_write_once_pod_preemption_victims pods rwop prio = Some vs \<Longrightarrow>
   set vs \<subseteq> np_key ` {p \<in> set pods. np_priority p < prio}"
  by (force simp: read_write_once_pod_preemption_victims_def Let_def list_ex_iff not_le split: if_splits)

lemma plan_on_nodeD:
  assumes "tally_ok t" "requests_wf (requests pod)" "plan_on_node pod tallied by_name t n = Some plan"
  shows "pp_node_name plan = node_name n \<and> node_qualifies_for_pod n pod \<and> pp_victims plan \<noteq> [] \<and>
    distinct (pp_victims plan) \<and>
    set (pp_victims plan) \<subseteq> fst ` {e \<in> set (unclaimed t (node_name n)). tp_priority (snd e) < priority pod} \<and>
    topology_qualifies_excluding_victims pod (topology_context pod tallied by_name) (node_labels n)
      (filter (\<lambda>p. tallied_key p \<in> set (pp_victims plan)) tallied)"
proof -
  let ?pods = "pods_on t (node_name n)"
  let ?base = "select_preemption_victims (priority pod) (requests pod) ?pods (pod_count_capacity n) (allocatable n)"
  let ?lower = "{p \<in> set ?pods. np_priority p < priority pod}"
  obtain rwop where rwop: "read_write_once_pod_preemption_victims ?pods (rwop_keys pod) (priority pod) = Some rwop"
    and plan: "plan = \<lparr>pp_node_name = node_name n,
        pp_victims = fold (\<lambda>v vs. if v \<in> set vs then vs else vs @ [v]) rwop ?base\<rparr>"
    using assms(3) by (auto simp: plan_on_node_def Let_def split: if_splits option.splits)
  have "set (pp_victims plan) \<subseteq> np_key ` ?lower \<and> distinct (pp_victims plan)"
    using select_victims_lower [OF pods_on_wf [OF assms(1)] assms(2), of "priority pod" "node_name n"
        "pod_count_capacity n" "allocatable n"] rwop_victims_lower [OF rwop] fold_push_new [of rwop ?base]
    by (simp add: plan)
  moreover have "set ?pods = set (map np_of (unclaimed t (node_name n)))"
    using assms(1) by (intro mset_eq_setD mset_pods_on) (simp add: tally_ok_def)
  then have "np_key ` ?lower = fst ` {e \<in> set (unclaimed t (node_name n)). tp_priority (snd e) < priority pod}"
    by (force simp: np_of_def image_iff)
  moreover have "node_qualifies_for_pod n pod \<and> pp_victims plan \<noteq> [] \<and>
    topology_qualifies_excluding_victims pod (topology_context pod tallied by_name) (node_labels n)
      (filter (\<lambda>p. tallied_key p \<in> set (pp_victims plan)) tallied)"
    using assms(3) rwop by (auto simp: plan_on_node_def Let_def split: if_splits)
  ultimately show ?thesis by (simp add: plan)
qed

lemma map_of_labels_by_name:
  "distinct (map node_name items) \<Longrightarrow> n \<in> set items \<Longrightarrow>
   map_of (node_labels_by_name items) (node_name n) = Some (node_labels n)"
proof -
  have "map_of (fold (\<lambda>n. AList.update (node_name n) (node_labels n)) items m) k =
      (case map_of (rev (map (\<lambda>n. (node_name n, node_labels n)) items)) k of None \<Rightarrow> map_of m k | Some v \<Rightarrow> Some v)" for m k
    by (induction items arbitrary: m) (auto simp: update_conv map_add_def split: option.splits)
  moreover assume "distinct (map node_name items)" "n \<in> set items"
  then have "map_of (rev (map (\<lambda>n. (node_name n, node_labels n)) items)) (node_name n) = Some (node_labels n)"
    by (intro map_of_is_SomeI) (auto simp: rev_map comp_def distinct_map)
  ultimately show ?thesis by (simp add: node_labels_by_name_def)
qed

lemma node_list_distinct: "tally_ok t \<Longrightarrow> distinct (map node_name (node_list t))"
proof -
  assume ok: "tally_ok t"
  then have "map node_name (node_list t) = map fst (tally_nodes t)"
    by (auto simp: tally_ok_def nodes_ok_def node_list_def)
  then show ?thesis using ok by (simp add: tally_ok_def nodes_ok_def bt_wf_distinct)
qed

lemma victims_at_node:
  assumes "tally_ok t" "n \<in> set (node_list t)"
    and "set victims \<subseteq> fst ` {e \<in> set (unclaimed t (node_name n)). P e}"
  shows "\<forall>p \<in> set (tally_pod_labels t). tallied_key p \<in> set victims \<longrightarrow>
    map_of (node_labels_by_name (node_list t)) (tallied_node p) = Some (node_labels n)"
proof (intro ballI impI)
  fix p
  assume p: "p \<in> set (tally_pod_labels t)" "tallied_key p \<in> set victims"
  then obtain q where q: "(tallied_key p, q) \<in> set (tally_pods t)" "tallied_node p = tp_node_name q"
    by (auto simp: tally_pod_labels_def)
  obtain r where "(tallied_key p, r) \<in> set (tally_pods t)" "tp_node_name r = node_name n"
    using p(2) assms(3) by (fastforce simp: unclaimed_def residents_def)
  moreover have "distinct (map fst (tally_pods t))" using assms(1) by (simp add: tally_ok_def index_ok_def)
  ultimately have "tallied_node p = node_name n" using q by (auto dest: eq_key_imp_eq_value)
  then show "map_of (node_labels_by_name (node_list t)) (tallied_node p) = Some (node_labels n)"
    using map_of_labels_by_name [OF node_list_distinct [OF assms(1)] assms(2)] by simp
qed

text \<open>C12: A preemption plan found in one state of the tally and committed in a later one is sound. The tally knows the
  pending pod in neither state, nobody has claimed it as a victim, and the requests of the node's remaining pods, the new
  one included, sum up within an \<^verbatim>\<open>i64\<close>. The plan's node qualifies for the pod, its victims are pods of that node with
  strictly lower priority that no other plan has claimed, and without them the pod's hard spreading constraints hold, all
  in the state of the search. After the commit, the pods of the node that are not about to leave, the new pod included,
  are within the pod count and, summed as integers, within the capacity that the node had in the search, in every
  dimension with a known capacity and every extended resource the pod asks for, also when the tally has changed in
  between.
\<close>

theorem preemption_plan_sound:
  assumes "tally_reachable t" "requests_wf (requests pod)" "pod_key pod \<notin> tally_knows t"
    and "find_preemption_candidate (node_list t) pod (tally_pod_labels t) (node_labels_by_name (node_list t)) t =
      Some (n, plan)"
    and "tally_reachable s" "pod_key pod \<notin> tally_knows s" "pod_key pod \<notin> reserved_victims s"
    and "verify_and_reserve_preemption pod n plan s = Some s'"
    and "\<forall>d. in_i64 (exact_amount (unclaimed s' (pp_node_name plan)) d)"
  shows "fetch_node t (pp_node_name plan) = Some n \<and> node_qualifies_for_pod n pod \<and> pp_victims plan \<noteq> [] \<and>
    set (pp_victims plan) \<subseteq>
      fst ` {e \<in> set (unclaimed t (pp_node_name plan)). tp_priority (snd e) < priority pod} \<and>
    list_all (spread_ok pod (node_labels n) (node_labels_by_name (node_list t))
        (filter (\<lambda>p. tallied_key p \<notin> set (pp_victims plan)) (tally_pod_labels t))) (hard_constraints pod) \<and>
    (pod_count_capacity n = 0 \<or> length (unclaimed s' (pp_node_name plan)) \<le> pod_count_capacity n) \<and>
    (\<forall>d. dim_binds (allocatable n) (requests pod) d \<longrightarrow>
       exact_amount (unclaimed s' (pp_node_name plan)) d \<le> sint (dim_cap (allocatable n) d))"
proof -
  have ok: "tally_ok t" "tally_ok s" using assms(1,5) by (simp_all add: tally_reachable_ok)
  have n: "n \<in> set (node_list t)"
    "plan_on_node pod (tally_pod_labels t) (node_labels_by_name (node_list t)) t n = Some plan"
    using cheapest_Some [OF assms(4) [unfolded find_preemption_candidate_def]] by auto
  note p = plan_on_nodeD [OF ok(1) assms(2) n(2)]
  have "set (pp_victims plan) \<subseteq> tally_knows t"
    using p by (fastforce simp: unclaimed_def residents_def tally_knows_def)
  then have "pod_key pod \<notin> set (pp_victims plan)" using assms(3) by blast
  then have cap: "(pod_count_capacity n = 0 \<or> length (unclaimed s' (pp_node_name plan)) \<le> pod_count_capacity n) \<and>
      within_cap (allocatable n) (requests pod) (total_amount (unclaimed s' (pp_node_name plan)))"
    using committed_within [OF ok(2) assms(2,6,7) _ _ assms(8)] p by blast
  then have "\<forall>d. dim_binds (allocatable n) (requests pod) d \<longrightarrow>
      exact_amount (unclaimed s' (pp_node_name plan)) d \<le> sint (dim_cap (allocatable n) d)"
    using assms(9) within_exact by blast
  moreover have "list_all (spread_ok pod (node_labels n) (node_labels_by_name (node_list t))
        (filter (\<lambda>p. tallied_key p \<notin> set (pp_victims plan)) (tally_pod_labels t))) (hard_constraints pod)"
    using p topology_qualifies_excluding_iff [OF victims_at_node [OF ok(1) n(1)], of "pp_victims plan"] by blast
  moreover have "fetch_node t (node_name n) = Some n" using map_of_node_list [OF ok(1)] n(1) by simp
  ultimately show ?thesis using p cap by simp
qed

definition full_node :: node_tally where
  "full_node = tally_assume (cpu_pod ''q'' 0 600) ''a'' (add_node (sample_node ''a'' ''10'' ''1'') empty_tally)"

theorem preemption_plan_sound_witness:
  "\<exists>n t'. find_preemption_candidate (node_list full_node) (cpu_pod ''p'' 5 500) (tally_pod_labels full_node)
       (node_labels_by_name (node_list full_node)) full_node =
     Some (n, \<lparr>pp_node_name = ''a'', pp_victims = [''d/q'']\<rparr>) \<and>
     verify_and_reserve_preemption (cpu_pod ''p'' 5 500) n \<lparr>pp_node_name = ''a'', pp_victims = [''d/q'']\<rparr> full_node = Some t' \<and>
     dim_binds (allocatable n) (requests (cpu_pod ''p'' 5 500)) Cpu \<and>
     exact_amount (unclaimed t' ''a'') Cpu \<le> sint (dim_cap (allocatable n) Cpu)"
proof -
  let ?pod = "cpu_pod ''p'' 5 500" and ?plan = "\<lparr>pp_node_name = ''a'', pp_victims = [''d/q'']\<rparr>"
  let ?n = "sample_node ''a'' ''10'' ''1''"
  have find: "find_preemption_candidate (node_list full_node) ?pod (tally_pod_labels full_node)
       (node_labels_by_name (node_list full_node)) full_node = Some (?n, ?plan)"
    by code_simp
  have "case verify_and_reserve_preemption ?pod ?n ?plan full_node of None \<Rightarrow> False
    | Some t' \<Rightarrow> unclaimed t' ''a'' = [(pod_key ?pod, assumed_pod ?pod ''a'')]" by code_simp
  then obtain t' where v: "verify_and_reserve_preemption ?pod ?n ?plan full_node = Some t'"
    and left: "unclaimed t' (pp_node_name ?plan) = [(pod_key ?pod, assumed_pod ?pod ''a'')]" by (auto split: option.splits)
  have r: "tally_reachable full_node"
    unfolding full_node_def by (intro cpu_pod_reachable add_node_reachable tally_reachable.start)
  have k: "pod_key ?pod \<notin> tally_knows full_node" "pod_key ?pod \<notin> reserved_victims full_node" by code_simp+
  have "requests ?pod = requests_default\<lparr>cpu_milli := 500\<rparr>" by (simp add: cpu_pod_def)
  then have sums: "\<forall>d. in_i64 (exact_amount (unclaimed t' (pp_node_name ?plan)) d)"
    unfolding left by (intro allI exact_amount_cpu) (simp_all add: in_i64_def)
  have binds: "dim_binds (allocatable ?n) (requests ?pod) Cpu" by code_simp
  have "exact_amount (unclaimed t' (pp_node_name ?plan)) Cpu \<le> sint (dim_cap (allocatable ?n) Cpu)"
    using preemption_plan_sound [OF r cpu_pod_wf k(1) find r k v sums] binds by blast
  then have "exact_amount (unclaimed t' ''a'') Cpu \<le> sint (dim_cap (allocatable ?n) Cpu)" by (simp only: preemption_plan.select_convs)
  with find v binds show ?thesis by blast
qed

subsection \<open>Two plans that should not be made\<close>

definition port_80 :: host_port_claim where
  "port_80 = \<lparr>host_port = 80, host_ip = '''', protocol = ''TCP''\<rparr>"

definition port_pod :: "string \<Rightarrow> int \<Rightarrow> i64 \<Rightarrow> pending_pod" where
  "port_pod name prio cpu = (cpu_pod name prio cpu)\<lparr>host_ports := [port_80]\<rparr>"

definition port_taken :: node_tally where
  "port_taken = tally_assume (port_pod ''r'' 9 100) ''a'' full_node"

text \<open>
  Preemption does not look at host ports. A pod of higher priority holds the port on the node; the plan
  evicts another pod to make room and reserves the node for the pending pod, whose port conflicts
  with the one still held there.
\<close>

theorem preemption_ignores_host_ports:
  "case find_preemption_plan (port_pod ''p'' 5 500) port_taken of
     None \<Rightarrow> False
   | Some (plan, t') \<Rightarrow> plan = \<lparr>pp_node_name = ''a'', pp_victims = [''d/q'']\<rparr> \<and>
       \<not> host_ports_fit (concat (map (tp_host_ports \<circ> snd)
           (filter (\<lambda>e. fst e \<noteq> ''d/p'') (unclaimed t' ''a'')))) (host_ports (port_pod ''p'' 5 500))"
  by code_simp

definition claim_blocked :: node_tally where
  "claim_blocked =
     tally_assume (cpu_pod ''t'' 0 500) ''b'' (tally_assume (cpu_pod ''s'' 0 500) ''b''
       (tally_assume (cpu_pod ''r'' 9 900) ''a'' (tally_assume (claim_holder ''q'') ''a''
         (add_node (sample_node ''b'' ''10'' ''1'') (add_node (sample_node ''a'' ''10'' ''1'') empty_tally)))))"

text \<open>
  A node whose only victims are holders of an exclusive claim is a candidate even when evicting them
  leaves it short of resources. It has fewer victims than the node where preemption would work, so it
  is chosen, the commit refuses it, and no plan is returned although the other node's plan commits.
\<close>

theorem unfit_plan_masks_viable:
  "let pod = (claim_holder ''p'')\<lparr>priority := 5, requests := requests_default\<lparr>cpu_milli := 800\<rparr>\<rparr>;
       plan = \<lparr>pp_node_name = ''b'', pp_victims = [''d/t'', ''d/s'']\<rparr>
   in find_preemption_plan pod claim_blocked = None \<and>
      plan_on_node pod (tally_pod_labels claim_blocked) (node_labels_by_name (node_list claim_blocked))
        claim_blocked (sample_node ''b'' ''10'' ''1'') = Some plan \<and>
      verify_and_reserve_preemption pod (sample_node ''b'' ''10'' ''1'') plan claim_blocked \<noteq> None"
  by code_simp

end
