(* ===== verification/Sched_Volumes.thy ===== *)
theory Sched_Volumes
  imports Sched_Preempt
begin

text \<open>
  The volume lookups of a scheduling attempt (\<^verbatim>\<open>crates/scheduler/src/lib.rs\<close>): claims, volumes and
  storage classes read through the API, and what they add to the pending pod before a node is picked; the
  node stamped on unbound claims before the bind. The API's answer to a GET is a parameter, a status with
  a body or no answer, and so is the deserialization of a body.
\<close>

subsection \<open>Reading objects\<close>

type_synonym http_response = "nat \<times> string"

datatype fetch_error = Transport | Bad_Status nat | Unparsable

definition get_object ::
  "(string \<Rightarrow> http_response option) \<Rightarrow> (string \<Rightarrow> 'a option) \<Rightarrow> string \<Rightarrow> fetch_error + 'a option" where
  "get_object get parse path =
     (case get path of
        None \<Rightarrow> Inl Transport
      | Some (status, body) \<Rightarrow>
          if status = 404 then Inr None
          else if \<not> (200 \<le> status \<and> status < 300) then Inl (Bad_Status status)
          else (case parse body of None \<Rightarrow> Inl Unparsable | Some obj \<Rightarrow> Inr (Some obj)))"

definition pvc_path :: "string \<Rightarrow> string \<Rightarrow> string" where
  "pvc_path namespace name = ''/api/v1/namespaces/'' @ namespace @ ''/persistentvolumeclaims/'' @ name"

definition storage_class_path :: "string \<Rightarrow> string" where
  "storage_class_path name = ''/apis/storage.k8s.io/v1/storageclasses/'' @ name"

definition pv_path :: "string \<Rightarrow> string" where
  "pv_path name = ''/api/v1/persistentvolumes/'' @ name"

record pvc_view =
  claim_volume_name :: string
  claim_storage_class :: "string option"
  claim_annotations :: labels
  claim_access_modes :: "string list"

record storage_class_view =
  volume_binding_mode :: "string option"
  provisioner :: string

record pv_view =
  pv_affinity :: "node_selector_spec option option"
  pv_csi :: "string option"

record pvc_binding_info =
  info_volume_name :: string
  info_storage_class_name :: "string option"
  info_selected_node :: "string option"
  info_access_modes :: "string list"

record pv_info =
  pv_node_affinity :: "node_selector_spec option"
  pv_csi_driver :: "string option"

text \<open>The API as an attempt sees it: the answer to each GET and the parsers of the bodies.\<close>

record volume_api =
  api_get :: "string \<Rightarrow> http_response option"
  parse_pvc :: "string \<Rightarrow> pvc_view option"
  parse_pv :: "string \<Rightarrow> pv_view option"
  parse_storage_class :: "string \<Rightarrow> storage_class_view option"

definition nonempty :: "string option \<Rightarrow> string option" where
  "nonempty s = (case s of Some [] \<Rightarrow> None | _ \<Rightarrow> s)"

definition fetch_pvc_binding_info :: "volume_api \<Rightarrow> string \<Rightarrow> string \<Rightarrow> fetch_error + pvc_binding_info option" where
  "fetch_pvc_binding_info api namespace name =
     (case get_object (api_get api) (parse_pvc api) (pvc_path namespace name) of
        Inl e \<Rightarrow> Inl e
      | Inr obj \<Rightarrow> Inr (map_option
          (\<lambda>c. \<lparr>info_volume_name = claim_volume_name c, info_storage_class_name = claim_storage_class c,
               info_selected_node = map_of (claim_annotations c) ''volume.kubernetes.io/selected-node'',
               info_access_modes = claim_access_modes c\<rparr>) obj))"

definition fetch_pv_info :: "volume_api \<Rightarrow> string \<Rightarrow> fetch_error + pv_info option" where
  "fetch_pv_info api name =
     (case get_object (api_get api) (parse_pv api) (pv_path name) of
        Inl e \<Rightarrow> Inl e
      | Inr obj \<Rightarrow> Inr (map_option
          (\<lambda>v. \<lparr>pv_node_affinity = Option.bind (pv_affinity v) id, pv_csi_driver = nonempty (pv_csi v)\<rparr>) obj))"

definition fetch_storage_class_binding_mode :: "volume_api \<Rightarrow> string \<Rightarrow> fetch_error + string option" where
  "fetch_storage_class_binding_mode api name =
     (case get_object (api_get api) (parse_storage_class api) (storage_class_path name) of
        Inl e \<Rightarrow> Inl e
      | Inr obj \<Rightarrow> Inr (Option.bind obj volume_binding_mode))"

definition fetch_storage_class_provisioner :: "volume_api \<Rightarrow> string \<Rightarrow> fetch_error + string option" where
  "fetch_storage_class_provisioner api name =
     (case get_object (api_get api) (parse_storage_class api) (storage_class_path name) of
        Inl e \<Rightarrow> Inl e
      | Inr obj \<Rightarrow> Inr (Option.bind obj (\<lambda>sc. nonempty (Some (provisioner sc)))))"

subsection \<open>Batches\<close>

text \<open>One GET for each distinct name; the first failure ends the batch, a missing object is left out.\<close>

fun fetch_batch ::
  "(string \<Rightarrow> fetch_error + 'a option) \<Rightarrow> string list \<Rightarrow> string set \<Rightarrow> (string \<times> 'a) list \<Rightarrow>
   fetch_error + (string \<times> 'a) list" where
  "fetch_batch fetch [] seen infos = Inr infos"
| "fetch_batch fetch (name # rest) seen infos =
     (if name \<in> seen then fetch_batch fetch rest seen infos
      else (case fetch name of
              Inl e \<Rightarrow> Inl e
            | Inr None \<Rightarrow> fetch_batch fetch rest (insert name seen) infos
            | Inr (Some info) \<Rightarrow> fetch_batch fetch rest (insert name seen) (AList.update name info infos)))"

definition fetch_pvc_binding_info_batch ::
  "volume_api \<Rightarrow> string \<Rightarrow> string list \<Rightarrow> fetch_error + (string \<times> pvc_binding_info) list" where
  "fetch_pvc_binding_info_batch api namespace claims =
     fetch_batch (fetch_pvc_binding_info api namespace) claims {} []"

definition fetch_pv_info_batch :: "volume_api \<Rightarrow> string list \<Rightarrow> fetch_error + (string \<times> pv_info) list" where
  "fetch_pv_info_batch api volumes = fetch_batch (fetch_pv_info api) (filter (\<lambda>v. v \<noteq> []) volumes) {} []"

subsection \<open>What the lookups add to a pod\<close>

definition fetch_read_write_once_pod_pvc_names ::
  "(string \<times> pvc_binding_info) list \<Rightarrow> string list \<Rightarrow> string list" where
  "fetch_read_write_once_pod_pvc_names pvcs claims =
     filter (\<lambda>name. case map_of pvcs name of
                      None \<Rightarrow> False
                    | Some info \<Rightarrow> list_ex (\<lambda>mode. mode = ''ReadWriteOncePod'') (info_access_modes info)) claims"

definition fetch_bound_pv_node_affinities ::
  "(string \<times> pvc_binding_info) list \<Rightarrow> (string \<times> pv_info) list \<Rightarrow> string list \<Rightarrow> node_selector_spec list" where
  "fetch_bound_pv_node_affinities pvcs pvs claims =
     List.map_filter (\<lambda>name. case map_of pvcs name of
                               None \<Rightarrow> None
                             | Some info \<Rightarrow>
                                 if info_volume_name info = [] then None
                                 else Option.bind (map_of pvs (info_volume_name info)) pv_node_affinity) claims"

fun fetch_unbound_csi_pvc_drivers ::
  "volume_api \<Rightarrow> (string \<times> pvc_binding_info) list \<Rightarrow> string list \<Rightarrow> fetch_error + string list" where
  "fetch_unbound_csi_pvc_drivers api pvcs [] = Inr []"
| "fetch_unbound_csi_pvc_drivers api pvcs (name # rest) =
     (case map_of pvcs name of
        None \<Rightarrow> fetch_unbound_csi_pvc_drivers api pvcs rest
      | Some info \<Rightarrow>
          if info_volume_name info \<noteq> [] then fetch_unbound_csi_pvc_drivers api pvcs rest
          else (case nonempty (info_storage_class_name info) of
                  None \<Rightarrow> fetch_unbound_csi_pvc_drivers api pvcs rest
                | Some sc \<Rightarrow>
                    (case fetch_storage_class_provisioner api sc of
                       Inl e \<Rightarrow> Inl e
                     | Inr driver \<Rightarrow>
                         map_sum id (\<lambda>ds. case driver of
                             Some d \<Rightarrow> if d \<noteq> ''kubernetes.io/no-provisioner'' then d # ds else ds
                           | None \<Rightarrow> ds)
                           (fetch_unbound_csi_pvc_drivers api pvcs rest))))"

definition resolve_csi_driver ::
  "volume_api \<Rightarrow> (string \<times> pvc_binding_info) list \<Rightarrow> (string \<times> pv_info) list \<Rightarrow> string \<Rightarrow>
   fetch_error + string option" where
  "resolve_csi_driver api pvcs pvs name =
     (case map_of pvcs name of
        None \<Rightarrow> Inr None
      | Some info \<Rightarrow>
          (case (if info_volume_name info \<noteq> [] then Option.bind (map_of pvs (info_volume_name info)) pv_csi_driver
                 else None) of
             Some driver \<Rightarrow> Inr (Some driver)
           | None \<Rightarrow>
               (case nonempty (info_storage_class_name info) of
                  None \<Rightarrow> Inr None
                | Some sc \<Rightarrow> fetch_storage_class_provisioner api sc)))"

fun count_csi_volumes_by_driver ::
  "(string \<Rightarrow> fetch_error + string option) \<Rightarrow> string list \<Rightarrow> string set \<Rightarrow> (string \<times> string option) list \<Rightarrow>
   (string, i64) btree \<Rightarrow> fetch_error + (string, i64) btree" where
  "count_csi_volumes_by_driver resolve [] seen cache counts = Inr counts"
| "count_csi_volumes_by_driver resolve (name # rest) seen cache counts =
     (if name \<in> seen then count_csi_volumes_by_driver resolve rest seen cache counts
      else (case (case map_of cache name of
                    Some cached \<Rightarrow> Inr (cached, cache)
                  | None \<Rightarrow> (case resolve name of Inl e \<Rightarrow> Inl e | Inr r \<Rightarrow> Inr (r, AList.update name r cache))) of
              Inl e \<Rightarrow> Inl e
            | Inr (driver, cache') \<Rightarrow>
                count_csi_volumes_by_driver resolve rest (insert name seen) cache'
                  (case driver of Some d \<Rightarrow> entry_add d 1 counts | None \<Rightarrow> counts)))"

definition fetch_csi_volume_counts ::
  "volume_api \<Rightarrow> (string \<times> pvc_binding_info) list \<Rightarrow> (string \<times> pv_info) list \<Rightarrow> string list \<Rightarrow>
   fetch_error + (string, i64) btree" where
  "fetch_csi_volume_counts api pvcs pvs claims =
     count_csi_volumes_by_driver (resolve_csi_driver api pvcs pvs) claims {} [] []"

text \<open>
  The part of a scheduling attempt before the first pick: a failed lookup leaves the pod pending, a claim
  that does not exist defers it, otherwise the pod carries what the lookups found.
\<close>

datatype lookup = Lookup_Failed fetch_error | Claim_Missing string | Resolved pending_pod

definition resolve_volumes :: "volume_api \<Rightarrow> pending_pod \<Rightarrow> lookup" where
  "resolve_volumes api pod =
     (let claims = pvc_names pod in
      if claims = [] then Resolved pod
      else (case fetch_pvc_binding_info_batch api (pod_namespace pod) claims of
              Inl e \<Rightarrow> Lookup_Failed e
            | Inr pvcs \<Rightarrow>
                (case List.find (\<lambda>name. map_of pvcs name = None) claims of
                   Some name \<Rightarrow> Claim_Missing name
                 | None \<Rightarrow>
                     (case fetch_pv_info_batch api (filter (\<lambda>v. v \<noteq> []) (map (info_volume_name \<circ> snd) pvcs)) of
                        Inl e \<Rightarrow> Lookup_Failed e
                      | Inr pvs \<Rightarrow>
                          (case fetch_csi_volume_counts api pvcs pvs claims of
                             Inl e \<Rightarrow> Lookup_Failed e
                           | Inr counts \<Rightarrow>
                               (case fetch_unbound_csi_pvc_drivers api pvcs claims of
                                  Inl e \<Rightarrow> Lookup_Failed e
                                | Inr drivers \<Rightarrow>
                                    Resolved (pod
                                      \<lparr>pv_node_affinities := fetch_bound_pv_node_affinities pvcs pvs claims,
                                       csi_volume_counts := counts,
                                       read_write_once_pod_pvcs := fetch_read_write_once_pod_pvc_names pvcs claims,
                                       unbound_csi_pvc_drivers := unbound_csi_pvc_drivers pod @ drivers\<rparr>)))))))"

subsection \<open>Stamping the node on unbound claims\<close>

definition selected_node_patches ::
  "string list \<Rightarrow> string \<Rightarrow> (string \<Rightarrow> pvc_binding_info option) \<Rightarrow> (string \<Rightarrow> string option) \<Rightarrow>
   (string \<times> string) list" where
  "selected_node_patches claims node pvc_lookup sc_lookup =
     List.map_filter (\<lambda>name. case pvc_lookup name of
          None \<Rightarrow> None
        | Some info \<Rightarrow>
            if info_volume_name info \<noteq> [] then None
            else (case nonempty (info_storage_class_name info) of
                    None \<Rightarrow> None
                  | Some sc \<Rightarrow>
                      if sc_lookup sc \<noteq> Some ''WaitForFirstConsumer'' then None
                      else if info_selected_node info = Some node then None
                      else Some (name, node))) claims"

definition selected_node_annotation_patch :: "string \<Rightarrow> json" where
  "selected_node_annotation_patch node =
     JObj [(''metadata'', JObj [(''annotations'', JObj [(''volume.kubernetes.io/selected-node'', JStr node)])])]"

definition stamp_selected_node_for_pvcs ::
  "volume_api \<Rightarrow> string \<Rightarrow> string list \<Rightarrow> string \<Rightarrow> (string \<times> json) list" where
  "stamp_selected_node_for_pvcs api namespace claims node =
     (let infos = fold (\<lambda>name m. case fetch_pvc_binding_info api namespace name of
                                  Inr (Some info) \<Rightarrow> AList.update name info m
                                | _ \<Rightarrow> m) claims [];
          modes = fold (\<lambda>info m. case nonempty (info_storage_class_name info) of
                                   None \<Rightarrow> m
                                 | Some sc \<Rightarrow>
                                     if map_of m sc \<noteq> None then m
                                     else (case fetch_storage_class_binding_mode api sc of
                                             Inr (Some mode) \<Rightarrow> AList.update sc mode m
                                           | _ \<Rightarrow> m)) (map snd infos) []
      in if claims = [] then []
         else map (\<lambda>(claim, n). (pvc_path namespace claim, selected_node_annotation_patch n))
                (selected_node_patches claims node (map_of infos) (map_of modes)))"

subsection \<open>The lookups agree with the tally\<close>

lemma fetch_batch_all:
  assumes "\<forall>n \<in> set rest. fetch n = Inr (f n)"
  obtains m where "fetch_batch fetch rest seen infos = Inr m"
    "\<And>k. map_of m k = (if k \<in> set rest - seen \<and> f k \<noteq> None then f k else map_of infos k)"
  using assms
proof (induction rest arbitrary: seen infos thesis)
  case Nil
  then show ?case by simp
next
  case (Cons n rest)
  have all: "\<forall>n \<in> set rest. fetch n = Inr (f n)" and n: "fetch n = Inr (f n)" using Cons.prems(2) by auto
  show ?case
  proof (cases "n \<in> seen")
    case True
    obtain m where "fetch_batch fetch rest seen infos = Inr m"
      "\<And>k. map_of m k = (if k \<in> set rest - seen \<and> f k \<noteq> None then f k else map_of infos k)"
      using Cons.IH [OF _ all] by blast
    then show ?thesis using True by (intro Cons.prems(1) [of m]) auto
  next
    case False
    let ?infos = "case f n of None \<Rightarrow> infos | Some i \<Rightarrow> AList.update n i infos"
    obtain m where m: "fetch_batch fetch rest (insert n seen) ?infos = Inr m"
      "\<And>k. map_of m k = (if k \<in> set rest - insert n seen \<and> f k \<noteq> None then f k else map_of ?infos k)"
      using Cons.IH [OF _ all] by blast
    have "fetch_batch fetch (n # rest) seen infos = Inr m" using False n m(1) by (auto split: option.splits)
    then show ?thesis
      by (rule Cons.prems(1)) (use False m(2) in \<open>auto simp: update_conv split: option.splits\<close>)
  qed
qed

lemma count_by_driver_all:
  assumes "\<forall>n \<in> set rest. resolve n = Inr (f n)" "fst ` set cache \<subseteq> seen"
  shows "count_csi_volumes_by_driver resolve rest seen cache counts =
    Inr (fst (fold (\<lambda>pvc (counts, seen).
            if pvc \<in> seen then (counts, seen)
            else (case f pvc of Some driver \<Rightarrow> entry_add driver 1 counts | None \<Rightarrow> counts, insert pvc seen))
          rest (counts, seen)))"
  using assms
proof (induction rest arbitrary: seen cache counts)
  case (Cons n rest)
  show ?case
  proof (cases "n \<in> seen")
    case False
    then have "map_of cache n = None" using Cons.prems(2) by (auto simp: map_of_eq_None_iff)
    moreover have "fst ` set (AList.update n (f n) cache) \<subseteq> insert n seen"
      using Cons.prems(2) by (auto simp: update_keys simp flip: set_map dest!: set_mp split: if_splits)
    ultimately show ?thesis using False Cons by simp
  qed (use Cons in simp)
qed simp

text \<open>
  The caches of the tally hold what the API answers for the claims of a pod: each claim with its volume and
  class, the driver of each volume and the provisioner of each class.
\<close>

definition caches_current :: "volume_api \<Rightarrow> node_tally \<Rightarrow> string \<Rightarrow> string list \<Rightarrow> bool" where
  "caches_current api t namespace claims =
     ((\<forall>c \<in> set claims. \<exists>info. fetch_pvc_binding_info api namespace c = Inr info \<and>
         map_of (tally_pvcs t) (pvc_key namespace c) =
           map_option (\<lambda>i. \<lparr>pvi_volume_name = info_volume_name i,
                           pvi_storage_class_name = info_storage_class_name i\<rparr>) info) \<and>
      (\<forall>v. v \<noteq> [] \<longrightarrow> (\<exists>info. fetch_pv_info api v = Inr info \<and>
         map_of (pv_csi_drivers t) v = Option.bind info pv_csi_driver)) \<and>
      (\<forall>sc. sc \<noteq> [] \<longrightarrow> fetch_storage_class_provisioner api sc = Inr (map_of (sc_provisioners t) sc)) \<and>
      map_of (sc_provisioners t) [] = None)"

lemma nonempty_simps [simp]:
  "nonempty None = None" "nonempty (Some s) = (if s = [] then None else Some s)"
  by (auto simp: nonempty_def split: list.splits)

lemma unbound_drivers_all:
  assumes "\<forall>sc. sc \<noteq> [] \<longrightarrow> (\<exists>p. fetch_storage_class_provisioner api sc = Inr p)"
  shows "\<exists>ds. fetch_unbound_csi_pvc_drivers api pvcs claims = Inr ds"
proof (induction claims)
  case (Cons c claims)
  then obtain ds where ds: "fetch_unbound_csi_pvc_drivers api pvcs claims = Inr ds" by blast
  have "\<exists>p. fetch_storage_class_provisioner api sc = Inr p" if "nonempty sc' = Some sc" for sc sc'
    using that assms by (cases sc') (auto split: if_splits)
  then show ?case using ds by (fastforce split: option.split)
qed simp

lemma fetch_batch_current:
  assumes "\<forall>c \<in> set cs. \<exists>info. fetch c = Inr info"
  obtains m where "fetch_batch fetch cs {} [] = Inr m" "\<And>c. c \<in> set cs \<Longrightarrow> fetch c = Inr (map_of m c)"
proof -
  have all: "\<forall>c \<in> set cs. fetch c = Inr (projr (fetch c))" using assms by auto
  from fetch_batch_all [OF this, of "{}" "[]"] obtain m where m: "fetch_batch fetch cs {} [] = Inr m"
    "\<And>k. map_of m k = (if k \<in> set cs - {} \<and> projr (fetch k) \<noteq> None then projr (fetch k) else map_of [] k)"
    by blast
  show thesis by (rule that [OF m(1)]) (use all m(2) in auto)
qed

lemma resolve_driver_agrees:
  assumes cur: "caches_current api t namespace claims" and c: "c \<in> set claims"
    and pvc: "fetch_pvc_binding_info api namespace c = Inr (map_of pvcs c)"
    and pv: "\<And>i v. map_of pvcs c = Some i \<Longrightarrow> v = info_volume_name i \<Longrightarrow> v \<noteq> [] \<Longrightarrow> fetch_pv_info api v = Inr (map_of pvs v)"
  shows "resolve_csi_driver api pvcs pvs c = Inr (tally_resolve_csi_driver t namespace c)"
proof (cases "map_of pvcs c")
  case None
  then show ?thesis using cur c pvc by (auto simp: caches_current_def resolve_csi_driver_def tally_resolve_csi_driver_def)
next
  case (Some i)
  have tally: "map_of (tally_pvcs t) (pvc_key namespace c) =
      Some \<lparr>pvi_volume_name = info_volume_name i, pvi_storage_class_name = info_storage_class_name i\<rparr>"
    using cur c pvc Some by (auto simp: caches_current_def)
  have vol: "Option.bind (map_of pvs (info_volume_name i)) pv_csi_driver = map_of (pv_csi_drivers t) (info_volume_name i)"
    if "info_volume_name i \<noteq> []"
    using pv [OF Some refl that] cur that by (auto simp: caches_current_def)
  have sc: "fetch_storage_class_provisioner api s = Inr (map_of (sc_provisioners t) s)" if "s \<noteq> []" for s
    using cur that by (simp add: caches_current_def)
  have none: "map_of (sc_provisioners t) [] = None" using cur by (simp add: caches_current_def)
  show ?thesis
    using Some tally vol sc none
    by (cases "info_storage_class_name i")
       (auto simp: resolve_csi_driver_def tally_resolve_csi_driver_def split: option.splits)
qed

text \<open>C30: The attach counts that a scheduling attempt reads through the API are the counts the tally will hold
  against a node for the same pod. When the tally's caches hold what the API answers, an attempt defers
  the pod exactly for the first claim that does not exist, and otherwise goes on with the same pod and
  with the number of volumes per driver that the tally counts for its claims.
\<close>

theorem attach_counts_agree:
  assumes cur: "caches_current api t (pod_namespace pod) (pvc_names pod)" and "csi_volume_counts pod = []"
  shows "case List.find (\<lambda>c. map_of (tally_pvcs t) (pvc_key (pod_namespace pod) c) = None) (pvc_names pod) of
      Some c \<Rightarrow> resolve_volumes api pod = Claim_Missing c
    | None \<Rightarrow> \<exists>pod'. resolve_volumes api pod = Resolved pod' \<and> pod_key pod' = pod_key pod \<and>
        csi_volume_counts pod' = count_csi_volumes t (pod_namespace pod) (pvc_names pod)"
proof (cases "pvc_names pod = []")
  case True
  then show ?thesis using assms(2) by (simp add: resolve_volumes_def count_csi_volumes_def)
next
  case False
  let ?ns = "pod_namespace pod" and ?claims = "pvc_names pod"
  obtain pvcs where pvcs: "fetch_pvc_binding_info_batch api ?ns ?claims = Inr pvcs"
      and pvc: "\<And>c. c \<in> set ?claims \<Longrightarrow> fetch_pvc_binding_info api ?ns c = Inr (map_of pvcs c)"
    using cur unfolding fetch_pvc_binding_info_batch_def caches_current_def
    by (elim conjE) (rule fetch_batch_current [of ?claims "fetch_pvc_binding_info api ?ns"], auto)
  have absent: "map_of (tally_pvcs t) (pvc_key ?ns c) = None \<longleftrightarrow> map_of pvcs c = None" if "c \<in> set ?claims" for c
    using that cur pvc [OF that] by (fastforce simp: caches_current_def)
  then have missing: "List.find (\<lambda>c. map_of (tally_pvcs t) (pvc_key ?ns c) = None) ?claims =
      List.find (\<lambda>c. map_of pvcs c = None) ?claims"
    by (intro find_cong) auto
  let ?vols = "filter (\<lambda>v. v \<noteq> []) (map (info_volume_name \<circ> snd) pvcs)"
  obtain pvs where pvs: "fetch_pv_info_batch api ?vols = Inr pvs"
      and plook: "\<And>v. v \<in> set ?vols \<Longrightarrow> fetch_pv_info api v = Inr (map_of pvs v)"
    using cur unfolding fetch_pv_info_batch_def caches_current_def
    by (elim conjE) (rule fetch_batch_current [of "filter (\<lambda>v. v \<noteq> []) ?vols" "fetch_pv_info api"], auto)
  have pv: "fetch_pv_info api v = Inr (map_of pvs v)"
    if "map_of pvcs c = Some i" "v = info_volume_name i" "v \<noteq> []" for c i v
    using that by (intro plook) (force dest: map_of_SomeD)
  have "\<forall>c \<in> set ?claims. resolve_csi_driver api pvcs pvs c = Inr (tally_resolve_csi_driver t ?ns c)"
  proof
    fix c
    assume c: "c \<in> set ?claims"
    show "resolve_csi_driver api pvcs pvs c = Inr (tally_resolve_csi_driver t ?ns c)"
      by (rule resolve_driver_agrees [OF cur c pvc [OF c]]) (rule pv)
  qed
  then have counts: "fetch_csi_volume_counts api pvcs pvs ?claims = Inr (count_csi_volumes t ?ns ?claims)"
    unfolding fetch_csi_volume_counts_def count_csi_volumes_def by (intro count_by_driver_all) auto
  have "\<forall>sc. sc \<noteq> [] \<longrightarrow> (\<exists>p. fetch_storage_class_provisioner api sc = Inr p)" using cur by (simp add: caches_current_def)
  then obtain ds where "fetch_unbound_csi_pvc_drivers api pvcs ?claims = Inr ds"
    using unbound_drivers_all by blast
  then show ?thesis
    using False pvcs pvs counts missing
    by (auto simp: resolve_volumes_def Let_def pod_key_def split: option.split)
qed

definition claim_pod :: pending_pod where
  "claim_pod = (cpu_pod ''p'' 0 100)\<lparr>pvc_names := [''v'', ''v'']\<rparr>"

definition claim_api :: volume_api where
  "claim_api =
     \<lparr>api_get = (\<lambda>path. if path = pvc_path ''d'' ''v'' then Some (200, ''pvc'')
                      else if path = storage_class_path ''fast'' then Some (200, ''class'') else Some (404, '''')),
      parse_pvc = (\<lambda>_. Some \<lparr>claim_volume_name = '''', claim_storage_class = Some ''fast'', claim_annotations = [],
                             claim_access_modes = []\<rparr>),
      parse_pv = (\<lambda>_. None),
      parse_storage_class = (\<lambda>_. Some \<lparr>volume_binding_mode = None, provisioner = ''csi''\<rparr>)\<rparr>"

definition claim_tally :: node_tally where
  "claim_tally = empty_tally
     \<lparr>tally_pvcs := [(''d/v'', \<lparr>pvi_volume_name = '''', pvi_storage_class_name = Some ''fast''\<rparr>)],
      sc_provisioners := [(''fast'', ''csi'')]\<rparr>"

theorem attach_counts_agree_witness:
  "\<exists>pod'. resolve_volumes claim_api claim_pod = Resolved pod' \<and> csi_volume_counts pod' = [(''csi'', 1)]"
proof -
  have "caches_current claim_api claim_tally (pod_namespace claim_pod) (pvc_names claim_pod)"
    by (auto simp: caches_current_def claim_api_def claim_tally_def claim_pod_def cpu_pod_def sample_pod_def
        fetch_pvc_binding_info_def fetch_pv_info_def fetch_storage_class_provisioner_def get_object_def
        pvc_path_def pv_path_def storage_class_path_def pvc_key_def empty_tally_def)
  moreover have "csi_volume_counts claim_pod = []" by (simp add: claim_pod_def cpu_pod_def sample_pod_def)
  moreover have "List.find (\<lambda>c. map_of (tally_pvcs claim_tally) (pvc_key (pod_namespace claim_pod) c) = None)
      (pvc_names claim_pod) = None"
    "count_csi_volumes claim_tally (pod_namespace claim_pod) (pvc_names claim_pod) = [(''csi'', 1)]"
    by code_simp+
  ultimately show ?thesis using attach_counts_agree [of claim_api claim_tally claim_pod] by auto
qed

end
