(* ===== verification/Sched_Time.thy ===== *)
theory Sched_Time
  imports U7s_Prelude "HOL-Library.Word"
begin

text \<open>
  Names and timestamps of scheduling events (\<^verbatim>\<open>scheduling_event_name\<close> and
  \<^verbatim>\<open>scheduling_event_timestamp\<close> of \<^verbatim>\<open>crates/scheduler/src/lib.rs\<close>). The calendar
  arithmetic of the code is compared with counting days through the Gregorian calendar.
\<close>

subsection \<open>Printing\<close>

definition hex_char :: "nat \<Rightarrow> char" where
  "hex_char n = ''0123456789abcdef'' ! n"

fun hex_str :: "nat \<Rightarrow> string" where
  "hex_str n = (if n < 16 then [hex_char n] else hex_str (n div 16) @ [hex_char (n mod 16)])"

declare hex_str.simps [simp del]

definition pad_str :: "nat \<Rightarrow> int \<Rightarrow> string" where
  "pad_str w n = (let s = int_str n in replicate (w - length s) CHR ''0'' @ s)"

definition scheduling_event_name :: "string \<Rightarrow> nat \<Rightarrow> string" where
  "scheduling_event_name pod nanos = pod @ ''.'' @ hex_str nanos"

subsection \<open>Timestamps\<close>

text \<open>Division of \<^verbatim>\<open>i64\<close> rounds towards zero.\<close>

definition i64_div :: "int \<Rightarrow> int \<Rightarrow> int" where
  "i64_div a b = (if 0 \<le> a then a div b else - ((- a) div b))"

definition civil_from_days :: "int \<Rightarrow> int \<times> int \<times> int" where
  "civil_from_days days =
     (let z = days + 719468;
          era = (if 0 \<le> z then i64_div z 146097 else i64_div (z - 146096) 146097);
          doe = z - era * 146097;
          yoe = i64_div (doe - i64_div doe 1460 + i64_div doe 36524 - i64_div doe 146096) 365;
          y = yoe + era * 400;
          doy = doe - (365 * yoe + i64_div yoe 4 - i64_div yoe 100);
          mp = i64_div (5 * doy + 2) 153;
          day = doy - i64_div (153 * mp + 2) 5 + 1;
          month = (if mp < 10 then mp + 3 else mp - 9);
          year = (if month \<le> 2 then y + 1 else y)
      in (year, month, day))"

definition scheduling_event_timestamp :: "nat \<Rightarrow> string" where
  "scheduling_event_timestamp nanos =
     (let secs = sint (word_of_nat (nanos div 1000000000) :: 64 word);
          secs_of_day = secs mod 86400;
          s = secs_of_day mod 60;
          m = i64_div secs_of_day 60 mod 60;
          h = i64_div secs_of_day 3600 mod 24;
          (year, month, day) = civil_from_days (secs div 86400)
      in pad_str 4 year @ ''-'' @ pad_str 2 month @ ''-'' @ pad_str 2 day @ ''T'' @
         pad_str 2 h @ '':'' @ pad_str 2 m @ '':'' @ pad_str 2 s @ ''Z'')"

subsection \<open>The Gregorian calendar\<close>

definition leap_year :: "int \<Rightarrow> bool" where
  "leap_year y = (y mod 4 = 0 \<and> (y mod 100 \<noteq> 0 \<or> y mod 400 = 0))"

definition month_length :: "int \<Rightarrow> int \<Rightarrow> int" where
  "month_length y m =
     (if m = 2 then if leap_year y then 29 else 28
      else if m = 4 \<or> m = 6 \<or> m = 9 \<or> m = 11 then 30 else 31)"

definition next_day :: "int \<times> int \<times> int \<Rightarrow> int \<times> int \<times> int" where
  "next_day d =
     (case d of (year, month, day) \<Rightarrow>
        if day < month_length year month then (year, month, day + 1)
        else if month < 12 then (year, month + 1, 1) else (year + 1, 1, 1))"

definition calendar :: "nat \<Rightarrow> int \<times> int \<times> int" where
  "calendar n = (next_day ^^ n) (1970, 1, 1)"

subsection \<open>Years of an era\<close>

text \<open>
  An era is four hundred years of 146097 days. Its years begin in March, so the leap day is the last day of
  a year. \<^verbatim>\<open>year_start\<close> is the day of the era on which a year begins.
\<close>

definition year_start :: "int \<Rightarrow> int" where
  "year_start y = 365 * y + y div 4 - y div 100 + y div 400"

definition year_of :: "int \<Rightarrow> int" where
  "year_of doe = (doe - doe div 1460 + doe div 36524 - doe div 146096) div 365"

lemma div_step:
  fixes k :: int
  assumes "0 < k"
  shows "(d + 1) div k = d div k + (if k dvd d + 1 then 1 else 0)"
proof -
  have d: "d = k * (d div k) + d mod k" by simp
  have r: "0 \<le> d mod k" "d mod k < k" using assms by simp_all
  show ?thesis
  proof (cases "d mod k + 1 = k")
    case True
    then have e: "d + 1 = k * (d div k + 1)" using d unfolding distrib_left mult_1_right by linarith
    then have "(d + 1) div k = d div k + 1" using assms by simp
    moreover have "k dvd d + 1" unfolding e by simp
    ultimately show ?thesis by simp
  next
    case False
    then have "d + 1 = k * (d div k) + (d mod k + 1)" "0 \<le> d mod k + 1" "d mod k + 1 < k" using d r by auto
    then have "(d + 1) div k = d div k" "(d + 1) mod k = d mod k + 1"
      by (rule int_div_pos_eq, rule int_mod_pos_eq)
    then show ?thesis using r by (simp add: dvd_eq_mod_eq_0)
  qed
qed

lemma year_of_step: "0 \<le> d \<Longrightarrow> year_of d \<le> year_of (d + 1)"
proof -
  have "146096 dvd d + 1 \<Longrightarrow> 36524 dvd d + 1" by (rule dvd_trans [of _ 146096]) simp_all
  then have "d - d div 1460 + d div 36524 - d div 146096 \<le>
      (d + 1) - (d + 1) div 1460 + (d + 1) div 36524 - (d + 1) div 146096"
    by (simp add: div_step)
  then show "year_of d \<le> year_of (d + 1)" unfolding year_of_def by (rule zdiv_mono1) simp
qed

lemma year_of_mono: "0 \<le> a \<Longrightarrow> a \<le> b \<Longrightarrow> year_of a \<le> year_of b"
proof (induction "nat (b - a)" arbitrary: b)
  case (Suc n)
  then have "year_of a \<le> year_of (b - 1)" by auto
  also have "\<dots> \<le> year_of (b - 1 + 1)" using Suc by (intro year_of_step) auto
  finally show ?case by simp
qed auto

lemma year_bounds: "list_all (\<lambda>y. year_of (year_start y) = y \<and> year_of (year_start (y + 1) - 1) = y) [0..399]"
  by code_simp

lemma year_found: "0 \<le> d \<Longrightarrow> d < year_start (int n) \<Longrightarrow> \<exists>y. 0 \<le> y \<and> y < int n \<and> year_start y \<le> d \<and> d < year_start (y + 1)"
proof (induction n)
  case (Suc n)
  show ?case
  proof (cases "d < year_start (int n)")
    case True
    with Suc obtain y where "0 \<le> y" "y < int n" "year_start y \<le> d" "d < year_start (y + 1)" by auto
    then show ?thesis by auto
  next
    case False
    with Suc.prems show ?thesis by (intro exI [of _ "int n"]) (auto simp: add.commute)
  qed
qed (simp add: year_start_def)

lemma year_of_era:
  assumes "0 \<le> doe" "doe < 146097"
  shows "0 \<le> year_of doe \<and> year_of doe \<le> 399 \<and> year_start (year_of doe) \<le> doe \<and> doe < year_start (year_of doe + 1)"
proof -
  have "year_start (int 400) = 146097" by (simp add: year_start_def)
  with year_found [of doe 400] assms obtain y where
    y: "0 \<le> y" "y < 400" "year_start y \<le> doe" "doe < year_start (y + 1)" by auto
  have "y \<in> set [0..399]" using y by simp
  then have e: "year_of (year_start y) = y" "year_of (year_start (y + 1) - 1) = y"
    using year_bounds unfolding list_all_iff by blast+
  have "0 \<le> year_start y" using y(1) by (simp add: year_start_def)
  then have "y \<le> year_of doe" "year_of doe \<le> y" using e y year_of_mono [of "year_start y" doe]
      year_of_mono [of doe "year_start (y + 1) - 1"] assms by auto
  then show ?thesis using y by auto
qed

subsection \<open>Days of a year\<close>

definition month_of :: "int \<Rightarrow> int \<times> int" where
  "month_of doy =
     (let mp = (5 * doy + 2) div 153 in (if mp < 10 then mp + 3 else mp - 9, doy - (153 * mp + 2) div 5 + 1))"

text \<open>The length of a month where February has its leap day.\<close>

lemma months: "list_all (\<lambda>doy. let (m, d) = month_of doy; (m', d') = month_of (doy + 1) in
    1 \<le> m \<and> m \<le> 12 \<and> (m \<le> 2 \<longrightarrow> 306 \<le> doy) \<and> (2 < m \<longrightarrow> doy < 306) \<and>
    (m = 2 \<longrightarrow> d = doy - 336) \<and>
    (if m \<noteq> 2 then (m', d') = (if d < month_length 4 m then (m, d + 1) else if m < 12 then (m + 1, 1) else (1, 1))
     else m' = 2 \<and> d' = d + 1)) [0..364]"
  by code_simp

lemma month_last: "month_of 365 = (2, 29)" "month_of 364 = (2, 28)" "month_of 0 = (3, 1)"
  by code_simp+

definition date_of :: "int \<Rightarrow> int \<Rightarrow> int \<times> int \<times> int" where
  "date_of year doy = (let (m, d) = month_of doy in (if m \<le> 2 then year + 1 else year, m, d))"

lemma year_unique:
  assumes "0 \<le> y" "y \<le> 399" "year_start y \<le> doe" "doe < year_start (y + 1)"
  shows "year_of doe = y"
proof -
  have "y \<in> set [0..399]" using assms by simp
  then have e: "year_of (year_start y) = y" "year_of (year_start (y + 1) - 1) = y"
    using year_bounds unfolding list_all_iff by blast+
  have "0 \<le> year_start y" using assms(1) by (simp add: year_start_def)
  then show ?thesis
    using e assms year_of_mono [of "year_start y" doe] year_of_mono [of doe "year_start (y + 1) - 1"] by auto
qed

lemma neg_div_ceiling:
  fixes k :: int
  assumes "0 < k"
  shows "- ((k - 1 - z) div k) = z div k"
proof -
  have "k - 1 - z = k * (- (z div k)) + (k - 1 - z mod k)" by (simp add: minus_mod_eq_mult_div [symmetric])
  moreover have "0 \<le> k - 1 - z mod k" "k - 1 - z mod k < k" using assms pos_mod_bound [of k z] pos_mod_sign [of k z] by linarith+
  ultimately have "(k - 1 - z) div k = - (z div k)" by (rule int_div_pos_eq)
  then show ?thesis by simp
qed

lemma civil_eq:
  "civil_from_days days =
   (let z = days + 719468; doe = z mod 146097
    in date_of (year_of doe + z div 146097 * 400) (doe - year_start (year_of doe)))"
proof -
  define z where "z = days + 719468"
  define doe where "doe = z mod 146097"
  have doe: "0 \<le> doe" "doe < 146097" by (simp_all add: doe_def)
  note y = year_of_era [OF doe]
  have "- ((146096 - z) div 146097) = z div 146097" using neg_div_ceiling [of 146097 z] by simp
  then have era: "(if 0 \<le> z then i64_div z 146097 else i64_div (z - 146096) 146097) = z div 146097"
    by (auto simp: i64_div_def)
  have rest: "z - z div 146097 * 146097 = doe" by (simp add: doe_def minus_div_mult_eq_mod)
  have yoe: "i64_div (doe - i64_div doe 1460 + i64_div doe 36524 - i64_div doe 146096) 365 = year_of doe"
    using doe y by (auto simp: i64_div_def year_of_def) 
  have doy: "doe - (365 * year_of doe + i64_div (year_of doe) 4 - i64_div (year_of doe) 100) =
      doe - year_start (year_of doe)"
    using y by (simp add: i64_div_def year_start_def div_pos_pos_trivial)
  have "0 \<le> doe - year_start (year_of doe)" using y by simp
  then have month: "i64_div (5 * (doe - year_start (year_of doe)) + 2) 153 = (5 * (doe - year_start (year_of doe)) + 2) div 153"
    "i64_div (153 * ((5 * (doe - year_start (year_of doe)) + 2) div 153) + 2) 5 =
      (153 * ((5 * (doe - year_start (year_of doe)) + 2) div 153) + 2) div 5"
    by (simp_all add: i64_div_def)
  show ?thesis
    unfolding civil_from_days_def Let_def z_def [symmetric] era rest yoe doy month
    by (simp add: Let_def date_of_def month_of_def flip: z_def doe_def)
qed

lemma year_length:
  assumes "0 \<le> y"
  shows "year_start (y + 1) - year_start y = (if leap_year (y + era * 400 + 1) then 366 else 365)"
proof -
  have "k dvd 400 \<Longrightarrow> (y + era * 400 + 1) mod k = 0 \<longleftrightarrow> k dvd y + 1" for k
    using dvd_add_left_iff [of k "era * 400" "y + 1"] by (simp add: dvd_eq_mod_eq_0 [symmetric] algebra_simps)
  then have m: "(y + era * 400 + 1) mod 4 = 0 \<longleftrightarrow> 4 dvd y + 1" "(y + era * 400 + 1) mod 100 = 0 \<longleftrightarrow> 100 dvd y + 1"
    "(y + era * 400 + 1) mod 400 = 0 \<longleftrightarrow> 400 dvd y + 1"
    by simp_all
  have imp: "400 dvd y + 1 \<longrightarrow> 100 dvd y + 1" "100 dvd y + 1 \<longrightarrow> 4 dvd y + 1"
    using dvd_trans [of 100 400 "y + 1"] dvd_trans [of 4 100 "y + 1"] by simp_all
  have d: "(y + 1) div 4 = y div 4 + of_bool (4 dvd y + 1)" "(y + 1) div 100 = y div 100 + of_bool (100 dvd y + 1)"
    "(y + 1) div 400 = y div 400 + of_bool (400 dvd y + 1)"
    unfolding of_bool_def by (rule div_step, simp)+
  have lin: "365 * (y + 1) + (a + a') - (b + b') + (c + c') - (365 * y + a - b + c) = 365 + a' - b' + c'"
    for a a' b b' c c' :: int by simp
  have step: "year_start (y + 1) - year_start y =
      365 + of_bool (4 dvd y + 1) - of_bool (100 dvd y + 1) + of_bool (400 dvd y + 1)"
    unfolding year_start_def d by (rule lin)
  have "365 + of_bool a - of_bool b + of_bool c = (if a \<and> (\<not> b \<or> c) then 366 else (365 :: int))"
    if "c \<longrightarrow> b" "b \<longrightarrow> a" for a b c
    using that by (cases a; cases b; cases c; simp)
  from this [OF imp] show ?thesis unfolding step leap_year_def m .
qed

lemma next_day_within:
  assumes "0 \<le> doy" "doy \<le> 364" "doy = 364 \<Longrightarrow> leap_year (year + 1)"
  shows "next_day (date_of year doy) = date_of year (doy + 1)"
proof -
  have "doy \<in> set [0..364]" using assms by simp
  then have m: "let (m, d) = month_of doy; (m', d') = month_of (doy + 1) in
    1 \<le> m \<and> m \<le> 12 \<and> (m \<le> 2 \<longrightarrow> 306 \<le> doy) \<and> (2 < m \<longrightarrow> doy < 306) \<and>
    (m = 2 \<longrightarrow> d = doy - 336) \<and>
    (if m \<noteq> 2 then (m', d') = (if d < month_length 4 m then (m, d + 1) else if m < 12 then (m + 1, 1) else (1, 1))
     else m' = 2 \<and> d' = d + 1)"
    using months unfolding list_all_iff by blast
  show ?thesis
    using m assms
    by (auto simp: Let_def date_of_def next_day_def month_length_def split: prod.splits if_splits)
qed

lemma next_day_last:
  "next_day (date_of year (if leap_year (year + 1) then 365 else 364)) = date_of (year + 1) 0"
  by (simp add: date_of_def month_last next_day_def month_length_def)

lemma mod_step:
  fixes k :: int
  assumes "0 < k"
  shows "z mod k + 1 < k \<Longrightarrow> (z + 1) mod k = z mod k + 1 \<and> (z + 1) div k = z div k"
    and "z mod k + 1 = k \<Longrightarrow> (z + 1) mod k = 0 \<and> (z + 1) div k = z div k + 1"
proof -
  have z: "z + 1 = k * (z div k) + (z mod k + 1)" by simp
  show "(z + 1) mod k = z mod k + 1 \<and> (z + 1) div k = z div k" if "z mod k + 1 < k"
    using int_div_pos_eq [OF z] int_mod_pos_eq [OF z] that pos_mod_sign [OF assms, of z] by simp
  show "(z + 1) mod k = 0 \<and> (z + 1) div k = z div k + 1" if "z mod k + 1 = k"
  proof -
    have "z + 1 = k * (z div k + 1) + 0" using z that unfolding distrib_left by linarith
    then show ?thesis using int_div_pos_eq int_mod_pos_eq assms by blast
  qed
qed

lemma civil_step: "civil_from_days (days + 1) = next_day (civil_from_days days)"
proof -
  define z where "z = days + 719468"
  define doe where "doe = z mod 146097"
  define y where "y = year_of doe"
  define Y where "Y = y + z div 146097 * 400"
  have doe: "0 \<le> doe" "doe < 146097" by (simp_all add: doe_def)
  have y: "0 \<le> y" "y \<le> 399" "year_start y \<le> doe" "doe < year_start (y + 1)"
    using year_of_era [OF doe] by (simp_all add: y_def)
  have last: "year_of 146096 = 399" "year_start 400 = 146097" "year_of 0 = 0" "year_start 0 = 0" by code_simp+
  have len: "year_start (y + 1) - year_start y = (if leap_year (Y + 1) then 366 else 365)"
    using year_length [OF y(1), of "z div 146097"] by (simp add: Y_def)
  have civil: "civil_from_days days = date_of Y (doe - year_start y)"
    by (simp add: civil_eq Let_def Y_def y_def doe_def z_def)
  have civil1: "civil_from_days (days + 1) = date_of (year_of ((z + 1) mod 146097) + (z + 1) div 146097 * 400)
      ((z + 1) mod 146097 - year_start (year_of ((z + 1) mod 146097)))"
    by (simp add: civil_eq Let_def z_def add.assoc add.commute)
  consider (within) "doe + 1 < year_start (y + 1)" | (year) "doe + 1 = year_start (y + 1)" using y(4) by linarith
  then show ?thesis
  proof cases
    case within
    then have "doe \<noteq> 146096" using last by (auto simp: y_def)
    then have n: "(z + 1) mod 146097 = doe + 1" "(z + 1) div 146097 = z div 146097"
      using mod_step(1) [of 146097 z] doe by (simp_all add: doe_def)
    have "year_of (doe + 1) = y" using y within by (intro year_unique) auto
    then have "civil_from_days (days + 1) = date_of Y (doe - year_start y + 1)"
      unfolding civil1 n by (simp add: Y_def algebra_simps)
    also have "\<dots> = next_day (date_of Y (doe - year_start y))"
      using y within len by (intro next_day_within [symmetric]) (auto split: if_splits)
    finally show ?thesis unfolding civil .
  next
    case year
    have "civil_from_days (days + 1) = date_of (Y + 1) 0"
    proof (cases "doe = 146096")
      case True
      then have "(z + 1) mod 146097 = 0" "(z + 1) div 146097 = z div 146097 + 1" "y = 399"
        using mod_step(2) [of 146097 z] last by (simp_all add: doe_def y_def)
      then show ?thesis unfolding civil1 Y_def by (simp add: last add.commute)
    next
      case False
      then have n: "(z + 1) mod 146097 = year_start (y + 1)" "(z + 1) div 146097 = z div 146097"
        using mod_step(1) [of 146097 z] doe year by (simp_all add: doe_def)
      have "y + 1 \<le> 399" using False year y(2) last(2) by (cases "y = 399") auto
      then have "year_of (year_start (y + 1)) = y + 1"
        using y(1) year_length [of "y + 1" 0] by (intro year_unique) (auto split: if_splits)
      then show ?thesis unfolding civil1 n Y_def by (simp add: algebra_simps)
    qed
    also have "doe - year_start y = (if leap_year (Y + 1) then 365 else 364)" using year len by (simp split: if_splits)
    then have "date_of (Y + 1) 0 = next_day (date_of Y (doe - year_start y))" using next_day_last [of Y] by simp
    finally show ?thesis unfolding civil .
  qed
qed

text \<open>C32: The timestamp on a scheduling event is the time of day and the Gregorian date: for every time that
  fits in 64 bits of seconds, the date printed is the one reached from 1 January 1970 by counting one day
  at a time through the calendar.
\<close>

theorem event_timestamp_exact:
  assumes "nanos div 10 ^ 9 < 2 ^ 63"
  shows "scheduling_event_timestamp nanos =
    (let secs = nanos div 10 ^ 9; (year, month, day) = calendar (secs div 86400)
     in pad_str 4 year @ ''-'' @ pad_str 2 month @ ''-'' @ pad_str 2 day @ ''T'' @
        pad_str 2 (int (secs div 3600 mod 24)) @ '':'' @ pad_str 2 (int (secs div 60 mod 60)) @ '':'' @
        pad_str 2 (int (secs mod 60)) @ ''Z'')"
proof -
  define secs where "secs = nanos div 10 ^ 9"
  have civil: "civil_from_days (int n) = calendar n" for n
  proof (induction n)
    case 0
    show ?case unfolding calendar_def by code_simp
  next
    case (Suc n)
    then show ?case using civil_step [of "int n"] by (simp add: calendar_def add.commute)
  qed
  have s: "sint (word_of_nat (nanos div 1000000000) :: 64 word) = int secs"
    using assms by (simp add: secs_def signed_of_nat signed_take_bit_int_eq_self)
  have part: "secs mod 86400 div 60 mod 60 = secs div 60 mod 60" "secs mod 86400 div 3600 mod 24 = secs div 3600 mod 24"
    "secs mod 86400 mod 60 = secs mod 60"
    subgoal using mod_mult2_eq [of secs 60 1440] by (simp add: mod_mod_cancel)
    subgoal using mod_mult2_eq [of secs 3600 24] by simp
    by (simp add: mod_mod_cancel)
  have day: "int secs mod 86400 = int (secs mod 86400)" "int secs div 86400 = int (secs div 86400)"
    by (simp_all add: zmod_int zdiv_int)
  have i: "i64_div (int a) 60 = int (a div 60)" "i64_div (int a) 3600 = int (a div 3600)" "int a mod 60 = int (a mod 60)"
    "int a mod 24 = int (a mod 24)" for a
    by (simp_all add: i64_div_def zmod_int zdiv_int)
  show ?thesis
    unfolding scheduling_event_timestamp_def secs_def [symmetric] Let_def s day i part civil ..
qed

theorem event_timestamp_exact_witness:
  "scheduling_event_timestamp 5101261000000000 = ''1970-03-01T01:01:01Z''"
proof -
  have "calendar 59 = (1970, 3, 1)" by code_simp
  moreover have "pad_str 4 1970 = ''1970''" "pad_str 2 3 = ''03''" "pad_str 2 1 = ''01''" by code_simp+
  ultimately show ?thesis using event_timestamp_exact [of 5101261000000000] by simp
qed

end
