(* ===== verification/Sched_Run.thy ===== *)
theory Sched_Run
  imports Sched_Volumes Sched_Time
begin

text \<open>
  The scheduler's tasks (\<^verbatim>\<open>crates/scheduler/src/run.rs\<close>, with the requests they send from
  \<^verbatim>\<open>lib.rs\<close>): pod watch events, scheduling attempts, preemption with its deferred bind, the
  periodic resync and the replay of a watch. A task is the place where an attempt waits for an answer; a
  step runs one task up to its next wait, with the answer of the API as an argument, so a run is a sequence
  of steps and any interleaving of the tasks is one. The answers of the API and the deserialization of its
  objects are parameters.
\<close>

subsection \<open>Requests to the API\<close>

datatype api_request = Post string json | Patch string json | Delete string

definition binding_path :: "string \<Rightarrow> string \<Rightarrow> string" where
  "binding_path namespace name = ''/api/v1/namespaces/'' @ namespace @ ''/pods/'' @ name @ ''/binding''"

definition binding_payload :: "string \<Rightarrow> string \<Rightarrow> string \<Rightarrow> json" where
  "binding_payload namespace name node =
     JObj [(''apiVersion'', JStr ''v1''), (''kind'', JStr ''Binding''),
           (''metadata'', JObj [(''name'', JStr name), (''namespace'', JStr namespace)]),
           (''target'', JObj [(''apiVersion'', JStr ''v1''), (''kind'', JStr ''Node''), (''name'', JStr node)])]"

definition delete_pod_path :: "string \<Rightarrow> string \<Rightarrow> string" where
  "delete_pod_path namespace name = ''/api/v1/namespaces/'' @ namespace @ ''/pods/'' @ name"

definition pod_status_path :: "string \<Rightarrow> string \<Rightarrow> string" where
  "pod_status_path namespace name = ''/api/v1/namespaces/'' @ namespace @ ''/pods/'' @ name @ ''/status''"

definition events_path :: "string \<Rightarrow> string" where
  "events_path namespace = ''/api/v1/namespaces/'' @ namespace @ ''/events''"

definition scheduling_event_payload ::
  "string \<Rightarrow> string \<Rightarrow> string \<Rightarrow> string \<Rightarrow> string \<Rightarrow> string \<Rightarrow> string \<Rightarrow> json" where
  "scheduling_event_payload namespace name event_name reason message ty timestamp =
     JObj [(''apiVersion'', JStr ''v1''), (''count'', JInt 1), (''firstTimestamp'', JStr timestamp),
           (''involvedObject'', JObj [(''apiVersion'', JStr ''v1''), (''kind'', JStr ''Pod''), (''name'', JStr name),
                                      (''namespace'', JStr namespace)]),
           (''kind'', JStr ''Event''), (''lastTimestamp'', JStr timestamp), (''message'', JStr message),
           (''metadata'', JObj [(''name'', JStr event_name), (''namespace'', JStr namespace)]),
           (''reason'', JStr reason), (''source'', JObj [(''component'', JStr ''u7s-scheduler'')]),
           (''type'', JStr ty)]"

definition disruption_target_patch :: "string \<Rightarrow> json" where
  "disruption_target_patch pending =
     condition_patch
       [(''message'', ''u7s-scheduler: preempting to accommodate higher priority pod '' @ pending),
        (''reason'', ''PreemptionByScheduler''), (''status'', ''True''), (''type'', ''DisruptionTarget'')]"

definition nominated_node_name_patch :: "string \<Rightarrow> json" where
  "nominated_node_name_patch node = JObj [(''status'', JObj [(''nominatedNodeName'', JStr node)])]"

datatype bind_error = Already_Assigned string | Bind_Other string

definition check_bind_response :: "nat \<Rightarrow> string \<Rightarrow> bind_error option" where
  "check_bind_response status body =
     (if 200 \<le> status \<and> status < 300 then None
      else if status = 409 \<and> str_contains body ''already assigned to node''
      then Some (Already_Assigned (''bind rejected with HTTP 409 (pod already assigned elsewhere): '' @ body))
      else Some (Bind_Other (''bind failed with HTTP '' @ nat_str status @ '': '' @ body)))"

definition check_delete_response :: "nat \<Rightarrow> bool" where
  "check_delete_response status = (200 \<le> status \<and> status < 300 \<or> status = 404 \<or> status = 409)"

subsection \<open>The state\<close>

text \<open>
  A task: a scheduling attempt before its volume lookups, before a preemption plan with the attempts left,
  while its victims are evicted, while its bind is sent, after its end with the outcome to report; and a
  deferred bind before its check and while its bind is sent.
\<close>

datatype task =
    Attempt json pending_pod
  | Planning json pending_pod string nat
  | Evicting json pending_pod string nat preemption_plan "string list"
  | Binding json pending_pod string
  | Reporting json pending_pod "string + string"
  | Deferred_Check pending_pod string
  | Deferred_Bind pending_pod string

record replay_buffer =
  buf_fresh :: node_tally
  buf_synced :: bool

record sched =
  sch_tally :: node_tally
  in_flight :: "string set"
  tasks :: "task list"
  sent :: "api_request list"
  pod_replay :: replay_buffer
  replay_deferred :: "json list"

definition replay_default :: replay_buffer where
  "replay_default = \<lparr>buf_fresh = empty_tally, buf_synced = False\<rparr>"

definition sched_start :: sched where
  "sched_start = \<lparr>sch_tally = empty_tally, in_flight = {}, tasks = [], sent = [], pod_replay = replay_default,
     replay_deferred = []\<rparr>"

text \<open>Deserialization of the pod of an event, as the tally and as the scheduler read it.\<close>

record codecs =
  de_item :: "json \<Rightarrow> pod_list_item watch_event option"
  de_pod :: "json \<Rightarrow> pod_object option"
  de_event :: "json \<Rightarrow> pod_object watch_event option"

text \<open>What a task learns from outside when it goes on: the API, the answer to its request, the clocks.\<close>

record answers =
  ans_volumes :: volume_api
  ans_response :: "http_response option"
  ans_error :: string
  ans_nanos :: nat
  ans_now :: nat

definition send :: "api_request \<Rightarrow> sched \<Rightarrow> sched" where
  "send r s = s\<lparr>sent := sent s @ [r]\<rparr>"

definition patch_pod_status :: "string \<Rightarrow> string \<Rightarrow> json \<Rightarrow> sched \<Rightarrow> sched" where
  "patch_pod_status namespace name patch s = send (Patch (pod_status_path namespace name) patch) s"

definition emit_scheduling_event :: "answers \<Rightarrow> pending_pod \<Rightarrow> string \<Rightarrow> string \<Rightarrow> string \<Rightarrow> sched \<Rightarrow> sched" where
  "emit_scheduling_event ans pod reason message ty s =
     send (Post (events_path (pod_namespace pod))
       (scheduling_event_payload (pod_namespace pod) (pod_name pod)
          (scheduling_event_name (pod_name pod) (ans_nanos ans)) reason message ty
          (scheduling_event_timestamp (ans_nanos ans)))) s"

definition release_key :: "string \<Rightarrow> sched \<Rightarrow> sched" where
  "release_key key s = s\<lparr>in_flight := in_flight s - {key}\<rparr>"

definition with_tally :: "(node_tally \<Rightarrow> node_tally) \<Rightarrow> sched \<Rightarrow> sched" where
  "with_tally f s = s\<lparr>sch_tally := f (sch_tally s)\<rparr>"

definition forget_pod :: "pending_pod \<Rightarrow> sched \<Rightarrow> sched" where
  "forget_pod pod = with_tally (tally_remove (pod_namespace pod) (pod_name pod))"

subsection \<open>Pod events\<close>

definition spawn :: "task list \<Rightarrow> sched \<Rightarrow> sched" where
  "spawn ts s = s\<lparr>tasks := tasks s @ ts\<rparr>"

definition handle_pod_event :: "codecs \<Rightarrow> json \<Rightarrow> sched \<Rightarrow> sched" where
  "handle_pod_event c event s =
     (let (t, ready) = apply_event (de_item c) event (sch_tally s);
          s1 = spawn (map (\<lambda>(pod, node). Deferred_Check pod node) ready) (s\<lparr>sch_tally := t\<rparr>);
          s2 = (case scheduling_gate_status_patch (de_event c) event of
                  Some (namespace, name, patch) \<Rightarrow> patch_pod_status namespace name patch s1
                | None \<Rightarrow> s1)
      in case needs_scheduling (de_pod c) event of
           None \<Rightarrow> s2
         | Some pod \<Rightarrow>
             if \<not> should_schedule (in_flight s2) (pod_key pod) then s2
             else spawn [Attempt event pod] (s2\<lparr>in_flight := insert (pod_key pod) (in_flight s2)\<rparr>))"

subsection \<open>One attempt\<close>

definition max_preemption_attempts :: nat where
  "max_preemption_attempts = 5"

definition select_error_message :: "select_error \<Rightarrow> string" where
  "select_error_message e =
     (case e of
        Max_Volume_Count \<Rightarrow> ''node(s) exceed max volume count''
      | Driver_Missing driver \<Rightarrow> driver @ '' CSI driver is not installed on the node''
      | No_Fit \<Rightarrow> ''no node satisfies the pod'' @ [CHR 0x27] @
          ''s nodeSelector/tolerations with free pod/resource capacity (NodeResourcesFit)'')"

definition attempt_step :: "codecs \<Rightarrow> answers \<Rightarrow> json \<Rightarrow> pending_pod \<Rightarrow> sched \<Rightarrow> task option \<times> sched" where
  "attempt_step c ans event pod s =
     (let s1 = (case scheduling_gate_status_reset (de_event c) event of
                  Some patch \<Rightarrow> patch_pod_status (pod_namespace pod) (pod_name pod) patch s
                | None \<Rightarrow> s)
      in case resolve_volumes (ans_volumes ans) pod of
           Lookup_Failed _ \<Rightarrow> (None, release_key (pod_key pod) s1)
         | Claim_Missing claim \<Rightarrow>
             (let message = ''persistentvolumeclaim \"'' @ claim @ ''\" not found'';
                  s2 = (case failed_scheduling_status_patch (de_event c) event message of
                          Some patch \<Rightarrow> patch_pod_status (pod_namespace pod) (pod_name pod) patch s1
                        | None \<Rightarrow> s1);
                  s3 = emit_scheduling_event ans pod ''FailedScheduling'' message ''Warning'' s2
              in (None, release_key (pod_key pod)
                    (with_tally (register_pvc_waiter (pod_namespace pod) claim (pod_key pod)) s3)))
         | Resolved pod' \<Rightarrow>
             (case pick_node pod' (sch_tally s1) of
                Inr (node, t) \<Rightarrow> (Some (Binding event pod' node), s1\<lparr>sch_tally := t\<rparr>)
              | Inl e \<Rightarrow> (Some (Planning event pod' (select_error_message e) max_preemption_attempts), s1)))"

text \<open>The next try of \<^verbatim>\<open>preempt_and_pick_node\<close>, or its end when no try is left.\<close>

definition next_try :: "json \<Rightarrow> pending_pod \<Rightarrow> string \<Rightarrow> nat \<Rightarrow> sched \<Rightarrow> task option \<times> sched" where
  "next_try event pod message left s =
     (if left = 0 then (Some (Reporting event pod (Inl message)), release_key (pod_key pod) s)
      else (Some (Planning event pod message left), s))"

definition planning_step :: "json \<Rightarrow> pending_pod \<Rightarrow> string \<Rightarrow> nat \<Rightarrow> sched \<Rightarrow> task option \<times> sched" where
  "planning_step event pod message left s =
     (case find_preemption_plan pod (sch_tally s) of
        None \<Rightarrow> next_try event pod message (left - 1) s
      | Some (plan, t) \<Rightarrow>
          (Some (Evicting event pod message (left - 1) plan (pp_victims plan)),
           patch_pod_status (pod_namespace pod) (pod_name pod) (nominated_node_name_patch (pp_node_name plan))
             (s\<lparr>sch_tally := t\<rparr>)))"

definition evicting_step ::
  "answers \<Rightarrow> json \<Rightarrow> pending_pod \<Rightarrow> string \<Rightarrow> nat \<Rightarrow> preemption_plan \<Rightarrow> string list \<Rightarrow> sched \<Rightarrow>
   task option \<times> sched" where
  "evicting_step ans event pod message left plan rest s =
     (case rest of
        [] \<Rightarrow>
          (None, with_tally (register_preemption_waiter pod (pp_node_name plan) (pp_victims plan) \<circ>
             release_victims (pp_victims plan)) s)
      | victim # rest' \<Rightarrow>
          (case split_once CHR ''/'' victim of
             None \<Rightarrow> (Some (Evicting event pod message left plan rest'), s)
           | Some (namespace, name) \<Rightarrow>
               (let s1 = send (Delete (delete_pod_path namespace name))
                      (patch_pod_status namespace name (disruption_target_patch (pod_name pod)) s)
                in if (case ans_response ans of Some (status, _) \<Rightarrow> check_delete_response status | None \<Rightarrow> False)
                   then (Some (Evicting event pod message left plan rest'), with_tally (tally_remove namespace name) s1)
                   else next_try event pod message left
                     (with_tally (release_victims (pp_victims plan)) (forget_pod pod s1)))))"

definition bind_reserved_node :: "answers \<Rightarrow> pending_pod \<Rightarrow> string \<Rightarrow> sched \<Rightarrow> bind_error option \<times> sched" where
  "bind_reserved_node ans pod node s =
     (let s1 = fold (\<lambda>(path, patch). send (Patch path patch))
                 (stamp_selected_node_for_pvcs (ans_volumes ans) (pod_namespace pod) (pvc_names pod) node) s;
          s2 = send (Post (binding_path (pod_namespace pod) (pod_name pod))
                 (binding_payload (pod_namespace pod) (pod_name pod) node)) s1;
          result = (case ans_response ans of
                      None \<Rightarrow> Some (Bind_Other (ans_error ans))
                    | Some (status, body) \<Rightarrow> check_bind_response status body)
      in (result, case result of Some (Bind_Other _) \<Rightarrow> forget_pod pod s2 | _ \<Rightarrow> s2))"

definition binding_step :: "answers \<Rightarrow> json \<Rightarrow> pending_pod \<Rightarrow> string \<Rightarrow> sched \<Rightarrow> task option \<times> sched" where
  "binding_step ans event pod node s =
     (let (result, s1) = bind_reserved_node ans pod node s; s2 = release_key (pod_key pod) s1
      in case result of
           None \<Rightarrow> (Some (Reporting event pod (Inr node)), s2)
         | Some (Already_Assigned _) \<Rightarrow> (None, s2)
         | Some (Bind_Other message) \<Rightarrow> (Some (Reporting event pod (Inl message)), s2))"

definition scheduled_message :: "pending_pod \<Rightarrow> string \<Rightarrow> string" where
  "scheduled_message pod node =
     ''Successfully assigned '' @ pod_namespace pod @ ''/'' @ pod_name pod @ '' to '' @ node"

definition reporting_step :: "codecs \<Rightarrow> answers \<Rightarrow> json \<Rightarrow> pending_pod \<Rightarrow> string + string \<Rightarrow> sched \<Rightarrow> sched" where
  "reporting_step c ans event pod outcome s =
     (case outcome of
        Inr node \<Rightarrow>
          emit_scheduling_event ans pod ''Scheduled'' (scheduled_message pod node) ''Normal''
            (with_tally (\<lambda>t. t\<lparr>tally_failures := backoff_clear (pod_key pod) (tally_failures t)\<rparr>) s)
      | Inl message \<Rightarrow>
          (let s1 = (case failed_scheduling_status_patch (de_event c) event message of
                       Some patch \<Rightarrow> patch_pod_status (pod_namespace pod) (pod_name pod) patch s
                     | None \<Rightarrow> s);
               uid = or_default [] (as_str (json_idx (json_idx (json_idx event ''object'') ''metadata'') ''uid''));
               (failures, emit) = record_failure (pod_key pod) uid message (ans_now ans) (tally_failures (sch_tally s1));
               s2 = with_tally (\<lambda>t. t\<lparr>tally_failures := failures\<rparr>) s1
           in if emit then emit_scheduling_event ans pod ''FailedScheduling'' message ''Warning'' s2 else s2))"

subsection \<open>The deferred bind\<close>

definition deferred_check_step :: "pending_pod \<Rightarrow> string \<Rightarrow> sched \<Rightarrow> task option \<times> sched" where
  "deferred_check_step pod node s =
     (case fetch_node (sch_tally s) node of
        None \<Rightarrow> (None, release_key (pod_key pod) (forget_pod pod s))
      | Some item \<Rightarrow>
          if \<not> preemption_reservation_still_fits pod item (sch_tally s)
          then (None, release_key (pod_key pod) (forget_pod pod s))
          else (Some (Deferred_Bind pod node), s))"

definition deferred_bind_step :: "answers \<Rightarrow> pending_pod \<Rightarrow> string \<Rightarrow> sched \<Rightarrow> sched" where
  "deferred_bind_step ans pod node s =
     (let (result, s1) = bind_reserved_node ans pod node s;
          s2 = (if result = None
                then emit_scheduling_event ans pod ''Scheduled'' (scheduled_message pod node) ''Normal'' s1 else s1)
      in release_key (pod_key pod) s2)"

subsection \<open>Steps of tasks\<close>

definition task_step :: "codecs \<Rightarrow> answers \<Rightarrow> task \<Rightarrow> sched \<Rightarrow> task option \<times> sched" where
  "task_step c ans t s =
     (case t of
        Attempt event pod \<Rightarrow> attempt_step c ans event pod s
      | Planning event pod message left \<Rightarrow> planning_step event pod message left s
      | Evicting event pod message left plan rest \<Rightarrow> evicting_step ans event pod message left plan rest s
      | Binding event pod node \<Rightarrow> binding_step ans event pod node s
      | Reporting event pod outcome \<Rightarrow> (None, reporting_step c ans event pod outcome s)
      | Deferred_Check pod node \<Rightarrow> deferred_check_step pod node s
      | Deferred_Bind pod node \<Rightarrow> (None, deferred_bind_step ans pod node s))"

definition run_task :: "codecs \<Rightarrow> answers \<Rightarrow> nat \<Rightarrow> sched \<Rightarrow> sched" where
  "run_task c ans i s =
     (if i < length (tasks s) then
        (case task_step c ans (tasks s ! i) s of
           (None, s') \<Rightarrow> s'\<lparr>tasks := vec_remove i (tasks s)\<rparr>
         | (Some t, s') \<Rightarrow> s'\<lparr>tasks := (tasks s)[i := t]\<rparr>)
      else s)"

subsection \<open>Resync\<close>

text \<open>
  One pass over a listing that was read and parsed. A GET that fails, a status that is not a success and a
  list that does not parse end the pass before it touches anything.
\<close>

definition resync_once :: "codecs \<Rightarrow> json list \<Rightarrow> bool \<Rightarrow> nat \<Rightarrow> sched \<Rightarrow> sched \<times> nat option" where
  "resync_once c items respect_backoff now s =
     (let s1 = with_tally (\<lambda>t. t\<lparr>tally_failures :=
                 retain_pending (set (unscheduled_pod_uids (de_pod c) items)) (tally_failures t)\<rparr>) s;
          held = (if respect_backoff then backed_off now (tally_failures (sch_tally s1)) else []);
          snapshot = in_flight s1 \<union> fst ` set held;
          earliest = (case map snd held of [] \<Rightarrow> None | d # ds \<Rightarrow> Some (fold min ds d))
      in (fold (handle_pod_event c) (pods_needing_resync (de_pod c) items snapshot) s1, earliest))"

subsection \<open>Replay of a watch\<close>

definition is_object_event :: "json \<Rightarrow> bool" where
  "is_object_event event = (as_str (json_idx event ''type'') \<in> {Some ''ADDED'', Some ''MODIFIED'', Some ''DELETED''})"

definition is_initial_events_end_bookmark :: "json \<Rightarrow> bool" where
  "is_initial_events_end_bookmark event =
     (json_idx event ''type'' = JStr ''BOOKMARK'' \<and>
      json_idx (json_idx (json_idx (json_idx event ''object'') ''metadata'') ''annotations'')
        ''k8s.io/initial-events-end'' = JStr ''true'')"

text \<open>
  A buffer keeps what it swapped in, where the code moves it out; a synced buffer is not read again.
\<close>

datatype 'a replay = Consumed | Synced 'a | Live

definition absorb ::
  "(json \<Rightarrow> node_tally \<Rightarrow> node_tally) \<Rightarrow> (node_tally \<Rightarrow> node_tally \<Rightarrow> node_tally \<times> 'a) \<Rightarrow> json \<Rightarrow>
   replay_buffer \<Rightarrow> node_tally \<Rightarrow> 'a replay \<times> replay_buffer \<times> node_tally" where
  "absorb apply_to swap event b live =
     (if buf_synced b then (Live, b, live)
      else if is_initial_events_end_bookmark event then
        (case swap (buf_fresh b) live of (live', r) \<Rightarrow> (Synced r, b\<lparr>buf_synced := True\<rparr>, live'))
      else (Consumed, b\<lparr>buf_fresh := apply_to event (buf_fresh b)\<rparr>, live))"

definition cache_watch_event ::
  "(json \<Rightarrow> node_tally \<Rightarrow> node_tally \<times> bool) \<Rightarrow> (node_tally \<Rightarrow> node_tally \<Rightarrow> node_tally) \<Rightarrow> json \<Rightarrow>
   replay_buffer \<Rightarrow> node_tally \<Rightarrow> replay_buffer \<times> node_tally \<times> bool" where
  "cache_watch_event apply_to swap event b live =
     (case absorb (\<lambda>e t. fst (apply_to e t)) (\<lambda>fresh t. (swap fresh t, ())) event b live of
        (Consumed, b', live') \<Rightarrow> (b', live', False)
      | (Synced _, b', live') \<Rightarrow> (b', live', True)
      | (Live, b', live') \<Rightarrow> (case apply_to event live' of (live'', changed) \<Rightarrow> (b', live'', changed)))"

definition pvc_watch_event ::
  "(json \<Rightarrow> pvc_object watch_event option) \<Rightarrow> json \<Rightarrow> replay_buffer \<Rightarrow> node_tally \<Rightarrow>
   replay_buffer \<times> node_tally \<times> bool \<times> string list" where
  "pvc_watch_event de event b live =
     (case absorb (\<lambda>e t. fst (apply_pvc_event de e t)) replace_pvc_cache event b live of
        (Consumed, b', live') \<Rightarrow> (b', live', False, [])
      | (Synced waiting, b', live') \<Rightarrow> (b', live', True, waiting)
      | (Live, b', live') \<Rightarrow>
          (case apply_pvc_event de event live' of
             (live'', waiting) \<Rightarrow> (b', live'', json_idx event ''type'' \<noteq> JStr ''BOOKMARK'', waiting)))"

datatype pod_replay_step = Step_Deferred | Step_Synced "string list" "json list" | Step_Live json

definition pod_replay_absorb :: "codecs \<Rightarrow> json \<Rightarrow> sched \<Rightarrow> pod_replay_step \<times> sched" where
  "pod_replay_absorb c event s =
     (let unscheduled = set (unscheduled_pod_uids (de_pod c) (map (\<lambda>e. json_idx e ''object'') (replay_deferred s)))
      in case absorb (\<lambda>e t. fst (apply_event (de_item c) e t)) (\<lambda>fresh t. replace_pods fresh unscheduled t) event
                (pod_replay s) (sch_tally s) of
           (Consumed, b, t) \<Rightarrow>
             (Step_Deferred, s\<lparr>pod_replay := b, sch_tally := t, replay_deferred := replay_deferred s @ [event]\<rparr>)
         | (Synced abandoned, b, t) \<Rightarrow>
             (Step_Synced abandoned (replay_deferred s), s\<lparr>pod_replay := b, sch_tally := t, replay_deferred := []\<rparr>)
         | (Live, b, t) \<Rightarrow> (Step_Live event, s\<lparr>pod_replay := b, sch_tally := t\<rparr>))"

definition pod_watch_event :: "codecs \<Rightarrow> json \<Rightarrow> sched \<Rightarrow> sched" where
  "pod_watch_event c event s =
     (case pod_replay_absorb c event s of
        (Step_Deferred, s') \<Rightarrow> s'
      | (Step_Live e, s') \<Rightarrow> handle_pod_event c e s'
      | (Step_Synced abandoned deferred, s') \<Rightarrow>
          fold (handle_pod_event c) deferred (s'\<lparr>in_flight := in_flight s' - set abandoned\<rparr>))"

definition pod_watch_connect :: "sched \<Rightarrow> sched" where
  "pod_watch_connect s = s\<lparr>pod_replay := replay_default, replay_deferred := []\<rparr>"

definition redrive_event :: "json \<Rightarrow> json" where
  "redrive_event object = JObj [(''object'', object), (''type'', JStr ''MODIFIED'')]"

definition redrive_pod :: "codecs \<Rightarrow> (string \<Rightarrow> http_response option) \<Rightarrow> (string \<Rightarrow> json option) \<Rightarrow> string \<Rightarrow> sched \<Rightarrow> sched" where
  "redrive_pod c get parse key s =
     (case split_once CHR ''/'' key of
        None \<Rightarrow> s
      | Some (namespace, name) \<Rightarrow>
          (case get (delete_pod_path namespace name) of
             None \<Rightarrow> s
           | Some (status, body) \<Rightarrow>
               if \<not> (200 \<le> status \<and> status < 300) then s
               else (case parse body of
                       None \<Rightarrow> s
                     | Some object \<Rightarrow> handle_pod_event c (redrive_event object) s)))"

subsection \<open>Runs\<close>

text \<open>What the other watches do to the tally: an event of a cached kind, a finished replay, a rehash of the maps.\<close>

inductive cache_step :: "node_tally \<Rightarrow> node_tally \<Rightarrow> bool" where
  pvc: "cache_step t (fst (apply_pvc_event de_pvc e t))"
| pv: "cache_step t (apply_pv_event de_pv e t)"
| storage_class: "cache_step t (apply_storage_class_event de_sc e t)"
| csi_driver: "cache_step t (apply_csi_driver_event de_driver e t)"
| csi_node: "cache_step t (apply_csi_node_event de_csi_node e t)"
| node: "cache_step t (fst (apply_node_event de_node e t))"
| pvc_replay: "tally_reachable fresh \<Longrightarrow> cache_step t (fst (replace_pvc_cache fresh t))"
| pv_replay: "tally_reachable fresh \<Longrightarrow> cache_step t (replace_pv_cache fresh t)"
| storage_class_replay: "tally_reachable fresh \<Longrightarrow> cache_step t (replace_storage_class_cache fresh t)"
| csi_node_replay: "tally_reachable fresh \<Longrightarrow> cache_step t (replace_csi_node_cache fresh t)"
| csi_driver_replay: "tally_reachable fresh \<Longrightarrow> cache_step t (replace_csi_driver_cache fresh t)"
| node_replay: "tally_reachable fresh \<Longrightarrow> cache_step t (replace_node_cache fresh t)"
| rehash: "mset ps = mset (tally_pods t) \<Longrightarrow>
    (\<forall>n. mset (or_default [] (map_of idx n)) = mset (or_default [] (map_of (by_node t) n))) \<Longrightarrow>
    cache_step t (t\<lparr>tally_pods := ps, by_node := idx\<rparr>)"

inductive sched_reachable :: "codecs \<Rightarrow> sched \<Rightarrow> bool" for c where
  start: "sched_reachable c sched_start"
| watch: "sched_reachable c s \<Longrightarrow> sched_reachable c (pod_watch_event c e s)"
| connect: "sched_reachable c s \<Longrightarrow> sched_reachable c (pod_watch_connect s)"
| task: "sched_reachable c s \<Longrightarrow> sched_reachable c (run_task c ans i s)"
| resync: "sched_reachable c s \<Longrightarrow> sched_reachable c (fst (resync_once c items respect now s))"
| redrive: "sched_reachable c s \<Longrightarrow> sched_reachable c (redrive_pod c get parse key s)"
| cache: "sched_reachable c s \<Longrightarrow> cache_step (sch_tally s) t \<Longrightarrow> sched_reachable c (s\<lparr>sch_tally := t\<rparr>)"

subsection \<open>Who holds a key\<close>

text \<open>
  The pod a task schedules, unless the attempt is over and only its report is left; the victims an
  attempt has claimed; the pods that hold a key in flight, through a task or a waiting plan.
\<close>

fun task_pod :: "task \<Rightarrow> pending_pod option" where
  "task_pod (Attempt _ pod) = Some pod"
| "task_pod (Planning _ pod _ _) = Some pod"
| "task_pod (Evicting _ pod _ _ _ _) = Some pod"
| "task_pod (Binding _ pod _) = Some pod"
| "task_pod (Reporting _ _ _) = None"
| "task_pod (Deferred_Check pod _) = Some pod"
| "task_pod (Deferred_Bind pod _) = Some pod"

fun task_victims :: "task \<Rightarrow> string set" where
  "task_victims (Evicting _ _ _ _ plan _) = set (pp_victims plan)"
| "task_victims _ = {}"

definition plan_keys :: "node_tally \<Rightarrow> string list" where
  "plan_keys t = map (pod_key \<circ> plan_pod) (waiters t)"

definition task_keys :: "task list \<Rightarrow> string list" where
  "task_keys ts = map pod_key (List.map_filter task_pod ts)"

definition owners :: "sched \<Rightarrow> string list" where
  "owners s = task_keys (tasks s) @ plan_keys (sch_tally s)"

definition flights_ok :: "sched \<Rightarrow> bool" where
  "flights_ok s = (distinct (owners s) \<and> in_flight s = set (owners s))"

definition claims_ok :: "sched \<Rightarrow> bool" where
  "claims_ok s = (reserved_victims (sch_tally s) \<subseteq> (\<Union>t \<in> set (tasks s). task_victims t))"

text \<open>The pod of an attempt that may still reserve a node.\<close>

fun seeker :: "task \<Rightarrow> pending_pod option" where
  "seeker (Attempt _ pod) = Some pod"
| "seeker (Planning _ pod _ _) = Some pod"
| "seeker (Evicting _ pod _ _ _ _) = Some pod"
| "seeker _ = None"

definition pods_wf_ok :: "sched \<Rightarrow> bool" where
  "pods_wf_ok s =
     (tally_reachable (sch_tally s) \<and> tally_reachable (buf_fresh (pod_replay s)) \<and>
      (\<forall>t \<in> set (tasks s). \<forall>pod. seeker t = Some pod \<longrightarrow> requests_wf (requests pod)))"

lemma task_keys_simps [simp]:
  "task_keys [] = []" "task_keys (ts @ us) = task_keys ts @ task_keys us"
  "task_keys (t # ts) = (case task_pod t of None \<Rightarrow> [] | Some pod \<Rightarrow> [pod_key pod]) @ task_keys ts"
  by (auto simp: task_keys_def List.map_filter_def split: option.split)

subsection \<open>What operations leave alone\<close>

lemma tally_frame [simp]:
  "waiters (insert_pod key p t) = waiters t" "reserved_victims (insert_pod key p t) = reserved_victims t"
  "waiters (remove_pod key t) = waiters t" "reserved_victims (remove_pod key t) = reserved_victims t"
  "waiters (tally_assume pod node t) = waiters t" "reserved_victims (tally_assume pod node t) = reserved_victims t"
  "waiters (tally_remove ns name t) = waiters t" "reserved_victims (tally_remove ns name t) = reserved_victims t"
  "waiters (claim_victims vs t) = waiters t" "waiters (release_victims vs t) = waiters t"
  "reserved_victims (claim_victims vs t) = reserved_victims t \<union> set vs"
  "reserved_victims (release_victims vs t) = reserved_victims t - set vs"
  "reserved_victims (register_preemption_waiter pod node vs t) = reserved_victims t"
  "waiters (register_preemption_waiter pod node vs t) =
     waiters t @ [\<lparr>plan_pod = pod, plan_node = node, remaining_victims = set vs\<rparr>]"
  "waiters (register_pvc_waiter ns name key t) = waiters t"
  "reserved_victims (register_pvc_waiter ns name key t) = reserved_victims t"
  by (simp_all add: insert_pod_def remove_pod_def tally_assume_def tally_remove_def claim_victims_def
      release_victims_def register_preemption_waiter_def register_pvc_waiter_def waiters_register_def Let_def
      split: option.split)

lemma cache_step_frame: "cache_step t t' \<Longrightarrow> waiters t' = waiters t \<and> reserved_victims t' = reserved_victims t"
  by (induction rule: cache_step.induct)
     (auto simp: apply_pvc_event_def apply_pv_event_def apply_storage_class_event_def apply_csi_driver_event_def
        apply_csi_node_event_def apply_node_event_def replace_pvc_cache_def replace_pv_cache_def
        replace_storage_class_cache_def replace_csi_node_cache_def replace_csi_driver_cache_def
        replace_node_cache_def clear_node_cache_def Let_def split: option.split prod.split)

lemma cache_step_reachable: "cache_step t t' \<Longrightarrow> tally_reachable t \<Longrightarrow> tally_reachable t'"
  by (induction rule: cache_step.induct) (auto intro: tally_reachable.intros)

lemma pick_node_tally: "pick_node pod t = Inr (node, t') \<Longrightarrow> t' = tally_assume pod node t"
  by (auto simp: pick_node_alt split: option.splits)

lemma find_plan_tally:
  "find_preemption_plan pod t = Some (plan, t') \<Longrightarrow>
   t' = claim_victims (pp_victims plan) (tally_assume pod (pp_node_name plan) t)"
  by (auto simp: find_preemption_plan_def verify_and_reserve_preemption_def Let_def split: option.splits if_splits prod.splits)

lemma resolve_volumes_same:
  "resolve_volumes api pod = Resolved pod' \<Longrightarrow> pod_key pod' = pod_key pod \<and> requests pod' = requests pod"
  by (auto simp: resolve_volumes_def pod_key_def Let_def split: if_splits sum.splits option.splits)

lemma sched_frame [simp]:
  "sch_tally (send r s) = sch_tally s" "tasks (send r s) = tasks s" "in_flight (send r s) = in_flight s"
  "pod_replay (send r s) = pod_replay s"
  "sch_tally (patch_pod_status ns n p s) = sch_tally s" "tasks (patch_pod_status ns n p s) = tasks s"
  "in_flight (patch_pod_status ns n p s) = in_flight s" "pod_replay (patch_pod_status ns n p s) = pod_replay s"
  "sch_tally (emit_scheduling_event a pod rs m ty s) = sch_tally s"
  "tasks (emit_scheduling_event a pod rs m ty s) = tasks s"
  "in_flight (emit_scheduling_event a pod rs m ty s) = in_flight s"
  "pod_replay (emit_scheduling_event a pod rs m ty s) = pod_replay s"
  "sch_tally (release_key k s) = sch_tally s" "tasks (release_key k s) = tasks s"
  "in_flight (release_key k s) = in_flight s - {k}" "pod_replay (release_key k s) = pod_replay s"
  "sch_tally (with_tally f s) = f (sch_tally s)" "tasks (with_tally f s) = tasks s"
  "in_flight (with_tally f s) = in_flight s" "pod_replay (with_tally f s) = pod_replay s"
  "sch_tally (forget_pod pod s) = tally_remove (pod_namespace pod) (pod_name pod) (sch_tally s)"
  "tasks (forget_pod pod s) = tasks s" "in_flight (forget_pod pod s) = in_flight s"
  "pod_replay (forget_pod pod s) = pod_replay s"
  by (simp_all add: send_def patch_pod_status_def emit_scheduling_event_def release_key_def with_tally_def forget_pod_def)

subsection \<open>What a step of a task does\<close>

definition after :: "task option \<Rightarrow> task list" where
  "after o' = (case o' of None \<Rightarrow> [] | Some t \<Rightarrow> [t])"

lemma after_simps [simp]: "after None = []" "after (Some t) = [t]"
  by (simp_all add: after_def)

text \<open>
  A step keeps the key with the attempt or hands it to a waiting plan, or it ends the attempt and releases
  the key. It drops the claims of the task and takes those of what the task becomes.
\<close>

definition step_effect :: "task \<Rightarrow> sched \<Rightarrow> task option \<times> sched \<Rightarrow> bool" where
  "step_effect t s r =
     (case r of (o', s') \<Rightarrow>
        tasks s' = tasks s \<and> pod_replay s' = pod_replay s \<and>
        reserved_victims (sch_tally s') \<subseteq>
          reserved_victims (sch_tally s) - task_victims t \<union> (\<Union>t' \<in> set (after o'). task_victims t') \<and>
        (in_flight s' = in_flight s \<and>
           mset (task_keys (after o')) + mset (plan_keys (sch_tally s')) =
           mset (task_keys [t]) + mset (plan_keys (sch_tally s)) \<or>
         (\<exists>pod. task_pod t = Some pod \<and> in_flight s' = in_flight s - {pod_key pod} \<and>
           task_keys (after o') = [] \<and> plan_keys (sch_tally s') = plan_keys (sch_tally s))))"

lemma attempt_effect: "step_effect (Attempt event pod) s (attempt_step c ans event pod s)"
  unfolding attempt_step_def Let_def
  by (auto simp: step_effect_def plan_keys_def dest!: pick_node_tally resolve_volumes_same
      split: option.split lookup.split sum.split)

lemma planning_effect: "step_effect (Planning event pod message left) s (planning_step event pod message left s)"
  unfolding planning_step_def
  by (auto simp: step_effect_def plan_keys_def next_try_def dest!: find_plan_tally split: option.split)

lemma evicting_effect:
  "step_effect (Evicting event pod message left plan rest) s (evicting_step ans event pod message left plan rest s)"
  unfolding evicting_step_def Let_def
  by (auto simp: step_effect_def plan_keys_def next_try_def split: list.split option.split)

lemma bind_reserved_frame:
  assumes "bind_reserved_node ans pod node s = (result, s')"
  shows "tasks s' = tasks s" "pod_replay s' = pod_replay s" "in_flight s' = in_flight s"
    "waiters (sch_tally s') = waiters (sch_tally s)" "reserved_victims (sch_tally s') = reserved_victims (sch_tally s)"
proof -
  have fold: "sch_tally (fold (\<lambda>(path, patch). send (Patch path patch)) ps s) = sch_tally s \<and>
      tasks (fold (\<lambda>(path, patch). send (Patch path patch)) ps s) = tasks s \<and>
      in_flight (fold (\<lambda>(path, patch). send (Patch path patch)) ps s) = in_flight s \<and>
      pod_replay (fold (\<lambda>(path, patch). send (Patch path patch)) ps s) = pod_replay s" for ps s
    by (induction ps arbitrary: s) auto
  show "tasks s' = tasks s" "pod_replay s' = pod_replay s" "in_flight s' = in_flight s"
    "waiters (sch_tally s') = waiters (sch_tally s)" "reserved_victims (sch_tally s') = reserved_victims (sch_tally s)"
    using assms by (auto simp: bind_reserved_node_def Let_def fold split: option.splits bind_error.splits)
qed

lemma binding_effect: "step_effect (Binding event pod node) s (binding_step ans event pod node s)"
  unfolding binding_step_def Let_def
  by (auto simp: step_effect_def plan_keys_def bind_reserved_frame split: prod.split option.split bind_error.split)

lemma reporting_effect: "step_effect (Reporting event pod outcome) s (None, reporting_step c ans event pod outcome s)"
  by (auto simp: step_effect_def plan_keys_def reporting_step_def Let_def split: sum.split option.split prod.split)

lemma deferred_check_effect: "step_effect (Deferred_Check pod node) s (deferred_check_step pod node s)"
  by (auto simp: step_effect_def plan_keys_def deferred_check_step_def split: option.split)

lemma deferred_bind_effect: "step_effect (Deferred_Bind pod node) s (None, deferred_bind_step ans pod node s)"
  by (auto simp: step_effect_def plan_keys_def deferred_bind_step_def bind_reserved_frame Let_def split: prod.split)

lemma task_step_effect: "step_effect t s (task_step c ans t s)"
  by (cases t)
     (simp_all add: task_step_def attempt_effect planning_effect evicting_effect binding_effect reporting_effect
        deferred_check_effect deferred_bind_effect)

subsection \<open>The invariant\<close>

definition sched_inv :: "sched \<Rightarrow> bool" where
  "sched_inv s = (flights_ok s \<and> claims_ok s \<and> pods_wf_ok s)"

lemma apply_event_plans:
  assumes "apply_event de e t = (t', ready)"
  shows "mset (map (pod_key \<circ> fst) ready) + mset (plan_keys t') = mset (plan_keys t) \<and>
    reserved_victims t' = reserved_victims t"
proof -
  have split: "mset (map (pod_key \<circ> fst) (map (\<lambda>p. (plan_pod p, plan_node p)) (filter P ps))) +
      mset (map (pod_key \<circ> plan_pod) (filter (\<lambda>p. \<not> P p) ps)) = mset (map (pod_key \<circ> plan_pod) ps)" for P ps
    by (induction ps) auto
  have strike: "map (pod_key \<circ> plan_pod) (map (strike key) ps) = map (pod_key \<circ> plan_pod) ps" for key ps
    by (simp add: strike_def)
  have r: "mset (map (pod_key \<circ> fst) rd) + mset (map (pod_key \<circ> plan_pod) ws) = mset (map (pod_key \<circ> plan_pod) ps)"
    if "waiters_resolve key ps = (ws, rd)" for key ps ws rd
    using that split [of "\<lambda>p. remaining_victims p = {}" "map (strike key) ps"]
    unfolding waiters_resolve_eq prod.inject strike by auto
  show ?thesis
    using assms
    by (auto simp: apply_event_def plan_keys_def Let_def simp del: mset_map dest!: r split: option.splits prod.splits if_splits)
qed

lemma flights_ok_mset: "mset (owners s') = mset (owners s) \<Longrightarrow> in_flight s' = in_flight s \<Longrightarrow> flights_ok s \<Longrightarrow> flights_ok s'"
  unfolding flights_ok_def by (metis mset_eq_imp_distinct_iff mset_eq_setD)

lemma needs_scheduling_wf: "needs_scheduling de event = Some pod \<Longrightarrow> requests_wf (requests pod)"
  by (auto simp: needs_scheduling_def Let_def Option.bind_eq_Some_conv requests_wf_pending split: if_splits)

lemma handle_pod_event_inv:
  assumes "sched_inv s"
  shows "sched_inv (handle_pod_event c event s)"
proof -
  obtain t ready where a: "apply_event (de_item c) event (sch_tally s) = (t, ready)" by fastforce
  define s1 where "s1 = spawn (map (\<lambda>(pod, node). Deferred_Check pod node) ready) (s\<lparr>sch_tally := t\<rparr>)"
  define s2 where "s2 = (case scheduling_gate_status_patch (de_event c) event of
      Some (namespace, name, patch) \<Rightarrow> patch_pod_status namespace name patch s1 | None \<Rightarrow> s1)"
  have s2: "sch_tally s2 = t" "in_flight s2 = in_flight s" "pod_replay s2 = pod_replay s"
    "tasks s2 = tasks s @ map (\<lambda>(pod, node). Deferred_Check pod node) ready"
    by (auto simp: s2_def s1_def spawn_def split: option.split)
  have keys: "task_keys (map (\<lambda>(pod, node). Deferred_Check pod node) rs) = map (pod_key \<circ> fst) rs" for rs
    by (induction rs) auto
  have "mset (owners s2) = mset (owners s)" using apply_event_plans [OF a] by (simp add: owners_def s2 keys)
  then have f: "flights_ok s2" using assms s2(2) by (auto simp: sched_inv_def intro: flights_ok_mset)
  have c: "claims_ok s2" using assms apply_event_plans [OF a] by (auto simp: sched_inv_def claims_ok_def s2)
  have "tally_reachable t" using assms tally_reachable.event [of "sch_tally s" "de_item c" event] a
    by (simp add: sched_inv_def pods_wf_ok_def)
  then have w: "pods_wf_ok s2" using assms by (auto simp: sched_inv_def pods_wf_ok_def s2)
  have "handle_pod_event c event s = (case needs_scheduling (de_pod c) event of None \<Rightarrow> s2 | Some pod \<Rightarrow>
      if \<not> should_schedule (in_flight s2) (pod_key pod) then s2
      else spawn [Attempt event pod] (s2\<lparr>in_flight := insert (pod_key pod) (in_flight s2)\<rparr>))"
    unfolding handle_pod_event_def a Let_def prod.case s1_def s2_def by (rule refl)
  moreover have "sched_inv (spawn [Attempt event pod] (s2\<lparr>in_flight := insert (pod_key pod) (in_flight s2)\<rparr>))"
    if "needs_scheduling (de_pod c) event = Some pod" "should_schedule (in_flight s2) (pod_key pod)" for pod
    using f c w that needs_scheduling_wf [OF that(1)]
    by (auto simp: sched_inv_def flights_ok_def claims_ok_def pods_wf_ok_def owners_def spawn_def should_schedule_def)
  ultimately show ?thesis using f c w by (auto simp: sched_inv_def split: option.split)
qed

subsection \<open>Steps keep the invariant\<close>

definition wf_effect :: "task option \<times> sched \<Rightarrow> bool" where
  "wf_effect r =
     (case r of (o', s') \<Rightarrow>
        tally_reachable (sch_tally s') \<and>
        (\<forall>t \<in> set (after o'). \<forall>pod. seeker t = Some pod \<longrightarrow> requests_wf (requests pod)))"

lemmas tally_reachable_ops = tally_reachable.assumes' tally_reachable.removes tally_reachable.claims
  tally_reachable.releases tally_reachable.defers tally_reachable.waits tally_reachable.forgives
  tally_reachable.fails tally_reachable.retains

lemma bind_reserved_reachable:
  assumes "bind_reserved_node ans pod node s = (result, s')" "tally_reachable (sch_tally s)"
  shows "tally_reachable (sch_tally s')"
proof -
  have fold: "sch_tally (fold (\<lambda>(path, patch). send (Patch path patch)) ps s) = sch_tally s" for ps s
    by (induction ps arbitrary: s) auto
  show ?thesis
    using assms
    by (auto simp: bind_reserved_node_def Let_def fold intro: tally_reachable_ops split: option.splits bind_error.splits)
qed

lemma attempt_wf:
  assumes "tally_reachable (sch_tally s)" "requests_wf (requests pod)"
  shows "wf_effect (attempt_step c ans event pod s)"
  unfolding attempt_step_def Let_def
  using assms
  by (auto simp: wf_effect_def dest!: pick_node_tally resolve_volumes_same intro: tally_reachable_ops
      split: option.split lookup.split sum.split)

lemma planning_wf:
  assumes "tally_reachable (sch_tally s)" "requests_wf (requests pod)"
  shows "wf_effect (planning_step event pod message left s)"
  unfolding planning_step_def
  using assms
  by (auto simp: wf_effect_def next_try_def dest!: find_plan_tally intro!: tally_reachable_ops split: option.split)

lemma evicting_wf:
  assumes "tally_reachable (sch_tally s)" "requests_wf (requests pod)"
  shows "wf_effect (evicting_step ans event pod message left plan rest s)"
  unfolding evicting_step_def Let_def
  using assms by (auto simp: wf_effect_def next_try_def intro!: tally_reachable_ops split: list.split option.split)

lemma task_step_wf:
  assumes "tally_reachable (sch_tally s)" "\<And>pod. seeker t = Some pod \<Longrightarrow> requests_wf (requests pod)"
  shows "wf_effect (task_step c ans t s)"
proof (cases t)
  case (Binding event pod node)
  then show ?thesis
    using assms(1) unfolding task_step_def binding_step_def Let_def
    by (auto simp: wf_effect_def dest: bind_reserved_reachable split: prod.split option.split bind_error.split)
next
  case (Reporting event pod outcome)
  then show ?thesis
    using assms(1) tally_reachable.fails [of "sch_tally s"]
    by (auto simp: task_step_def wf_effect_def reporting_step_def Let_def intro: tally_reachable_ops
        split: sum.split option.split prod.split) (metis fst_conv)+
next
  case (Deferred_Check pod node)
  then show ?thesis
    using assms(1) by (auto simp: task_step_def deferred_check_step_def wf_effect_def intro: tally_reachable_ops split: option.split)
next
  case (Deferred_Bind pod node)
  then show ?thesis
    using assms(1)
    by (auto simp: task_step_def deferred_bind_step_def wf_effect_def Let_def dest: bind_reserved_reachable split: prod.split)
qed (use assms in \<open>simp_all add: task_step_def attempt_wf planning_wf evicting_wf\<close>)

lemma step_flights:
  assumes "step_effect t s (o', s')"
    and own: "mset (owners s) = mset (task_keys [t]) + mset (plan_keys (sch_tally s)) + mset rest"
    and "flights_ok s"
  shows "distinct (rest @ task_keys (after o') @ plan_keys (sch_tally s')) \<and>
    in_flight s' = set (rest @ task_keys (after o') @ plan_keys (sch_tally s'))"
  using assms(1) unfolding step_effect_def prod.case
proof (elim conjE disjE exE)
  assume "in_flight s' = in_flight s"
    "mset (task_keys (after o')) + mset (plan_keys (sch_tally s')) = mset (task_keys [t]) + mset (plan_keys (sch_tally s))"
  moreover from this own have "mset (owners s) = mset (rest @ task_keys (after o') @ plan_keys (sch_tally s'))"
    by (simp add: ac_simps)
  ultimately show ?thesis
    using assms(3) mset_eq_imp_distinct_iff mset_eq_setD unfolding flights_ok_def by metis
next
  fix pod
  assume pod: "task_pod t = Some pod" "in_flight s' = in_flight s - {pod_key pod}" "task_keys (after o') = []"
    "plan_keys (sch_tally s') = plan_keys (sch_tally s)"
  then have "mset (owners s) = mset (pod_key pod # rest @ plan_keys (sch_tally s))" using own by (simp add: ac_simps)
  then have "distinct (pod_key pod # rest @ plan_keys (sch_tally s))"
    "in_flight s = set (pod_key pod # rest @ plan_keys (sch_tally s))"
    using assms(3) mset_eq_imp_distinct_iff mset_eq_setD unfolding flights_ok_def by metis+
  then show ?thesis using pod by auto
qed

lemma run_task_inv:
  assumes "sched_inv s"
  shows "sched_inv (run_task c ans i s)"
proof (cases "i < length (tasks s)")
  case True
  obtain o' s' where step: "task_step c ans (tasks s ! i) s = (o', s')" by fastforce
  let ?pre = "take i (tasks s)" and ?t = "tasks s ! i" and ?post = "drop (Suc i) (tasks s)"
  have ts: "tasks s = ?pre @ ?t # ?post" using True by (rule id_take_nth_drop)
  have e: "step_effect ?t s (o', s')" using task_step_effect [of ?t s c ans] step by simp
  have "?t \<in> set (tasks s)" using True by simp
  then have "wf_effect (task_step c ans ?t s)"
    using assms by (intro task_step_wf) (auto simp: sched_inv_def pods_wf_ok_def)
  then have wf: "wf_effect (o', s')" by (simp add: step)
  have r: "run_task c ans i s = s'\<lparr>tasks := ?pre @ after o' @ ?post\<rparr>"
    using True step by (cases o') (simp_all add: run_task_def vec_remove_def upd_conv_take_nth_drop)
  have own: "mset (owners s) = mset (task_keys [?t]) + mset (plan_keys (sch_tally s)) + mset (task_keys (?pre @ ?post))"
    using arg_cong [OF ts, of task_keys] by (simp add: owners_def)
  have set_ts: "set (tasks s) = insert ?t (set ?pre \<union> set ?post)" using arg_cong [OF ts, of set] by simp
  have "flights_ok (run_task c ans i s)"
    using step_flights [OF e own] assms by (auto simp: r owners_def sched_inv_def flights_ok_def)
  moreover have "claims_ok (run_task c ans i s)"
    using e assms by (fastforce simp: r step_effect_def sched_inv_def claims_ok_def set_ts)
  moreover have "pods_wf_ok (run_task c ans i s)"
    using wf e assms by (auto simp: r wf_effect_def step_effect_def sched_inv_def pods_wf_ok_def set_ts)
  ultimately show ?thesis by (simp add: sched_inv_def)
qed (use assms in \<open>simp add: run_task_def\<close>)

lemma fold_handle_inv: "sched_inv s \<Longrightarrow> sched_inv (fold (handle_pod_event c) es s)"
  by (induction es arbitrary: s) (simp_all add: handle_pod_event_inv)

lemma replace_pods_frame:
  assumes "replace_pods fresh uids t = (t', abandoned)"
  shows "waiters t' = []" "reserved_victims t' = {}" "abandoned = plan_keys t"
  using assms by (auto simp: replace_pods_def tally_clear_def waiters_clear_def plan_keys_def Let_def)

lemma pod_watch_event_inv:
  assumes "sched_inv s"
  shows "sched_inv (pod_watch_event c event s)"
proof -
  define uids where "uids = set (unscheduled_pod_uids (de_pod c) (map (\<lambda>e. json_idx e ''object'') (replay_deferred s)))"
  consider (live) "buf_synced (pod_replay s)"
    | (sync) "\<not> buf_synced (pod_replay s)" "is_initial_events_end_bookmark event"
    | (consume) "\<not> buf_synced (pod_replay s)" "\<not> is_initial_events_end_bookmark event" by blast
  then show ?thesis
  proof cases
    case live
    then have "pod_watch_event c event s = handle_pod_event c event s"
      by (simp add: pod_watch_event_def pod_replay_absorb_def absorb_def)
    then show ?thesis using handle_pod_event_inv [OF assms] by simp
  next
    case sync
    obtain t abandoned where sw: "replace_pods (buf_fresh (pod_replay s)) uids (sch_tally s) = (t, abandoned)" by fastforce
    define s1 where "s1 = s\<lparr>pod_replay := (pod_replay s)\<lparr>buf_synced := True\<rparr>, sch_tally := t, replay_deferred := [],
        in_flight := in_flight s - set abandoned\<rparr>"
    have "pod_watch_event c event s = fold (handle_pod_event c) (replay_deferred s) s1"
      using sync sw by (simp add: pod_watch_event_def pod_replay_absorb_def absorb_def s1_def uids_def Let_def)
    moreover have "tally_reachable t"
      using assms sw tally_reachable.replaces [of "sch_tally s" "buf_fresh (pod_replay s)" uids]
      by (simp add: sched_inv_def pods_wf_ok_def)
    then have "sched_inv s1"
      using assms replace_pods_frame [OF sw]
      by (auto simp: s1_def sched_inv_def flights_ok_def claims_ok_def pods_wf_ok_def owners_def plan_keys_def)
    ultimately show ?thesis by (simp add: fold_handle_inv)
  next
    case consume
    have "tally_reachable (fst (apply_event (de_item c) event (buf_fresh (pod_replay s))))"
      using assms by (intro tally_reachable.event) (simp add: sched_inv_def pods_wf_ok_def)
    then show ?thesis
      using consume assms
      by (simp add: pod_watch_event_def pod_replay_absorb_def absorb_def sched_inv_def flights_ok_def claims_ok_def pods_wf_ok_def owners_def)
  qed
qed

lemma sched_reachable_inv: "sched_reachable c s \<Longrightarrow> sched_inv s"
proof (induction rule: sched_reachable.induct)
  case start
  show ?case
    by (simp add: sched_start_def sched_inv_def flights_ok_def claims_ok_def pods_wf_ok_def owners_def plan_keys_def
        empty_tally_def replay_default_def tally_reachable.start [unfolded empty_tally_def])
next
  case (connect s)
  then show ?case
    by (simp add: pod_watch_connect_def sched_inv_def flights_ok_def claims_ok_def pods_wf_ok_def owners_def
        replay_default_def tally_reachable.start)
next
  case (resync s items respect now)
  let ?s1 = "with_tally (\<lambda>t. t\<lparr>tally_failures := retain_pending (set (unscheduled_pod_uids (de_pod c) items)) (tally_failures t)\<rparr>) s"
  have "sched_inv ?s1"
    using resync.IH
    by (auto simp: sched_inv_def flights_ok_def claims_ok_def pods_wf_ok_def owners_def plan_keys_def intro: tally_reachable_ops)
  then show ?case by (simp add: resync_once_def Let_def fold_handle_inv)
next
  case (redrive s get parse key)
  then show ?case by (auto simp: redrive_pod_def handle_pod_event_inv split: option.split)
next
  case (cache s t)
  then show ?case
    using cache_step_frame [OF cache.hyps(2)] cache_step_reachable [OF cache.hyps(2)]
    by (auto simp: sched_inv_def flights_ok_def claims_ok_def pods_wf_ok_def owners_def plan_keys_def)
qed (simp_all add: pod_watch_event_inv run_task_inv)

text \<open>C13: Whatever the order in which watch events, resyncs, API answers and the tasks of the scheduler take
  their turns, no pod has two scheduling attempts at once. The keys in flight are exactly those of the
  attempts that run and of the preemption plans that wait for their victims, each of them once, and a pod
  is claimed as a victim only while the attempt that claimed it is evicting.
\<close>

theorem attempts_exclusive:
  assumes "sched_reachable c s"
  shows "distinct (task_keys (tasks s) @ plan_keys (sch_tally s)) \<and>
    in_flight s = set (task_keys (tasks s) @ plan_keys (sch_tally s)) \<and>
    reserved_victims (sch_tally s) \<subseteq> (\<Union>t \<in> set (tasks s). task_victims t)"
  using sched_reachable_inv [OF assms] by (simp add: sched_inv_def flights_ok_def claims_ok_def owners_def)

subsection \<open>Every attempt ends\<close>

fun task_rank :: "task \<Rightarrow> nat" where
  "task_rank (Attempt _ _) = 20"
| "task_rank (Planning _ _ _ left) = (if left = 0 then 4 else 2 * left + 2)"
| "task_rank (Evicting _ _ _ left _ _) = 2 * left + 3"
| "task_rank (Binding _ _ _) = 1"
| "task_rank (Reporting _ _ _) = 0"
| "task_rank (Deferred_Check _ _) = 1"
| "task_rank (Deferred_Bind _ _) = 0"

fun task_rest :: "task \<Rightarrow> nat" where
  "task_rest (Evicting _ _ _ _ _ rest) = length rest"
| "task_rest _ = 0"

definition task_order :: "(task \<times> task) set" where
  "task_order = inv_image (less_than <*lex*> less_than) (\<lambda>t. (task_rank t, task_rest t))"

lemma task_order_iff [simp]:
  "(t', t) \<in> task_order \<longleftrightarrow> task_rank t' < task_rank t \<or> task_rank t' = task_rank t \<and> task_rest t' < task_rest t"
  by (simp add: task_order_def)

lemma next_try_less: "fst (next_try event pod message left s) = Some t \<Longrightarrow> task_rank t \<le> 2 * left + 2"
  by (auto simp: next_try_def split: if_splits)

lemma task_step_less:
  assumes "fst (task_step c ans t s) = Some t'"
  shows "(t', t) \<in> task_order"
proof (cases t)
  case (Attempt event pod)
  then show ?thesis
    using assms by (auto simp: task_step_def attempt_step_def max_preemption_attempts_def Let_def
        split: lookup.splits sum.splits)
next
  case (Planning event pod message left)
  then show ?thesis
    using assms by (auto simp: task_step_def planning_step_def dest!: next_try_less split: option.splits if_splits)
next
  case (Evicting event pod message left plan rest)
  then show ?thesis
    using assms by (auto simp: task_step_def evicting_step_def Let_def dest!: next_try_less
        split: list.splits option.splits if_splits)
qed (use assms in \<open>auto simp: task_step_def binding_step_def deferred_check_step_def Let_def
      split: prod.splits option.splits bind_error.splits if_splits\<close>)

text \<open>One task over time: its steps happen in the states that the other tasks leave behind.\<close>

primrec task_after :: "codecs \<Rightarrow> (nat \<Rightarrow> answers) \<Rightarrow> (nat \<Rightarrow> sched) \<Rightarrow> task \<Rightarrow> nat \<Rightarrow> task option" where
  "task_after c ans states t 0 = Some t"
| "task_after c ans states t (Suc n) =
     (case task_after c ans states t n of
        None \<Rightarrow> None
      | Some t' \<Rightarrow> fst (task_step c (ans n) t' (states n)))"

lemma task_after_shift:
  "task_after c ans states t (Suc n) =
   (case fst (task_step c (ans 0) t (states 0)) of
      None \<Rightarrow> None
    | Some t' \<Rightarrow> task_after c (\<lambda>k. ans (Suc k)) (\<lambda>k. states (Suc k)) t' n)"
  by (induction n) (auto split: option.splits)

text \<open>C20: Every scheduling attempt ends. Whatever the API answers to its requests, and whatever the other tasks
  do to the shared state between its steps, a task has finished after finitely many steps of its own: bound,
  waiting for its victims, reported as failed or given up.
\<close>

theorem attempt_ends: "\<exists>n. task_after c ans states t n = None"
proof -
  have "wf task_order" by (simp add: task_order_def wf_inv_image wf_lex_prod)
  then show ?thesis
  proof (induction t arbitrary: ans states)
    case (less t)
    show ?case
    proof (cases "fst (task_step c (ans 0) t (states 0))")
      case None
      then have "task_after c ans states t (Suc 0) = None" by simp
      then show ?thesis by blast
    next
      case (Some t')
      then have "(t', t) \<in> task_order" by (rule task_step_less)
      from less.IH [OF this, of "\<lambda>k. ans (Suc k)" "\<lambda>k. states (Suc k)"] obtain n
        where "task_after c (\<lambda>k. ans (Suc k)) (\<lambda>k. states (Suc k)) t' n = None" by blast
      then have "task_after c ans states t (Suc n) = None" unfolding task_after_shift using Some by simp
      then show ?thesis by blast
    qed
  qed
qed

subsection \<open>Resync and replay\<close>

lemma handle_pod_event_flight:
  "in_flight s \<subseteq> in_flight (handle_pod_event c event s) \<and>
   (\<forall>pod. needs_scheduling (de_pod c) event = Some pod \<longrightarrow> pod_key pod \<in> in_flight (handle_pod_event c event s))"
  by (auto simp: handle_pod_event_def spawn_def should_schedule_def Let_def split: option.split prod.split)

lemma fold_handle_flight:
  "in_flight s \<subseteq> in_flight (fold (handle_pod_event c) es s) \<and>
   (\<forall>e pod. e \<in> set es \<longrightarrow> needs_scheduling (de_pod c) e = Some pod \<longrightarrow>
     pod_key pod \<in> in_flight (fold (handle_pod_event c) es s))"
proof (induction es arbitrary: s)
  case (Cons e es)
  show ?case using Cons.IH [of "handle_pod_event c e s"] handle_pod_event_flight [of s c e] by auto
qed simp

text \<open>C21: A periodic resync leaves no pod behind. After a pass, every pod of the listing that is still
  unscheduled is in flight: it was before, or the pass has started an attempt for it.
\<close>

theorem resync_covers:
  assumes "item \<in> set items" "needs_scheduling_pod (de_pod c) item = Some pod"
  shows "pod_key pod \<in> in_flight (fst (resync_once c items False now s))"
proof (cases "pod_key pod \<in> in_flight s")
  case True
  then show ?thesis using fold_handle_flight by (fastforce simp: resync_once_def Let_def)
next
  case False
  let ?e = "JObj [(''object'', item), (''type'', JStr ''MODIFIED'')]"
  have "?e \<in> set (pods_needing_resync (de_pod c) items (in_flight s))"
    using assms False by (auto simp: pods_needing_resync_def should_schedule_def)
  moreover have "needs_scheduling (de_pod c) ?e = Some pod"
    using assms(2) by (simp add: needs_scheduling_def or_default_def)
  ultimately show ?thesis using fold_handle_flight by (fastforce simp: resync_once_def Let_def)
qed

lemma replay_prefix:
  assumes "list_all (\<lambda>e. \<not> is_initial_events_end_bookmark e) es" "\<not> buf_synced (pod_replay s)"
  shows "fold (pod_watch_event c) es s =
    s\<lparr>pod_replay := (pod_replay s)\<lparr>buf_fresh := fold (\<lambda>e t. fst (apply_event (de_item c) e t)) es (buf_fresh (pod_replay s))\<rparr>,
      replay_deferred := replay_deferred s @ es\<rparr>"
  using assms
proof (induction es arbitrary: s)
  case (Cons e es)
  have "pod_watch_event c e s =
      s\<lparr>pod_replay := (pod_replay s)\<lparr>buf_fresh := fst (apply_event (de_item c) e (buf_fresh (pod_replay s)))\<rparr>,
        replay_deferred := replay_deferred s @ [e]\<rparr>"
    using Cons.prems by (simp add: pod_watch_event_def pod_replay_absorb_def absorb_def)
  then show ?case using Cons by simp
qed simp

text \<open>C22: While a watch connection replays the existing pods, the scheduler works on the state it had: the
  replayed events change neither the tally nor the attempts. The bookmark that ends the replay installs in
  one step the pods that the replayed events describe, with no reservation, claim or waiting plan left
  over, gives up the keys of the abandoned plans, and only then handles the events that were held back.
\<close>

theorem replay_installs_snapshot:
  assumes "list_all (\<lambda>e. \<not> is_initial_events_end_bookmark e) es" "is_initial_events_end_bookmark b"
  shows "\<exists>t. tally_pods t = tally_pods (fold (\<lambda>e t. fst (apply_event (de_item c) e t)) es empty_tally) \<and>
    by_node t = by_node (fold (\<lambda>e t. fst (apply_event (de_item c) e t)) es empty_tally) \<and>
    tally_nodes t = tally_nodes (sch_tally s) \<and> reserved_victims t = {} \<and> waiters t = [] \<and>
    sch_tally (fold (pod_watch_event c) es (pod_watch_connect s)) = sch_tally s \<and>
    tasks (fold (pod_watch_event c) es (pod_watch_connect s)) = tasks s \<and>
    fold (pod_watch_event c) (es @ [b]) (pod_watch_connect s) =
      fold (handle_pod_event c) es
        (s\<lparr>pod_replay := \<lparr>buf_fresh = fold (\<lambda>e t. fst (apply_event (de_item c) e t)) es empty_tally, buf_synced = True\<rparr>,
           sch_tally := t, replay_deferred := [], in_flight := in_flight s - set (plan_keys (sch_tally s))\<rparr>)"
proof -
  let ?fresh = "fold (\<lambda>e t. fst (apply_event (de_item c) e t)) es empty_tally"
  have pre: "fold (pod_watch_event c) es (pod_watch_connect s) =
      s\<lparr>pod_replay := \<lparr>buf_fresh = ?fresh, buf_synced = False\<rparr>, replay_deferred := es\<rparr>"
    using replay_prefix [OF assms(1), of "pod_watch_connect s"] by (simp add: pod_watch_connect_def replay_default_def)
  obtain t abandoned where sw: "replace_pods ?fresh
      (set (unscheduled_pod_uids (de_pod c) (map (\<lambda>e. json_idx e ''object'') es))) (sch_tally s) = (t, abandoned)"
    by fastforce
  have "tally_pods t = tally_pods ?fresh \<and> by_node t = by_node ?fresh \<and> tally_nodes t = tally_nodes (sch_tally s)"
    using sw by (auto simp: replace_pods_def tally_clear_def waiters_clear_def Let_def)
  moreover have "fold (pod_watch_event c) (es @ [b]) (pod_watch_connect s) = fold (handle_pod_event c) es
        (s\<lparr>pod_replay := \<lparr>buf_fresh = ?fresh, buf_synced = True\<rparr>, sch_tally := t, replay_deferred := [],
           in_flight := in_flight s - set (plan_keys (sch_tally s))\<rparr>)"
    using assms(2) sw replace_pods_frame(3) [OF sw]
    by (simp add: pre pod_watch_event_def pod_replay_absorb_def absorb_def)
  ultimately show ?thesis using replace_pods_frame(1,2) [OF sw] by (intro exI [of _ t]) (simp add: pre)
qed

subsection \<open>A plan that waits for a victim already gone\<close>

text \<open>A cluster to run the model on: objects as short arrays, and the API's answers.\<close>

definition sample_meta :: "string \<Rightarrow> pod_metadata" where
  "sample_meta name = \<lparr>meta_name = Some name, meta_namespace = Some ''d'', meta_labels = []\<rparr>"

definition sample_spec :: "string \<Rightarrow> int \<Rightarrow> string \<Rightarrow> pod_spec" where
  "sample_spec node prio cpu = pod_spec_default
     \<lparr>spec_node_name := (if node = [] then None else Some node), spec_priority := Some prio,
      spec_containers := [\<lparr>container_requests = [(''cpu'', cpu)], container_ports = None\<rparr>]\<rparr>"

definition sample_object :: "json \<Rightarrow> (string \<times> pod_spec) option" where
  "sample_object obj =
     (case obj of JArr [JStr name, JStr node, JInt prio, JStr cpu] \<Rightarrow> Some (name, sample_spec node prio cpu) | _ \<Rightarrow> None)"

definition sample_codecs :: codecs where
  "sample_codecs =
     \<lparr>de_item = (\<lambda>e. map_option (\<lambda>(name, spec).
          \<lparr>event_type = or_default [] (as_str (json_idx e ''type'')),
           event_object = \<lparr>item_metadata = sample_meta name, item_spec = spec, item_phase = ''Running''\<rparr>\<rparr>)
          (sample_object (json_idx e ''object''))),
      de_pod = (\<lambda>obj. map_option (\<lambda>(name, spec).
          \<lparr>pod_metadata = sample_meta name, pod_spec = spec, pod_conditions = []\<rparr>) (sample_object obj)),
      de_event = (\<lambda>e. map_option (\<lambda>(name, spec).
          \<lparr>event_type = or_default [] (as_str (json_idx e ''type'')),
           event_object = \<lparr>pod_metadata = sample_meta name, pod_spec = spec, pod_conditions = []\<rparr>\<rparr>)
          (sample_object (json_idx e ''object'')))\<rparr>"

definition sample_pod_json :: "string \<Rightarrow> string \<Rightarrow> int \<Rightarrow> string \<Rightarrow> json" where
  "sample_pod_json name node prio cpu = JArr [JStr name, JStr node, JInt prio, JStr cpu]"

definition sample_event :: "string \<Rightarrow> json \<Rightarrow> json" where
  "sample_event ty obj = JObj [(''object'', obj), (''type'', JStr ty)]"

definition end_bookmark :: json where
  "end_bookmark = JObj [(''object'', JObj [(''metadata'', JObj [(''annotations'',
     JObj [(''k8s.io/initial-events-end'', JStr ''true'')])])]), (''type'', JStr ''BOOKMARK'')]"

definition sample_answers :: "http_response option \<Rightarrow> answers" where
  "sample_answers response =
     \<lparr>ans_volumes = \<lparr>api_get = (\<lambda>_. None), parse_pvc = (\<lambda>_. None), parse_pv = (\<lambda>_. None), parse_storage_class = (\<lambda>_. None)\<rparr>,
      ans_response = response, ans_error = '''', ans_nanos = 0, ans_now = 0\<rparr>"

text \<open>
  A node with two pods of low priority that fill it, and a pod of higher priority that needs the node for
  itself: its attempt picks no node, plans, and evicts the first of the two.
\<close>

definition evicting_run :: sched where
  "evicting_run =
     run_task sample_codecs (sample_answers (Some (200, ''''))) 0
    (run_task sample_codecs (sample_answers None) 0
    (run_task sample_codecs (sample_answers None) 0
    (pod_watch_event sample_codecs (sample_event ''ADDED'' (sample_pod_json ''p'' '''' 5 ''1''))
    (pod_watch_event sample_codecs (sample_event ''ADDED'' (sample_pod_json ''u'' ''a'' 0 ''500m''))
    (pod_watch_event sample_codecs (sample_event ''ADDED'' (sample_pod_json ''v'' ''a'' 0 ''500m''))
    (pod_watch_event sample_codecs end_bookmark
      (sched_start\<lparr>sch_tally := add_node (sample_node ''a'' ''10'' ''1'') (sch_tally sched_start)\<rparr>)))))))"

text \<open>The first victim is gone before the second is evicted; then the plan is registered and the second goes.\<close>

definition lost_run :: sched where
  "lost_run =
     pod_watch_event sample_codecs (sample_event ''DELETED'' (sample_pod_json ''v'' ''a'' 0 ''500m''))
    (run_task sample_codecs (sample_answers None) 0
    (run_task sample_codecs (sample_answers (Some (200, ''''))) 0
    (pod_watch_event sample_codecs (sample_event ''DELETED'' (sample_pod_json ''u'' ''a'' 0 ''500m'')) evicting_run)))"

lemma lost_run_reachable: "sched_reachable sample_codecs lost_run"
  unfolding lost_run_def evicting_run_def
  by (intro sched_reachable.watch sched_reachable.task sched_reachable.cache sched_reachable.start)
     (simp add: add_node_def cache_step.node)

definition run_view :: "sched \<Rightarrow> string set \<times> task list \<times> bool \<times> (string \<times> string set) list \<times> string list" where
  "run_view s = (in_flight s, tasks s, buf_synced (pod_replay s),
     map (\<lambda>p. (pod_key (plan_pod p), remaining_victims p)) (waiters (sch_tally s)), map fst (tally_pods (sch_tally s)))"

lemma lost_run_view: "run_view lost_run = ({''d/p''}, [], True, [(''d/p'', {''d/u''})], [''d/p''])"
  by code_simp

text \<open>The pod that a watch event names, and the runs on one watch connection in which a given pod is not seen.\<close>

definition event_key :: "codecs \<Rightarrow> json \<Rightarrow> string option" where
  "event_key c event = map_option (\<lambda>e. let m = item_metadata (event_object e) in
     or_default ''default'' (meta_namespace m) @ ''/'' @ or_default [] (meta_name m)) (de_item c event)"

inductive connected_run :: "codecs \<Rightarrow> string \<Rightarrow> sched \<Rightarrow> sched \<Rightarrow> bool" for c v s where
  here: "connected_run c v s s"
| watch: "connected_run c v s s' \<Longrightarrow> event_key c e \<noteq> Some v \<Longrightarrow> connected_run c v s (pod_watch_event c e s')"
| task: "connected_run c v s s' \<Longrightarrow> connected_run c v s (run_task c ans i s')"
| resync: "connected_run c v s s' \<Longrightarrow> \<forall>item \<in> set items. event_key c (redrive_event item) \<noteq> Some v \<Longrightarrow>
    connected_run c v s (fst (resync_once c items respect now s'))"
| redrive: "connected_run c v s s' \<Longrightarrow> \<forall>body object. parse body = Some object \<longrightarrow> event_key c (redrive_event object) \<noteq> Some v \<Longrightarrow>
    connected_run c v s (redrive_pod c get parse key s')"
| cache: "connected_run c v s s' \<Longrightarrow> cache_step (sch_tally s') t \<Longrightarrow> connected_run c v s (s'\<lparr>sch_tally := t\<rparr>)"

definition waits_for :: "string \<Rightarrow> string \<Rightarrow> sched \<Rightarrow> bool" where
  "waits_for key v s =
     (buf_synced (pod_replay s) \<and>
      (\<exists>p \<in> set (waiters (sch_tally s)). pod_key (plan_pod p) = key \<and> v \<in> remaining_victims p))"

lemma connected_run_reachable: "connected_run c v s s' \<Longrightarrow> sched_reachable c s \<Longrightarrow> sched_reachable c s'"
  by (induction rule: connected_run.induct) (auto intro: sched_reachable.intros)

lemma waiters_resolve_keeps:
  assumes "p \<in> set ws" "v \<in> remaining_victims p" "key \<noteq> v"
  shows "\<exists>p' \<in> set (fst (waiters_resolve key ws)). plan_pod p' = plan_pod p \<and> v \<in> remaining_victims p'"
  unfolding waiters_resolve_eq
  by (rule bexI [of _ "strike key p"]) (use assms in \<open>auto simp: strike_def\<close>)

lemma apply_event_keeps:
  assumes "p \<in> set (waiters t)" "v \<in> remaining_victims p" "event_key c e \<noteq> Some v"
  shows "\<exists>p' \<in> set (waiters (fst (apply_event (de_item c) e t))). plan_pod p' = plan_pod p \<and> v \<in> remaining_victims p'"
  using assms(3) waiters_resolve_keeps [OF assms(1,2)] assms(1,2)
  by (fastforce simp: apply_event_def event_key_def Let_def split: option.split prod.split)

lemma handle_pod_event_tally:
  "sch_tally (handle_pod_event c e s) = fst (apply_event (de_item c) e (sch_tally s)) \<and>
   pod_replay (handle_pod_event c e s) = pod_replay s"
  by (auto simp: handle_pod_event_def spawn_def Let_def split: option.split prod.split)

lemma handle_keeps: "waits_for key v s \<Longrightarrow> event_key c e \<noteq> Some v \<Longrightarrow> waits_for key v (handle_pod_event c e s)"
  unfolding waits_for_def handle_pod_event_tally [THEN conjunct1] handle_pod_event_tally [THEN conjunct2]
  by (metis apply_event_keeps)

lemma fold_handle_keeps:
  "waits_for key v s \<Longrightarrow> \<forall>e \<in> set es. event_key c e \<noteq> Some v \<Longrightarrow> waits_for key v (fold (handle_pod_event c) es s)"
  by (induction es arbitrary: s) (simp_all add: handle_keeps)

lemma task_step_waiters:
  "set (waiters (sch_tally s)) \<subseteq> set (waiters (sch_tally (snd (task_step c ans t s))))"
proof (cases t)
  case (Attempt event pod)
  then show ?thesis
    by (auto simp: task_step_def attempt_step_def Let_def dest!: pick_node_tally split: option.split lookup.split sum.split)
next
  case (Planning event pod message left)
  then show ?thesis by (auto simp: task_step_def planning_step_def next_try_def dest!: find_plan_tally split: option.split)
next
  case (Evicting event pod message left plan rest)
  then show ?thesis by (auto simp: task_step_def evicting_step_def next_try_def Let_def split: list.split option.split)
next
  case (Binding event pod node)
  then show ?thesis
    by (auto simp: task_step_def binding_step_def bind_reserved_frame Let_def split: prod.split option.split bind_error.split)
next
  case (Reporting event pod outcome)
  then show ?thesis by (auto simp: task_step_def reporting_step_def Let_def split: sum.split option.split prod.split)
next
  case (Deferred_Check pod node)
  then show ?thesis by (auto simp: task_step_def deferred_check_step_def split: option.split)
next
  case (Deferred_Bind pod node)
  then show ?thesis by (auto simp: task_step_def deferred_bind_step_def bind_reserved_frame Let_def split: prod.split)
qed

lemma run_task_keeps:
  assumes "waits_for key v s"
  shows "waits_for key v (run_task c ans i s)"
proof -
  obtain o' s' where step: "task_step c ans (tasks s ! i) s = (o', s')" by fastforce
  then have "pod_replay s' = pod_replay s" "set (waiters (sch_tally s)) \<subseteq> set (waiters (sch_tally s'))"
    using task_step_effect [of "tasks s ! i" s c ans] task_step_waiters [of s c ans "tasks s ! i"]
    by (simp_all add: step_effect_def)
  then show ?thesis
    using assms step by (cases o') (auto simp: waits_for_def run_task_def)
qed

lemma resync_keeps:
  assumes "waits_for key v s" "\<forall>item \<in> set items. event_key c (redrive_event item) \<noteq> Some v"
  shows "waits_for key v (fst (resync_once c items respect now s))"
proof -
  have "waits_for key v (with_tally (\<lambda>t. t\<lparr>tally_failures := x t\<rparr>) s)" for x
    using assms(1) by (simp add: waits_for_def)
  then show ?thesis
    using assms(2) unfolding resync_once_def Let_def fst_conv
    by (intro fold_handle_keeps) (auto simp: pods_needing_resync_def redrive_event_def)
qed

lemma connected_run_keeps: "connected_run c v s s' \<Longrightarrow> waits_for key v s \<Longrightarrow> waits_for key v s'"
proof (induction rule: connected_run.induct)
  case (watch s' e)
  then have "pod_watch_event c e s' = handle_pod_event c e s'"
    by (simp add: pod_watch_event_def pod_replay_absorb_def absorb_def waits_for_def)
  then show ?case using watch by (simp add: handle_keeps)
next
  case (redrive s' parse get k)
  then show ?case by (auto simp: redrive_pod_def handle_keeps split: option.split)
next
  case (cache s' t)
  then show ?case using cache_step_frame [OF cache.hyps(2)] by (simp add: waits_for_def)
qed (simp_all add: run_task_keeps resync_keeps)

text \<open>C23: A preemption plan that is registered with a victim already gone is never taken up again while the pod
  watch stays connected. In every run in which that victim is not seen any more, whatever else happens, the
  pending pod stays in flight without a task that works for it, so no resync starts an attempt for it.
\<close>

theorem waiting_plan_stranded:
  assumes "sched_reachable c s" "buf_synced (pod_replay s)"
    and "p \<in> set (waiters (sch_tally s))" "v \<in> remaining_victims p" "connected_run c v s s'"
  shows "pod_key (plan_pod p) \<in> in_flight s' \<and> pod_key (plan_pod p) \<notin> set (task_keys (tasks s'))"
proof -
  have "waits_for (pod_key (plan_pod p)) v s'"
    using connected_run_keeps [OF assms(5)] assms(2-4) by (auto simp: waits_for_def)
  then have "pod_key (plan_pod p) \<in> set (plan_keys (sch_tally s'))" by (auto simp: waits_for_def plan_keys_def image_iff dest: sym)
  moreover have "flights_ok s'"
    using sched_reachable_inv [OF connected_run_reachable [OF assms(5,1)]] by (simp add: sched_inv_def)
  ultimately show ?thesis by (auto simp: flights_ok_def owners_def)
qed

text \<open>
  The run above ends so: the first victim went before the plan was registered, both victims are gone, and
  after any number of resyncs the pod is still in flight, with no task.
\<close>

theorem waiting_plan_stranded_witness:
  "map fst (tally_pods (sch_tally lost_run)) = [''d/p''] \<and>
   ''d/p'' \<in> in_flight (fst (resync_once sample_codecs [sample_pod_json ''p'' '''' 5 ''1''] False 60 lost_run)) \<and>
   ''d/p'' \<notin> set (task_keys (tasks (fst (resync_once sample_codecs [sample_pod_json ''p'' '''' 5 ''1''] False 60 lost_run))))"
proof -
  have v: "buf_synced (pod_replay lost_run)" "map fst (tally_pods (sch_tally lost_run)) = [''d/p'']"
    "map (\<lambda>p. (pod_key (plan_pod p), remaining_victims p)) (waiters (sch_tally lost_run)) = [(''d/p'', {''d/u''})]"
    using lost_run_view by (simp_all add: run_view_def)
  then obtain p where p: "p \<in> set (waiters (sch_tally lost_run))" "pod_key (plan_pod p) = ''d/p''" "''d/u'' \<in> remaining_victims p"
    by (cases "waiters (sch_tally lost_run)") auto
  have "event_key sample_codecs (redrive_event (sample_pod_json ''p'' '''' 5 ''1'')) \<noteq> Some ''d/u''" by code_simp
  then have "connected_run sample_codecs ''d/u'' lost_run
      (fst (resync_once sample_codecs [sample_pod_json ''p'' '''' 5 ''1''] False 60 lost_run))"
    by (intro connected_run.resync connected_run.here) simp
  from waiting_plan_stranded [OF lost_run_reachable v(1) p(1,3) this] show ?thesis using p(2) v(2) by simp
qed

theorem attempts_exclusive_witness:
  "distinct (task_keys (tasks lost_run) @ plan_keys (sch_tally lost_run)) \<and> in_flight lost_run = {''d/p''} \<and>
   in_flight lost_run = set (task_keys (tasks lost_run) @ plan_keys (sch_tally lost_run)) \<and>
   reserved_victims (sch_tally lost_run) \<subseteq> (\<Union>t \<in> set (tasks lost_run). task_victims t)"
proof -
  have "in_flight lost_run = {''d/p''}" using lost_run_view by (simp add: run_view_def)
  then show ?thesis using attempts_exclusive [OF lost_run_reachable] by blast
qed

theorem resync_covers_witness:
  "''d/q'' \<in> in_flight (fst (resync_once sample_codecs [sample_pod_json ''q'' '''' 5 ''1''] False 60 sched_start))"
proof -
  have "map_option pod_key (needs_scheduling_pod (de_pod sample_codecs) (sample_pod_json ''q'' '''' 5 ''1'')) = Some ''d/q''"
    by code_simp
  then obtain pod where "needs_scheduling_pod (de_pod sample_codecs) (sample_pod_json ''q'' '''' 5 ''1'') = Some pod"
    "pod_key pod = ''d/q''" by auto
  then show ?thesis
    using resync_covers [of "sample_pod_json ''q'' '''' 5 ''1''" "[sample_pod_json ''q'' '''' 5 ''1'']" sample_codecs pod 60 sched_start]
    by simp
qed

theorem replay_installs_snapshot_witness:
  "\<exists>t. map fst (tally_pods t) = [''d/v''] \<and>
    fold (pod_watch_event sample_codecs) ([sample_event ''ADDED'' (sample_pod_json ''v'' ''a'' 0 ''500m'')] @ [end_bookmark])
      (pod_watch_connect sched_start) =
    fold (handle_pod_event sample_codecs) [sample_event ''ADDED'' (sample_pod_json ''v'' ''a'' 0 ''500m'')]
      (sched_start\<lparr>pod_replay := \<lparr>buf_fresh = fold (\<lambda>e t. fst (apply_event (de_item sample_codecs) e t))
            [sample_event ''ADDED'' (sample_pod_json ''v'' ''a'' 0 ''500m'')] empty_tally, buf_synced = True\<rparr>,
         sch_tally := t, replay_deferred := [], in_flight := in_flight sched_start - set (plan_keys (sch_tally sched_start))\<rparr>)"
proof -
  have "map fst (tally_pods (fold (\<lambda>e t. fst (apply_event (de_item sample_codecs) e t))
      [sample_event ''ADDED'' (sample_pod_json ''v'' ''a'' 0 ''500m'')] empty_tally)) = [''d/v'']" by code_simp
  moreover have "list_all (\<lambda>e. \<not> is_initial_events_end_bookmark e) [sample_event ''ADDED'' (sample_pod_json ''v'' ''a'' 0 ''500m'')]"
    by code_simp
  moreover have "is_initial_events_end_bookmark end_bookmark" by code_simp
  ultimately show ?thesis
    using replay_installs_snapshot [of "[sample_event ''ADDED'' (sample_pod_json ''v'' ''a'' 0 ''500m'')]" end_bookmark
        sample_codecs sched_start] by metis
qed

end
