(* ===== verification/Spec2Isabelle.thy ===== *)
theory Spec2Isabelle
  imports Store_Watch Rbac Service_Repair Sched_Run
begin

text \<open>
  A verification development of u7s, a Kubernetes control plane in Rust. The program is an API server
  (\<^verbatim>\<open>crates/apiserver\<close>) over an object store with watches (\<^verbatim>\<open>crates/store\<close>), a scheduler
  (\<^verbatim>\<open>crates/scheduler\<close>), and tools around them. Every request reads and writes JSON objects under
  string keys; a write gets the next global revision, is recorded in the rings of the shards whose prefix covers
  the key, and is broadcast to open watches. The API server decides who may do what (RBAC), resolves and reserves
  what an object needs beyond its own key (the addresses and node ports of a Service), and stores the result.

  \<^bold>\<open>Shared theories.\<close> \<^verbatim>\<open>U7s_Prelude\<close>: Rust strings as HOL strings, number
  printing and parsing, \<^verbatim>\<open>BTreeMap\<close> as a list with increasing keys. \<^verbatim>\<open>Json_Value\<close>:
  \<^verbatim>\<open>serde_json::Value\<close> with its accessors and the assignment through an index, where the panic of
  the source is \<^const>\<open>None\<close>; the byte codec is a parameter whose round trip is a named hypothesis.
  \<^verbatim>\<open>Net_Addr\<close>: \<^verbatim>\<open>IpAddr\<close> over 32- and 128-bit words with the parser and
  printer of Rust's standard library, and their round trip.

  \<^bold>\<open>The store\<close> (\<^verbatim>\<open>crates/store/src/sqlite.rs\<close>, \<^verbatim>\<open>lib.rs\<close>).
  \<^verbatim>\<open>Store_Db\<close>: the tables as a record of sorted rows and the revision counter; \<^verbatim>\<open>put_sync\<close>,
  \<^verbatim>\<open>delete_sync\<close>, the namespaced create, namespace deletion and the guarded read, with every error
  branch. Its lemmas give the table invariant on every reachable database, compare-and-swap without lost updates,
  suppression of no-op writes, read-after-write, and that the transactional create refines the default of the trait.
  \<^verbatim>\<open>Store_List\<close>: \<^verbatim>\<open>list_sync\<close> with its five query branches, cursors and the chunked
  scan; a listing is complete, continue tokens cover it without gap or repetition for every positive page size, the
  indexed branches return the pages of the scan. The scan carries fuel; one unit per row is enough, since every chunk moves the cursor past a row, and the
  lemmas prove that it then returns. \<^verbatim>\<open>Store_Shards\<close>: rings with their capacity and floor, the two-tier
  tombstone log with its indices, routing of keys to shards, the bounded map of reclaimed horizons.
  \<^verbatim>\<open>Store_Watch\<close>: the writers with their broadcast, the opening of a watch and the stream loop, one
  definition per branch of the \<^verbatim>\<open>select\<close>. A run is a sequence of steps of the store and of the watches being
  opened, and an opening takes one step per phase (find, create, list, one seed at a time, attach), so every
  interleaving of openings with writes and with each other is a run. A shard is settled once no opening can still
  seed it. On a shard that was settled in a state not newer than the position of the watch, and whose horizon has
  not passed it, a replay is complete, a watch delivers each matching event once and in order, and a lagged
  receiver recovers what it missed. Outside these conditions the code gives less: five theorems show runs in which
  it loses, repeats or resurrects an event. \<^verbatim>\<open>Store_Api\<close>: the trait \<^verbatim>\<open>Store\<close> as a record of
  operations, its contract as the locale \<^verbatim>\<open>object_store\<close>, interpreted on the SQLite tables. Code that
  takes a generic store is modelled over the record and its lemmas are proved in the locale.

  \<^bold>\<open>Authorization\<close> (\<^verbatim>\<open>apiserver/src/rbac.rs\<close>). \<^verbatim>\<open>Rbac\<close>: the
  index of roles and bindings with its bounded version tracker, rule matching, \<^verbatim>\<open>is_allowed\<close>, the rules
  review and the escalation check. Replayed and reordered updates converge, a removed object is not resurrected
  while its version is tracked,
  a RoleBinding grants nothing outside its namespace, the escalation check is sound for well-formed rules; two
  theorems show where it grants or refuses too much.

  \<^bold>\<open>Services\<close>. \<^verbatim>\<open>Service_Ip\<close> (\<^verbatim>\<open>apiserver/src/state.rs\<close>): CIDR
  ranges, offsets, and the probe for a free address; the probe counts down the size of the range, so it inspects each
  offset once and ends. A range is exactly an aligned block of a power of two without wrap-around; the probe returns
  a free host of the range and reports a full range only when there is none. \<^verbatim>\<open>Service_Families\<close>
  (\<^verbatim>\<open>service_ip_families.rs\<close>): reading, resolving and validating the family fields; a resolved
  spec is well-typed. \<^verbatim>\<open>Service_Alloc\<close> (\<^verbatim>\<open>service_alloc.rs\<close> and
  \<^verbatim>\<open>maybe_allocate_cluster_ip\<close> of \<^verbatim>\<open>handlers/resource.rs\<close>): sentinel keys, the
  transaction with commit and rollback, reservation and automatic assignment, repair. \<^verbatim>\<open>Service_World\<close>:
  the requests of many clients as an inductive step relation over the store, the stored Services, the requests in
  flight and the keys that wait for release; the invariant that no key is in two of these places gives that no two
  Services share a port or an address. Each step is labelled with whether it acted on the spec its handler read; the
  exclusivity holds for runs in which all do. A PUT without a \<^verbatim>\<open>resourceVersion\<close> and a DELETE need not, and a run with a
  DELETE that finishes on an old read ends with two Services on one port.
  \<^verbatim>\<open>Service_Repair\<close>: after the repair pass the sentinels are exactly those that are wanted or owned.

  \<^bold>\<open>The scheduler\<close> (\<^verbatim>\<open>crates/scheduler/src/lib.rs\<close>). \<^verbatim>\<open>Sched_Quantity\<close>: Kubernetes
  quantities read as thousandths in 64 bits, with the decimal fallback through IEEE doubles, and request totals that
  wrap as the release build does; whole quantities that fit in 64 bits are read exactly. \<^verbatim>\<open>Sched_Pod\<close>: the pod fields the
  scheduler reads and which pods it takes up; deserialization is a parameter. \<^verbatim>\<open>Sched_Match\<close>: the filters, from
  selectors and taints to inter-pod affinity and topology spread; discounting victims from the spread counts equals
  counting without them. \<^verbatim>\<open>Sched_Tally\<close>: the state shared by the scheduler's tasks, with the pods, their index
  by node, reservations, claimed victims, waiters, caches and failure backoff; on every reachable tally the index and
  the usage agree with the pods, the loop over the waiting plans ends and returns, and the backoff stays within its
  bounds. \<^verbatim>\<open>Sched_Select\<close>: direct selection; it picks the least loaded of exactly the suitable nodes and does not
  overcommit it while the sum of the requests fits in 64 bits, through the locale \<^verbatim>\<open>pod_account\<close> interpreted on the tally. \<^verbatim>\<open>Sched_Preempt\<close>: victims,
  plans and their commit; victims are of lower priority, enough and not more than needed, they are found whenever they
  exist and no sum overflows, and a committed plan leaves the node within the capacity it had in the search, again
  while the sums fit in 64 bits, even when the tally changed between search and commit. Further theorems show concrete states in which quantities wrap, affinity terms are
  conflated, an exclusive claim is shared, and preemption ignores host ports or misses a plan.

  \<^verbatim>\<open>Sched_Volumes\<close>: the lookups of claims, volumes and storage classes before a pick, with the answers
  of the API as a parameter that gives one answer to each GET of an attempt; the attach counts they find are those
  that the tally computes from current caches. \<^verbatim>\<open>Sched_Time\<close>: names and timestamps of events; the calendar
  arithmetic agrees with counting days through the Gregorian calendar. \<^verbatim>\<open>Sched_Run\<close> (\<^verbatim>\<open>run.rs\<close>): the
  scheduler at work. A spawned task is a value that says where it stands, one \<^verbatim>\<open>task_step\<close> goes on to the next
  request whose answer decides how it continues, and the answers are inputs of the step; pod events, cache events,
  resyncs, replays of a watch and steps of tasks follow each other in any order. A pick or the search and commit of a
  plan is one step here; \<^verbatim>\<open>Sched_Preempt\<close> treats a tally that changes between search and commit. In every run a
  pod has at most one attempt, the keys in flight are those of the tasks and waiting plans, every task ends whatever
  the API answers, a resync takes up every pod that is not in flight, and a replay becomes visible in one step. One
  theorem shows that a plan registered after its victim is gone keeps its pod in flight until the watch reconnects.

  \<^bold>\<open>Not modelled.\<close> HTTP routing, connection and pool set-up, TLS and cryptography, proxying and
  streaming are I/O or third-party code; metrics and log messages have no effect on the results. The text of error
  messages is replaced by constructors, except where the scheduler stores it in a status or an event. Timers and
  readiness signals of the scheduler only decide when its steps happen. The patch engines, admission, quota, CEL,
  flow control and the migration
  tool are not modelled yet. Within the Service world one reservation call is one step: its store operations are
  atomic each and the proofs use only what each one creates, but the interleaving inside one call is not explored.
\<close>

end
